(* ===== verification/Prelude.thy ===== *)
theory Prelude
  imports Main "HOL-Library.Word"
begin

text \<open>
  Shared ground of the development: the machine integers of the Rust sources and their checked and
  saturating operations, the outcome type of a fallible call (a value, an error value, or a panic),
  the combinators for code that mutates a state through \<open>&mut\<close> and returns early with \<open>?\<close>, and the
  generic reasoning principles about such code: a relation that every run keeps, a relation that
  every successful run keeps, and freedom from panics.

  The release profile of the workspace (\<open>cargo build --release\<close>, no \<open>overflow-checks\<close>) makes plain
  \<open>+\<close>, \<open>-\<close>, \<open>*\<close> wrap, which is what the operations of \<^typ>\<open>'a word\<close> do.
\<close>

section \<open>Machine integers\<close>

type_synonym u8 = "8 word"
type_synonym u32 = "32 word"
type_synonym u64 = "64 word"
type_synonym i64 = "64 word"
type_synonym u128 = "128 word"
type_synonym bytes = "8 word list"

named_theorems word_ops \<open>characterisations of the checked and saturating operations over nat\<close>

definition checked_add :: "'a::len word \<Rightarrow> 'a word \<Rightarrow> 'a word option" where
  "checked_add a b = (if unat a + unat b < 2 ^ LENGTH('a) then Some (a + b) else None)"

definition checked_sub :: "'a::len word \<Rightarrow> 'a word \<Rightarrow> 'a word option" where
  "checked_sub a b = (if b \<le> a then Some (a - b) else None)"

definition saturating_add :: "'a::len word \<Rightarrow> 'a word \<Rightarrow> 'a word" where
  "saturating_add a b = (if unat a + unat b < 2 ^ LENGTH('a) then a + b else (- 1))"

definition saturating_sub :: "'a::len word \<Rightarrow> 'a word \<Rightarrow> 'a word" where
  "saturating_sub a b = (if b \<le> a then a - b else 0)"

definition saturating_mul :: "'a::len word \<Rightarrow> 'a word \<Rightarrow> 'a word" where
  "saturating_mul a b = (if unat a * unat b < 2 ^ LENGTH('a) then a * b else (- 1))"

lemma checked_add_Some [word_ops]:
  fixes a :: "'a::len word"
  shows "checked_add a b = Some c \<longleftrightarrow> unat a + unat b < 2 ^ LENGTH('a) \<and> c = a + b"
  by (auto simp: checked_add_def)

lemma checked_add_None [word_ops]:
  fixes a :: "'a::len word"
  shows "checked_add a b = None \<longleftrightarrow> 2 ^ LENGTH('a) \<le> unat a + unat b"
  by (auto simp: checked_add_def)

lemma checked_sub_Some [word_ops]: "checked_sub a b = Some c \<longleftrightarrow> b \<le> a \<and> c = a - b"
  by (auto simp: checked_sub_def)

lemma checked_sub_None [word_ops]: "checked_sub a b = None \<longleftrightarrow> a < b"
  by (auto simp: checked_sub_def not_le)

lemma unat_bound: "unat (w :: 'a::len word) < 2 ^ LENGTH('a)"
  by (rule unsigned_less)

lemma unat_bounds:
  "unat (a :: u8) < 256" "unat (b :: u32) < 4294967296" "unat (c :: u64) < 18446744073709551616"
  using unat_bound [of a] unat_bound [of b] unat_bound [of c] by simp_all

lemma unat_of_nat_small: "v < 2 ^ LENGTH('a) \<Longrightarrow> unat (of_nat v :: 'a::len word) = v"
  by (simp add: unsigned_of_nat take_bit_nat_eq_self)

lemma unat_add_lem_less:
  fixes a :: "'a::len word"
  shows "unat a + unat b < 2 ^ LENGTH('a) \<Longrightarrow> unat (a + b) = unat a + unat b"
  by (simp add: unat_word_ariths)

lemma unat_sub_le:
  fixes a b :: "'a::len word"
  shows "b \<le> a \<Longrightarrow> unat (a - b) = unat a - unat b"
  by (rule unat_sub)

lemma unat_checked_add:
  "checked_add a b = Some c \<Longrightarrow> unat c = unat a + unat b"
  by (auto simp: word_ops unat_add_lem_less)

lemma unat_checked_sub:
  "checked_sub a b = Some c \<Longrightarrow> unat c + unat b = unat a"
  by (auto simp: word_ops unat_sub_le word_le_nat_alt)

lemma unat_saturating_sub [simp]: "unat (saturating_sub a b) = unat a - unat b"
  by (auto simp: saturating_sub_def unat_sub_le not_le word_less_nat_alt word_le_nat_alt)

lemma unat_minus_1: "unat (- 1 :: 'a::len word) = 2 ^ LENGTH('a) - 1"
  by (simp add: unsigned_minus_1_eq_mask mask_eq_exp_minus_1)

lemma unat_saturating_add:
  fixes a b :: "'a::len word"
  shows "unat (saturating_add a b) = min (unat a + unat b) (2 ^ LENGTH('a) - 1)"
  by (auto simp: saturating_add_def unat_add_lem_less unat_minus_1)

lemma unat_saturating_mul:
  fixes a b :: "'a::len word"
  shows "unat (saturating_mul a b) = min (unat a * unat b) (2 ^ LENGTH('a) - 1)"
  by (auto simp: saturating_mul_def unat_word_ariths unat_minus_1)

lemma saturating_sub_le: "saturating_sub a b \<le> a"
  by (simp add: word_le_nat_alt)

section \<open>Decimal rendering\<close>

text \<open>What \<open>format!\<close> prints for an unsigned integer.\<close>

fun show_nat :: "nat \<Rightarrow> string" where
  "show_nat n = (if n < 10 then [char_of (48 + n)] else show_nat (n div 10) @ [char_of (48 + n mod 10)])"

declare show_nat.simps [simp del]

abbreviation show_u64 :: "'a::len word \<Rightarrow> string" where
  "show_u64 w \<equiv> show_nat (unat w)"

section \<open>Outcomes and the state-and-error combinators\<close>

datatype ('e, 'a) outcome = Ok 'a | Err 'e | Panic

text \<open>
  A function that takes \<open>&mut s\<close> and returns \<open>Result<a, e>\<close>: the state is returned on every outcome,
  since Rust does not undo the writes made before an early return.
\<close>

type_synonym ('s, 'e, 'a) rm = "'s \<Rightarrow> ('e, 'a) outcome \<times> 's"

definition return :: "'a \<Rightarrow> ('s, 'e, 'a) rm" where
  "return x = (\<lambda>s. (Ok x, s))"

definition fail :: "'e \<Rightarrow> ('s, 'e, 'a) rm" where
  "fail e = (\<lambda>s. (Err e, s))"

definition panic :: "('s, 'e, 'a) rm" where
  "panic = (\<lambda>s. (Panic, s))"

definition bind_r :: "('s, 'e, 'a) rm \<Rightarrow> ('a \<Rightarrow> ('s, 'e, 'b) rm) \<Rightarrow> ('s, 'e, 'b) rm" where
  "bind_r m f = (\<lambda>s. case m s of
     (Ok x, t) \<Rightarrow> f x t
   | (Err e, t) \<Rightarrow> (Err e, t)
   | (Panic, t) \<Rightarrow> (Panic, t))"

abbreviation then_r :: "('s, 'e, 'a) rm \<Rightarrow> ('s, 'e, 'b) rm \<Rightarrow> ('s, 'e, 'b) rm" where
  "then_r m k \<equiv> bind_r m (\<lambda>_. k)"

text \<open>\<open>if !c { return Err(e) }\<close>\<close>

definition require :: "bool \<Rightarrow> 'e \<Rightarrow> ('s, 'e, unit) rm" where
  "require c e = (if c then return () else fail e)"

text \<open>\<open>o.ok_or(e)?\<close>\<close>

definition ok_or :: "'a option \<Rightarrow> 'e \<Rightarrow> ('s, 'e, 'a) rm" where
  "ok_or v e = (case v of Some x \<Rightarrow> return x | None \<Rightarrow> fail e)"

text \<open>\<open>xs[i]\<close>, which panics out of range.\<close>

definition index :: "'a list \<Rightarrow> nat \<Rightarrow> ('s, 'e, 'a) rm" where
  "index xs i = (if i < length xs then return (xs ! i) else panic)"

definition gets :: "('s \<Rightarrow> 'a) \<Rightarrow> ('s, 'e, 'a) rm" where
  "gets f = (\<lambda>s. (Ok (f s), s))"

definition modify :: "('s \<Rightarrow> 's) \<Rightarrow> ('s, 'e, unit) rm" where
  "modify f = (\<lambda>s. (Ok (), f s))"

text \<open>A third-party result (\<open>Inl\<close> its message) raised as an error of ours: \<open>.map_err(f)?\<close>\<close>

definition map_err :: "string + 'a \<Rightarrow> (string \<Rightarrow> 'e) \<Rightarrow> ('s, 'e, 'a) rm" where
  "map_err v f = (case v of Inl e \<Rightarrow> fail (f e) | Inr x \<Rightarrow> return x)"

lemma bind_return [simp]: "bind_r (return x) f = f x"
  by (simp add: bind_r_def return_def)

lemma bind_fail [simp]: "bind_r (fail e) f = fail e"
  by (simp add: bind_r_def fail_def)

lemma bind_panic [simp]: "bind_r panic f = panic"
  by (simp add: bind_r_def panic_def)

lemma bind_assoc [simp]: "bind_r (bind_r m f) g = bind_r m (\<lambda>x. bind_r (f x) g)"
  by (rule ext) (auto simp: bind_r_def split: prod.splits outcome.splits)

lemma require_True [simp]: "require True e = return ()"
  by (simp add: require_def)

lemma require_False [simp]: "require False e = fail e"
  by (simp add: require_def)

text \<open>Inversion: what a successful run went through.\<close>

named_theorems ok_iff \<open>when a run ends in success\<close>

lemma return_Ok_iff [ok_iff]: "return x s = (Ok y, t) \<longleftrightarrow> y = x \<and> t = s"
  by (auto simp: return_def)

lemma fail_Ok_iff [ok_iff]: "fail e s = (Ok y, t) \<longleftrightarrow> False"
  by (simp add: fail_def)

lemma panic_Ok_iff [ok_iff]: "panic s = (Ok y, t) \<longleftrightarrow> False"
  by (simp add: panic_def)

lemma bind_Ok_iff [ok_iff]:
  "bind_r m f s = (Ok y, t) \<longleftrightarrow> (\<exists>x u. m s = (Ok x, u) \<and> f x u = (Ok y, t))"
  by (auto simp: bind_r_def split: prod.splits outcome.splits)

lemma require_Ok_iff [ok_iff]: "require c e s = (Ok y, t) \<longleftrightarrow> c \<and> t = s"
  by (auto simp: require_def return_def fail_def)

lemma ok_or_Ok_iff [ok_iff]: "ok_or v e s = (Ok y, t) \<longleftrightarrow> v = Some y \<and> t = s"
  by (auto simp: ok_or_def return_def fail_def split: option.splits)

lemma index_Ok_iff [ok_iff]: "index xs i s = (Ok y, t) \<longleftrightarrow> i < length xs \<and> y = xs ! i \<and> t = s"
  by (auto simp: index_def return_def panic_def)

lemma gets_Ok_iff [ok_iff]: "gets f s = (Ok y, t) \<longleftrightarrow> y = f s \<and> t = s"
  by (auto simp: gets_def)

lemma modify_Ok_iff [ok_iff]: "modify f s = (Ok y, t) \<longleftrightarrow> t = f s"
  by (auto simp: modify_def)

lemma map_err_Ok_iff [ok_iff]: "map_err v f s = (Ok y, t) \<longleftrightarrow> v = Inr y \<and> t = s"
  by (auto simp: map_err_def return_def fail_def split: sum.splits)

text \<open>Evaluation of a run on a given state.\<close>

named_theorems run_simps \<open>equations that execute the combinators\<close>

lemma run_return [run_simps]: "return x s = (Ok x, s)"
  by (simp add: return_def)

lemma run_fail [run_simps]: "fail e s = (Err e, s)"
  by (simp add: fail_def)

lemma run_panic [run_simps]: "panic s = (Panic, s)"
  by (simp add: panic_def)

lemma run_gets [run_simps]: "gets f s = (Ok (f s), s)"
  by (simp add: gets_def)

lemma run_modify [run_simps]: "modify f s = (Ok (), f s)"
  by (simp add: modify_def)

lemma run_map_err [run_simps]:
  "map_err v f s = (case v of Inl e \<Rightarrow> (Err (f e), s) | Inr x \<Rightarrow> (Ok x, s))"
  by (simp add: map_err_def return_def fail_def split: sum.splits)

lemma run_bind_Ok [run_simps]: "m s = (Ok x, t) \<Longrightarrow> bind_r m f s = f x t"
  by (simp add: bind_r_def)

lemma run_bind_Err [run_simps]: "m s = (Err e, t) \<Longrightarrow> bind_r m f s = (Err e, t)"
  by (simp add: bind_r_def)

lemma run_require [run_simps]: "require c e s = (if c then (Ok (), s) else (Err e, s))"
  by (simp add: require_def return_def fail_def)

lemma run_ok_or [run_simps]:
  "ok_or v e s = (case v of Some x \<Rightarrow> (Ok x, s) | None \<Rightarrow> (Err e, s))"
  by (simp add: ok_or_def return_def fail_def split: option.splits)

lemma run_index [run_simps]: "index xs i s = (if i < length xs then (Ok (xs ! i), s) else (Panic, s))"
  by (simp add: index_def return_def panic_def)

text \<open>A concrete run that succeeds, at which a fact about successful runs applies.\<close>

lemma run_witness:
  "fst r = Ok x \<Longrightarrow> (\<And>t. r = (Ok x, t) \<Longrightarrow> P t) \<Longrightarrow> \<exists>t. r = (Ok x, t) \<and> P t"
  by (cases r) auto

section \<open>Relations kept by a run\<close>

text \<open>
  A reflexive and transitive relation between the state before and after: \<open>keeps\<close> says that every
  run stays within it, \<open>keeps_ok\<close> that every successful run does. Both are compositional, so a
  handler's proof is one introduction rule per call it makes.
\<close>

locale run_relation =
  fixes R :: "'s \<Rightarrow> 's \<Rightarrow> bool"
  assumes R_refl: "R s s"
    and R_trans: "R s t \<Longrightarrow> R t u \<Longrightarrow> R s u"
begin

definition keeps :: "('s, 'e, 'a) rm \<Rightarrow> bool" where
  "keeps m \<longleftrightarrow> (\<forall>s. R s (snd (m s)))"

definition keeps_ok :: "('s, 'e, 'a) rm \<Rightarrow> bool" where
  "keeps_ok m \<longleftrightarrow> (\<forall>s x t. m s = (Ok x, t) \<longrightarrow> R s t)"

lemma keepsD: "keeps m \<Longrightarrow> m s = (r, t) \<Longrightarrow> R s t"
  by (auto simp: keeps_def dest: spec [of _ s])

lemma keeps_okD: "keeps_ok m \<Longrightarrow> m s = (Ok x, t) \<Longrightarrow> R s t"
  by (auto simp: keeps_ok_def)

lemma keeps_imp_ok: "keeps m \<Longrightarrow> keeps_ok m"
  by (auto simp: keeps_ok_def dest: keepsD)

lemma keeps_return: "keeps (return x)"
  by (simp add: keeps_def return_def R_refl)

lemma keeps_fail: "keeps (fail e)"
  by (simp add: keeps_def fail_def R_refl)

lemma keeps_panic: "keeps panic"
  by (simp add: keeps_def panic_def R_refl)

lemma keeps_require: "keeps (require c e)"
  by (simp add: keeps_def require_def return_def fail_def R_refl)

lemma keeps_ok_or: "keeps (ok_or v e)"
  by (simp add: keeps_def ok_or_def return_def fail_def R_refl split: option.splits)

lemma keeps_index: "keeps (index xs i)"
  by (simp add: keeps_def index_def return_def panic_def R_refl)

lemma keeps_gets: "keeps (gets f)"
  by (simp add: keeps_def gets_def R_refl)

lemma keeps_map_err: "keeps (map_err v f)"
  by (simp add: keeps_def map_err_def return_def fail_def R_refl split: sum.splits)

lemma keeps_bind: "keeps m \<Longrightarrow> (\<And>x. keeps (f x)) \<Longrightarrow> keeps (bind_r m f)"
proof -
  assume m: "keeps m" and f: "\<And>x. keeps (f x)"
  have "R s (snd (bind_r m f s))" for s
  proof (cases "m s")
    case (Pair r t)
    with m have st: "R s t" by (rule keepsD)
    show ?thesis
    proof (cases r)
      case (Ok x)
      have "R t (snd (f x t))" using f by (simp add: keeps_def)
      with st have "R s (snd (f x t))" by (rule R_trans)
      with Pair Ok show ?thesis by (simp add: bind_r_def)
    qed (use Pair st in \<open>simp_all add: bind_r_def\<close>)
  qed
  then show ?thesis by (simp add: keeps_def)
qed

lemma keeps_if: "(c \<Longrightarrow> keeps m) \<Longrightarrow> (\<not> c \<Longrightarrow> keeps n) \<Longrightarrow> keeps (if c then m else n)"
  by simp

lemma keeps_option:
  "(v = None \<Longrightarrow> keeps m) \<Longrightarrow> (\<And>x. v = Some x \<Longrightarrow> keeps (f x)) \<Longrightarrow>
   keeps (case v of None \<Rightarrow> m | Some x \<Rightarrow> f x)"
  by (cases v) auto

lemma keeps_ok_bind: "keeps_ok m \<Longrightarrow> (\<And>x. keeps_ok (f x)) \<Longrightarrow> keeps_ok (bind_r m f)"
proof -
  assume m: "keeps_ok m" and f: "\<And>x. keeps_ok (f x)"
  have "R s u" if "bind_r m f s = (Ok y, u)" for s y u
  proof -
    from that obtain x t where "m s = (Ok x, t)" and "f x t = (Ok y, u)"
      by (auto simp: ok_iff)
    then show ?thesis using m f by (blast intro: R_trans keeps_okD)
  qed
  then show ?thesis by (auto simp: keeps_ok_def)
qed

lemma keeps_ok_if: "(c \<Longrightarrow> keeps_ok m) \<Longrightarrow> (\<not> c \<Longrightarrow> keeps_ok n) \<Longrightarrow> keeps_ok (if c then m else n)"
  by simp

lemma keeps_ok_option:
  "(v = None \<Longrightarrow> keeps_ok m) \<Longrightarrow> (\<And>x. v = Some x \<Longrightarrow> keeps_ok (f x)) \<Longrightarrow>
   keeps_ok (case v of None \<Rightarrow> m | Some x \<Rightarrow> f x)"
  by (cases v) auto

lemmas keeps_basic =
  keeps_return keeps_fail keeps_panic keeps_require keeps_ok_or keeps_index keeps_gets keeps_map_err

lemmas keeps_intros = keeps_basic keeps_bind

end

section \<open>Lists\<close>

lemma sum_list_update_nat:
  fixes xs :: "nat list"
  shows "i < length xs \<Longrightarrow> sum_list (xs[i := v]) + xs ! i = sum_list xs + v"
proof (induction xs arbitrary: i)
  case Nil
  then show ?case by simp
next
  case (Cons x xs)
  then show ?case by (cases i) (auto simp: add_ac)
qed

lemma sum_list_ge_nth: "i < length xs \<Longrightarrow> xs ! i \<le> sum_list (xs :: nat list)"
  by (simp add: elem_le_sum_list)

lemma length_filter_mono: "(\<And>x. P x \<Longrightarrow> Q x) \<Longrightarrow> length (filter P xs) \<le> length (filter Q xs)"
  by (induction xs) auto

end
