(* ===== verification/Chain_Types.thy ===== *)
theory Chain_Types
  imports Prelude
begin

text \<open>
  The data of the chain: hashes, accounts, instructions, messages and transactions
  (\<open>crypto\<close>, \<open>core\<close>), the sysvars (\<open>sysvar-program\<close>, \<open>rent-program\<close>), the instruction and state
  types of the native programs (\<open>system-program\<close>, \<open>stake-program\<close>, \<open>vote-program\<close>,
  \<open>token-program\<close>, \<open>loader-program\<close>, \<open>compute-budget-program\<close>) and the error values of the runtime.
  Numeric constants are those of the crates' \<open>config.toml\<close> files, which the build turns into
  \<open>env!\<close> strings.
\<close>

section \<open>Hashes, accounts, instructions, messages, transactions\<close>

text \<open>
  A \<open>Hash\<close> is an array of 64 bytes. It is kept as the 512-bit number those bytes spell, most
  significant byte first, so that the derived \<open>Ord\<close> (lexicographic on bytes) is \<open>\<le>\<close> on words.
\<close>

type_synonym hash = "512 word"

definition hash_zero :: hash where
  "hash_zero = 0"

record account =
  acc_lamports :: u64
  acc_data :: bytes
  acc_owner :: hash
  acc_executable :: bool
  acc_rent_epoch :: u64

definition account_new :: "u64 \<Rightarrow> hash \<Rightarrow> account" where
  "account_new lamports owner =
     \<lparr>acc_lamports = lamports, acc_data = [], acc_owner = owner, acc_executable = False,
      acc_rent_epoch = 0\<rparr>"

definition account_is_empty :: "account \<Rightarrow> bool" where
  "account_is_empty a \<longleftrightarrow> acc_lamports a = 0 \<and> acc_data a = []"

record compiled_instruction =
  ci_program_id_index :: u8
  ci_accounts :: bytes
  ci_data :: bytes

record account_meta =
  am_pubkey :: hash
  am_is_signer :: bool
  am_is_writable :: bool

record instruction =
  ix_program_id :: hash
  ix_accounts :: "account_meta list"
  ix_data :: bytes

definition account_meta_new :: "hash \<Rightarrow> bool \<Rightarrow> account_meta" where
  "account_meta_new k s = \<lparr>am_pubkey = k, am_is_signer = s, am_is_writable = True\<rparr>"

definition account_meta_new_readonly :: "hash \<Rightarrow> bool \<Rightarrow> account_meta" where
  "account_meta_new_readonly k s = \<lparr>am_pubkey = k, am_is_signer = s, am_is_writable = False\<rparr>"

record message =
  num_required_signatures :: u8
  num_readonly_signed :: u8
  num_readonly_unsigned :: u8
  account_keys :: "hash list"
  recent_blockhash :: hash
  instructions :: "compiled_instruction list"

record transaction =
  signatures :: "bytes list"
  signer_pubkeys :: "bytes list"
  tx_message :: message

section \<open>Sysvars\<close>

record clock =
  clock_slot :: u64
  epoch_start_timestamp :: i64
  clock_epoch :: u64
  leader_schedule_epoch :: u64
  unix_timestamp :: i64

record rent =
  lamports_per_byte_year :: u64
  exemption_threshold :: u64
  burn_percent :: u8

record epoch_schedule =
  slots_per_epoch :: u64
  leader_schedule_slot_offset :: u64
  warmup :: bool
  first_normal_epoch :: u64
  first_normal_slot :: u64

record stake_history_entry =
  she_effective :: u64
  she_activating :: u64
  she_deactivating :: u64

record sysvar_cache =
  sv_clock :: clock
  sv_rent :: rent
  sv_epoch_schedule :: epoch_schedule
  sv_slot_hashes :: "(u64 \<times> hash) list"
  sv_stake_history :: "(u64 \<times> stake_history_entry) list"
  sv_recent_blockhashes :: "hash list"

text \<open>The cache keeps the recent block hashes as a hash set beside the list: the same elements.\<close>

definition contains_blockhash :: "sysvar_cache \<Rightarrow> hash \<Rightarrow> bool" where
  "contains_blockhash sv h \<longleftrightarrow> h \<in> set (sv_recent_blockhashes sv)"

definition clock_default :: clock where
  "clock_default = \<lparr>clock_slot = 0, epoch_start_timestamp = 0, clock_epoch = 0,
     leader_schedule_epoch = 1, unix_timestamp = 0\<rparr>"

definition rent_default :: rent where
  "rent_default = \<lparr>lamports_per_byte_year = 3480, exemption_threshold = 2, burn_percent = 50\<rparr>"

section \<open>Native program data\<close>

subsection \<open>System program\<close>

datatype system_instruction =
    CreateAccount (ca_lamports: u64) (ca_space: u64) (ca_owner: hash)
  | SysTransfer u64
  | Assign hash
  | Allocate u64
  | CreateAccountWithSeed hash string u64 u64 hash
  | AdvanceNonceAccount
  | WithdrawNonceAccount u64
  | InitializeNonceAccount hash
  | AuthorizeNonceAccount hash

subsection \<open>Stake program\<close>

record authorized =
  staker :: hash
  withdrawer :: hash

record lockup =
  lockup_unix_timestamp :: i64
  lockup_epoch :: u64
  custodian :: hash

record stake_meta =
  rent_exempt_reserve :: u64
  meta_authorized :: authorized
  meta_lockup :: lockup

record delegation =
  voter_pubkey :: hash
  delegation_stake :: u64
  activation_epoch :: u64
  deactivation_epoch :: u64
  warmup_cooldown_rate_bps :: u64

record stake =
  stake_delegation :: delegation
  credits_observed :: u64

datatype stake_state =
    StakeUninitialized
  | StakeInitialized stake_meta
  | StakeDelegated stake_meta stake
  | RewardsPool

datatype stake_authorize = Staker | Withdrawer

record lockup_args =
  la_unix_timestamp :: "i64 option"
  la_epoch :: "u64 option"
  la_custodian :: "hash option"

datatype stake_instruction =
    StakeInitialize authorized lockup
  | StakeAuthorizeIx hash stake_authorize
  | DelegateStake
  | StakeSplit u64
  | StakeWithdraw u64
  | StakeDeactivate
  | StakeMerge
  | SetLockup lockup_args

definition DEFAULT_WARMUP_COOLDOWN_RATE_BPS :: u64 where
  "DEFAULT_WARMUP_COOLDOWN_RATE_BPS = 2500"

definition DEFAULT_MIN_DELEGATION :: u64 where
  "DEFAULT_MIN_DELEGATION = 1000000000"

subsection \<open>Vote program\<close>

record vlockout =
  lo_slot :: u64
  confirmation_count :: u32

record block_timestamp =
  bt_slot :: u64
  bt_timestamp :: i64

record vote_state =
  node_pubkey :: hash
  authorized_voter :: hash
  authorized_withdrawer :: hash
  commission :: u8
  votes :: "vlockout list"
  root_slot :: "u64 option"
  epoch_credits :: "(u64 \<times> u64 \<times> u64) list"
  last_timestamp :: block_timestamp

record vote_init =
  vi_node_pubkey :: hash
  vi_authorized_voter :: hash
  vi_authorized_withdrawer :: hash
  vi_commission :: u8

record vote =
  vote_slots :: "u64 list"
  vote_hash :: hash
  vote_timestamp :: "i64 option"

datatype vote_authorize = AuthVoter | AuthWithdrawer

datatype vote_instruction =
    VoteInitializeAccount vote_init
  | VoteIx vote
  | VoteAuthorizeIx hash vote_authorize
  | VoteWithdraw u64
  | UpdateCommission u8
  | SwitchVote vote hash
  | UpdateValidatorIdentity

definition MAX_LOCKOUT_HISTORY :: nat where
  "MAX_LOCKOUT_HISTORY = 31"

definition vote_state_new :: "vote_init \<Rightarrow> vote_state" where
  "vote_state_new i =
     \<lparr>node_pubkey = vi_node_pubkey i, authorized_voter = vi_authorized_voter i,
      authorized_withdrawer = vi_authorized_withdrawer i, commission = vi_commission i,
      votes = [], root_slot = None, epoch_credits = [],
      last_timestamp = \<lparr>bt_slot = 0, bt_timestamp = 0\<rparr>\<rparr>"

subsection \<open>Token program\<close>

datatype account_state = TokUninitialized | TokInitialized | TokFrozen

record mint =
  mint_authority :: "hash option"
  mint_supply :: u64
  decimals :: u8
  is_initialized :: bool
  freeze_authority :: "hash option"

record token_account =
  tok_mint :: hash
  tok_owner :: hash
  tok_amount :: u64
  tok_delegate :: "hash option"
  tok_state :: account_state
  tok_delegated_amount :: u64
  tok_close_authority :: "hash option"

datatype token_instruction =
    InitializeMint u8 hash "hash option"
  | TokInitializeAccount
  | MintTo u64
  | TokTransfer u64
  | Approve u64
  | Revoke
  | Burn u64
  | CloseAccount
  | FreezeAccount
  | ThawAccount

datatype token_error =
    TE_InsufficientBalance u64 u64
  | TE_OwnerMismatch
  | TE_MintMismatch
  | TE_AuthorityMismatch
  | TE_InsufficientDelegation u64 u64
  | TE_AlreadyInitialized
  | TE_NotInitialized
  | TE_AccountFrozen
  | TE_NoFreezeAuthority
  | TE_SupplyOverflow
  | TE_InvalidInstructionData string
  | TE_MissingAccount
  | TE_MissingSigner
  | TE_CloseNonEmpty

fun token_error_display :: "token_error \<Rightarrow> string" where
  "token_error_display (TE_InsufficientBalance n h) =
     ''insufficient token balance: need '' @ show_u64 n @ '', have '' @ show_u64 h"
| "token_error_display TE_OwnerMismatch = ''owner mismatch''"
| "token_error_display TE_MintMismatch = ''mint mismatch''"
| "token_error_display TE_AuthorityMismatch = ''authority mismatch''"
| "token_error_display (TE_InsufficientDelegation n h) =
     ''insufficient delegation: need '' @ show_u64 n @ '', have '' @ show_u64 h"
| "token_error_display TE_AlreadyInitialized = ''account already initialized''"
| "token_error_display TE_NotInitialized = ''account not initialized''"
| "token_error_display TE_AccountFrozen = ''account is frozen''"
| "token_error_display TE_NoFreezeAuthority = ''no freeze authority on mint''"
| "token_error_display TE_SupplyOverflow = ''supply overflow''"
| "token_error_display (TE_InvalidInstructionData s) = ''invalid instruction data''"
| "token_error_display TE_MissingAccount = ''missing required account''"
| "token_error_display TE_MissingSigner = ''missing required signer''"
| "token_error_display TE_CloseNonEmpty = ''close non-empty account''"

subsection \<open>Loader program\<close>

datatype loader_state =
    LsUninitialized
  | LsBuffer "hash option"
  | LsProgram hash
  | LsProgramData u64 "hash option" u64

datatype loader_instruction =
    InitializeBuffer
  | LoaderWrite u32 bytes
  | Deploy u64
  | Upgrade
  | SetAuthority "hash option"
  | LoaderClose

subsection \<open>Compute budget program\<close>

record compute_budget =
  compute_unit_limit :: u64
  compute_unit_price :: u64
  heap_size :: u32
  loaded_accounts_data_size_limit :: u32

datatype compute_budget_instruction =
    RequestUnitsDeprecated u32 u32
  | RequestHeapFrame u32
  | SetComputeUnitLimit u32
  | SetComputeUnitPrice u64
  | SetLoadedAccountsDataSizeLimit u32

definition DEFAULT_COMPUTE_UNIT_LIMIT :: u64 where "DEFAULT_COMPUTE_UNIT_LIMIT = 200000"
definition MAX_COMPUTE_UNIT_LIMIT :: u64 where "MAX_COMPUTE_UNIT_LIMIT = 1400000"
definition DEFAULT_COMPUTE_UNIT_PRICE :: u64 where "DEFAULT_COMPUTE_UNIT_PRICE = 0"
definition DEFAULT_HEAP_SIZE :: u64 where "DEFAULT_HEAP_SIZE = 32768"
definition MAX_HEAP_SIZE :: u64 where "MAX_HEAP_SIZE = 262144"
definition DEFAULT_LOADED_ACCOUNTS_DATA_SIZE_LIMIT :: u64 where
  "DEFAULT_LOADED_ACCOUNTS_DATA_SIZE_LIMIT = 65536"
definition MAX_LOADED_ACCOUNTS_DATA_SIZE_LIMIT :: u64 where
  "MAX_LOADED_ACCOUNTS_DATA_SIZE_LIMIT = 65536000"

definition MAX_ACCOUNT_DATA_SIZE :: u64 where
  "MAX_ACCOUNT_DATA_SIZE = 10485760"

section \<open>Errors\<close>

datatype core_error =
    CE_Crypto string
  | CE_InvalidInstruction string
  | CE_InvalidMessage string
  | CE_InvalidTransaction string
  | CE_InsufficientFunds u64 u64
  | CE_AccountNotFound
  | CE_ProgramError string

fun core_error_display :: "core_error \<Rightarrow> string" where
  "core_error_display (CE_Crypto s) = ''crypto error: '' @ s"
| "core_error_display (CE_InvalidInstruction s) = ''invalid instruction: '' @ s"
| "core_error_display (CE_InvalidMessage s) = ''invalid message: '' @ s"
| "core_error_display (CE_InvalidTransaction s) = ''invalid transaction: '' @ s"
| "core_error_display (CE_InsufficientFunds n a) =
     ''insufficient funds: need '' @ show_u64 n @ '', have '' @ show_u64 a"
| "core_error_display CE_AccountNotFound = ''account not found''"
| "core_error_display (CE_ProgramError s) = ''program error: '' @ s"

datatype runtime_error =
    AccountNotFound nat
  | AccountNotWritable nat
  | AccountNotSigner nat
  | AccountAlreadyExists
  | AccountOwnerMismatch
  | AccountDataTooLarge u64 u64
  | AccountIndexAliasing nat nat
  | InsufficientFunds u64 u64
  | LamportsOverflow
  | RentNotMet u64 u64
  | InsufficientComputeUnits u64 u64
  | ComputeUnitLimitExceeded
  | InvalidInstructionData string
  | InvalidAccountData string
  | InvalidComputeBudget string
  | UnknownProgram string
  | ProgramError string string
  | SignatureVerificationFailed string
  | BlockhashNotFound
  | DuplicateTransaction
  | MissingRequiredSigner nat
  | ReadonlyAccountModified nat
  | ExecutableAccountModified
  | LoadedAccountsDataSizeExceeded u64 u64
  | WasmError string
  | CpiDepthExceeded u32 u32
  | ProgramNotExecutable string
  | ReentrancyNotAllowed string
  | CpiPrivilegeEscalation string
  | Storage string
  | Core core_error
  | Crypto string

definition token_err :: "token_error \<Rightarrow> runtime_error" where
  "token_err e = ProgramError ''token'' (token_error_display e)"

end
