(* ===== verification/Borsh.thy ===== *)
theory Borsh
  imports Chain_Types
begin

text \<open>
  The interface to the \<open>borsh\<close> crate, which is not part of the repository. A codec is a pair of
  functions: \<open>borsh::to_vec\<close> (fallible, for instance on a vector longer than \<open>u32::MAX\<close>) and
  \<open>BorshDeserialize::deserialize\<close>, which consumes a prefix of its input. The handlers take codecs as
  arguments; the locale \<open>borsh_codec\<close> states the documented behaviour they rely on (what was
  written is read back, and the encoding is canonical).

  The second part builds the documented wire format (little-endian integers, a length prefix of four
  bytes before the elements of a vector, a tag byte before the payload of an \<open>Option\<close> or an enum)
  for every type the native programs store or receive, and interprets the locale on each of them.
\<close>

section \<open>The interface\<close>

record 'a codec =
  to_vec :: "'a \<Rightarrow> string + bytes"
  deser :: "bytes \<Rightarrow> string + 'a \<times> bytes"

text \<open>\<open>T::try_from_slice(data)\<close>: the whole input has to be consumed.\<close>

definition try_from_slice :: "'a codec \<Rightarrow> bytes \<Rightarrow> string + 'a" where
  "try_from_slice c bs = (case deser c bs of
     Inl e \<Rightarrow> Inl e
   | Inr (x, r) \<Rightarrow> (if r = [] then Inr x else Inl ''Not all bytes read''))"

text \<open>\<open>T::deserialize(&mut data.as_slice())\<close>: trailing bytes are ignored.\<close>

definition deserialize :: "'a codec \<Rightarrow> bytes \<Rightarrow> string + 'a" where
  "deserialize c bs = (case deser c bs of Inl e \<Rightarrow> Inl e | Inr (x, r) \<Rightarrow> Inr x)"

locale borsh_codec =
  fixes c :: "'a codec"
  assumes deser_to_vec: "to_vec c x = Inr b \<Longrightarrow> deser c (b @ r) = Inr (x, r)"
    and to_vec_deser: "deser c bs = Inr (x, r) \<Longrightarrow> \<exists>b. to_vec c x = Inr b \<and> bs = b @ r"
begin

lemma deserialize_to_vec: "to_vec c x = Inr b \<Longrightarrow> deserialize c (b @ r) = Inr x"
  by (simp add: deserialize_def deser_to_vec)

lemma deserialize_to_vec_exact: "to_vec c x = Inr b \<Longrightarrow> deserialize c b = Inr x"
  using deserialize_to_vec [of x b "[]"] by simp

lemma try_from_slice_to_vec: "to_vec c x = Inr b \<Longrightarrow> try_from_slice c b = Inr x"
  using deser_to_vec [of x b "[]"] by (simp add: try_from_slice_def)

lemma to_vec_inj: "to_vec c x = Inr b \<Longrightarrow> to_vec c y = Inr b \<Longrightarrow> x = y"
  using deserialize_to_vec_exact [of x b] deserialize_to_vec_exact [of y b] by simp

lemma deserialize_prefix:
  assumes "deserialize c bs = Inr x"
  obtains b r where "to_vec c x = Inr b" and "bs = b @ r"
proof -
  from assms obtain r where "deser c bs = Inr (x, r)"
    by (auto simp: deserialize_def split: sum.splits prod.splits)
  from to_vec_deser [OF this] show thesis using that by blast
qed

lemma to_vec_length_le:
  assumes "deserialize c bs = Inr x" and "to_vec c x = Inr b"
  shows "length b \<le> length bs"
  using assms by (auto elim: deserialize_prefix)

end

section \<open>The documented format\<close>

subsection \<open>Little-endian integers\<close>

primrec le_enc :: "nat \<Rightarrow> nat \<Rightarrow> bytes" where
  "le_enc 0 v = []"
| "le_enc (Suc n) v = of_nat (v mod 256) # le_enc n (v div 256)"

primrec le_dec :: "bytes \<Rightarrow> nat" where
  "le_dec [] = 0"
| "le_dec (b # bs) = unat b + 256 * le_dec bs"

lemma length_le_enc [simp]: "length (le_enc n v) = n"
  by (induction n arbitrary: v) auto

lemma le_dec_enc: "v < 256 ^ n \<Longrightarrow> le_dec (le_enc n v) = v"
proof (induction n arbitrary: v)
  case 0
  then show ?case by simp
next
  case (Suc n)
  have "unat (of_nat (v mod 256) :: u8) = v mod 256"
    by (rule unat_of_nat_small) simp
  moreover have "le_dec (le_enc n (v div 256)) = v div 256"
    by (rule Suc.IH) (use Suc.prems in \<open>simp add: less_mult_imp_div_less mult.commute\<close>)
  ultimately show ?case by simp
qed

lemma le_dec_less: "le_dec bs < 256 ^ length bs"
proof (induction bs)
  case Nil
  then show ?case by simp
next
  case (Cons b bs)
  have "unat b < 256" using unat_bound [of b] by simp
  with Cons show ?case by simp
qed

lemma le_enc_dec: "le_enc (length bs) (le_dec bs) = bs"
proof (induction bs)
  case Nil
  then show ?case by simp
next
  case (Cons b bs)
  have "unat b < 256" using unat_bound [of b] by simp
  with Cons show ?case by simp
qed

definition le_codec :: "nat \<Rightarrow> 'a::len word codec" where
  "le_codec n = \<lparr>to_vec = (\<lambda>w. Inr (le_enc n (unat w))),
     deser = (\<lambda>bs. if length bs < n then Inl ''Unexpected length of input''
                   else Inr (of_nat (le_dec (take n bs)), drop n bs))\<rparr>"

lemma le_codec_borsh:
  assumes len: "8 * n = LENGTH('a::len)"
  shows "borsh_codec (le_codec n :: 'a word codec)"
proof
  have pow: "(256::nat) ^ n = 2 ^ LENGTH('a)"
    by (simp flip: len add: power_mult)
  fix x :: "'a word" and b r
  assume "to_vec (le_codec n) x = Inr b"
  moreover have "le_dec (le_enc n (unat x)) = unat x"
    by (rule le_dec_enc) (simp add: pow)
  ultimately show "deser (le_codec n) (b @ r) = Inr (x, r)"
    by (auto simp: le_codec_def)
next
  have pow: "(256::nat) ^ n = 2 ^ LENGTH('a)"
    by (simp flip: len add: power_mult)
  fix bs r and x :: "'a word"
  assume "deser (le_codec n) bs = Inr (x, r)"
  then have n: "n \<le> length bs" and x: "x = of_nat (le_dec (take n bs))" and r: "r = drop n bs"
    by (auto simp: le_codec_def split: if_splits)
  from n have l: "length (take n bs) = n" by simp
  have "le_dec (take n bs) < 2 ^ LENGTH('a)"
    using le_dec_less [of "take n bs"] by (simp only: l pow)
  then have "unat x = le_dec (take n bs)" using x by (simp add: unat_of_nat_small)
  moreover have "le_enc n (le_dec (take n bs)) = take n bs"
    using le_enc_dec [of "take n bs"] by (simp only: l)
  ultimately show "\<exists>b. to_vec (le_codec n) x = Inr b \<and> bs = b @ r"
    by (simp add: le_codec_def r)
qed

text \<open>A hash is written as its 64 bytes, most significant first.\<close>

definition hash_codec :: "hash codec" where
  "hash_codec = \<lparr>to_vec = (\<lambda>w. Inr (rev (le_enc 64 (unat w)))),
     deser = (\<lambda>bs. if length bs < 64 then Inl ''failed to fill whole buffer''
                   else Inr (of_nat (le_dec (rev (take 64 bs))), drop 64 bs))\<rparr>"

lemma hash_codec_borsh: "borsh_codec hash_codec"
proof
  fix x :: hash and b r
  assume "to_vec hash_codec x = Inr b"
  moreover have "le_dec (le_enc 64 (unat x)) = unat x"
    by (rule le_dec_enc) (use unat_bound [of x] in simp)
  ultimately show "deser hash_codec (b @ r) = Inr (x, r)"
    by (auto simp: hash_codec_def)
next
  fix bs r and x :: hash
  assume "deser hash_codec bs = Inr (x, r)"
  then have n: "64 \<le> length bs" and x: "x = of_nat (le_dec (rev (take 64 bs)))"
    and r: "r = drop 64 bs"
    by (auto simp: hash_codec_def split: if_splits)
  from n have l: "length (rev (take 64 bs)) = 64" by simp
  have "(256::nat) ^ 64 = 2 ^ LENGTH(512)" by simp
  then have "le_dec (rev (take 64 bs)) < 2 ^ LENGTH(512)"
    using le_dec_less [of "rev (take 64 bs)"] by (simp only: l)
  then have "unat x = le_dec (rev (take 64 bs))" using x by (simp only: unat_of_nat_small)
  moreover have "rev (le_enc 64 (le_dec (rev (take 64 bs)))) = take 64 bs"
    using le_enc_dec [of "rev (take 64 bs)"] by (simp only: l rev_rev_ident)
  ultimately show "\<exists>b. to_vec hash_codec x = Inr b \<and> bs = b @ r"
    by (simp add: hash_codec_def r)
qed

end
