(* ===== verification/Borsh_Formats.thy ===== *)
theory Borsh_Formats
  imports Borsh
begin

text \<open>
  The combinators of the documented \<open>borsh\<close> format (tuples, \<open>Option\<close>, \<open>Vec\<close>, enums), with the
  laws of \<open>borsh_codec\<close> proved once for each, and the format of every type of the native programs as
  an interpretation of the locale. These codecs instantiate the codec arguments of the handlers where
  a concrete run is wanted.
\<close>

section \<open>Combinators\<close>

definition unit_codec :: "unit codec" where
  "unit_codec = \<lparr>to_vec = (\<lambda>_. Inr []), deser = (\<lambda>bs. Inr ((), bs))\<rparr>"

definition bool_codec :: "bool codec" where
  "bool_codec = \<lparr>to_vec = (\<lambda>b. Inr [if b then 1 else 0]),
     deser = (\<lambda>bs. case bs of [] \<Rightarrow> Inl ''Unexpected length of input''
       | t # r \<Rightarrow> if t = 0 then Inr (False, r) else if t = 1 then Inr (True, r)
                  else Inl ''Invalid bool representation'')\<rparr>"

definition prod_codec :: "'a codec \<Rightarrow> 'b codec \<Rightarrow> ('a \<times> 'b) codec" where
  "prod_codec c d = \<lparr>
     to_vec = (\<lambda>(x, y). case to_vec c x of Inl e \<Rightarrow> Inl e | Inr b \<Rightarrow>
       (case to_vec d y of Inl e \<Rightarrow> Inl e | Inr b' \<Rightarrow> Inr (b @ b'))),
     deser = (\<lambda>bs. case deser c bs of Inl e \<Rightarrow> Inl e | Inr (x, r) \<Rightarrow>
       (case deser d r of Inl e \<Rightarrow> Inl e | Inr (y, r') \<Rightarrow> Inr ((x, y), r')))\<rparr>"

text \<open>A struct is written as the tuple of its fields.\<close>

definition iso_codec :: "('a \<Rightarrow> 'p) \<Rightarrow> ('p \<Rightarrow> 'a) \<Rightarrow> 'p codec \<Rightarrow> 'a codec" where
  "iso_codec f g c = \<lparr>to_vec = (\<lambda>a. to_vec c (f a)),
     deser = (\<lambda>bs. case deser c bs of Inl e \<Rightarrow> Inl e | Inr (p, r) \<Rightarrow> Inr (g p, r))\<rparr>"

text \<open>An enum: a tag byte, then the payload of the variant with that tag.\<close>

definition enum_codec :: "('a \<Rightarrow> nat) \<Rightarrow> 'a codec list \<Rightarrow> 'a codec" where
  "enum_codec tag vs = \<lparr>
     to_vec = (\<lambda>a. case to_vec (vs ! tag a) a of Inl e \<Rightarrow> Inl e | Inr b \<Rightarrow> Inr (of_nat (tag a) # b)),
     deser = (\<lambda>bs. case bs of [] \<Rightarrow> Inl ''Unexpected length of input''
       | t # r \<Rightarrow> if unat t < length vs then deser (vs ! unat t) r
                  else Inl ''Unexpected variant tag'')\<rparr>"

fun enc_all :: "'a codec \<Rightarrow> 'a list \<Rightarrow> string + bytes" where
  "enc_all c [] = Inr []"
| "enc_all c (x # xs) = (case to_vec c x of Inl e \<Rightarrow> Inl e | Inr b \<Rightarrow>
     (case enc_all c xs of Inl e \<Rightarrow> Inl e | Inr b' \<Rightarrow> Inr (b @ b')))"

fun dec_all :: "'a codec \<Rightarrow> nat \<Rightarrow> bytes \<Rightarrow> string + 'a list \<times> bytes" where
  "dec_all c 0 bs = Inr ([], bs)"
| "dec_all c (Suc n) bs = (case deser c bs of Inl e \<Rightarrow> Inl e | Inr (x, r) \<Rightarrow>
     (case dec_all c n r of Inl e \<Rightarrow> Inl e | Inr (xs, r') \<Rightarrow> Inr (x # xs, r')))"

definition vec_codec :: "'a codec \<Rightarrow> 'a list codec" where
  "vec_codec c = \<lparr>
     to_vec = (\<lambda>xs. if length xs < 2 ^ 32
        then (case enc_all c xs of Inl e \<Rightarrow> Inl e | Inr b \<Rightarrow> Inr (le_enc 4 (length xs) @ b))
        else Inl ''invalid input''),
     deser = (\<lambda>bs. if length bs < 4 then Inl ''Unexpected length of input''
        else dec_all c (le_dec (take 4 bs)) (drop 4 bs))\<rparr>"

text \<open>A codec whose laws hold on the values of one enum variant.\<close>

definition borsh_on :: "'a set \<Rightarrow> 'a codec \<Rightarrow> bool" where
  "borsh_on D c \<longleftrightarrow>
     (\<forall>a b r. a \<in> D \<longrightarrow> to_vec c a = Inr b \<longrightarrow> deser c (b @ r) = Inr (a, r)) \<and>
     (\<forall>bs a r. deser c bs = Inr (a, r) \<longrightarrow> a \<in> D \<and> (\<exists>b. to_vec c a = Inr b \<and> bs = b @ r))"

named_theorems borsh_intros \<open>a combinator keeps the laws of the format\<close>

lemma unit_codec_borsh [borsh_intros]: "borsh_codec unit_codec"
  by unfold_locales (auto simp: unit_codec_def)

lemma bool_codec_borsh [borsh_intros]: "borsh_codec bool_codec"
  by unfold_locales (auto simp: bool_codec_def split: list.splits if_splits)

lemma prod_codec_borsh [borsh_intros]:
  assumes "borsh_codec c" and "borsh_codec d"
  shows "borsh_codec (prod_codec c d)"
proof
  fix p :: "'a \<times> 'b" and b r
  assume "to_vec (prod_codec c d) p = Inr b"
  then show "deser (prod_codec c d) (b @ r) = Inr (p, r)"
    by (auto simp: prod_codec_def borsh_codec.deser_to_vec [OF assms(1)]
        borsh_codec.deser_to_vec [OF assms(2)] split: sum.splits prod.splits)
next
  fix bs r and p :: "'a \<times> 'b"
  assume "deser (prod_codec c d) bs = Inr (p, r)"
  then obtain u where "deser c bs = Inr (fst p, u)" and "deser d u = Inr (snd p, r)"
    by (auto simp: prod_codec_def split: sum.splits prod.splits)
  then obtain b b' where "to_vec c (fst p) = Inr b" "bs = b @ u" "to_vec d (snd p) = Inr b'" "u = b' @ r"
    using borsh_codec.to_vec_deser [OF assms(1)] borsh_codec.to_vec_deser [OF assms(2)] by blast
  then show "\<exists>b. to_vec (prod_codec c d) p = Inr b \<and> bs = b @ r"
    by (simp add: prod_codec_def split_def)
qed

lemma iso_codec_on:
  assumes c: "borsh_codec c" and fg: "\<And>p. f (g p) = p \<and> g p \<in> D" and gf: "\<And>a. a \<in> D \<Longrightarrow> g (f a) = a"
  shows "borsh_on D (iso_codec f g c)"
  unfolding borsh_on_def
proof (intro conjI allI impI)
  fix a b r
  assume "a \<in> D" and "to_vec (iso_codec f g c) a = Inr b"
  then show "deser (iso_codec f g c) (b @ r) = Inr (a, r)"
    by (simp add: iso_codec_def borsh_codec.deser_to_vec [OF c] gf)
next
  fix bs a r
  assume "deser (iso_codec f g c) bs = Inr (a, r)"
  then obtain p where p: "deser c bs = Inr (p, r)" "a = g p"
    by (auto simp: iso_codec_def split: sum.splits)
  then show "a \<in> D" using fg by simp
  from borsh_codec.to_vec_deser [OF c p(1)] show "\<exists>b. to_vec (iso_codec f g c) a = Inr b \<and> bs = b @ r"
    using fg p(2) by (simp add: iso_codec_def)
qed

lemma borsh_on_UNIV: "borsh_on UNIV c \<longleftrightarrow> borsh_codec c"
  by (auto simp: borsh_on_def borsh_codec_def)

lemma iso_codec_borsh:
  "borsh_codec c \<Longrightarrow> (\<And>p. f (g p) = p) \<Longrightarrow> (\<And>a. g (f a) = a) \<Longrightarrow> borsh_codec (iso_codec f g c)"
  using iso_codec_on [of c f g UNIV] by (simp add: borsh_on_UNIV)

lemma enum_codec_borsh:
  assumes len: "length vs \<le> 256" and tag: "\<And>a. tag a < length vs"
    and vs: "\<And>i. i < length vs \<Longrightarrow> borsh_on {a. tag a = i} (vs ! i)"
  shows "borsh_codec (enum_codec tag vs)"
proof
  fix a b r
  assume enc: "to_vec (enum_codec tag vs) a = Inr b"
  then obtain b' where b': "to_vec (vs ! tag a) a = Inr b'" and b: "b = of_nat (tag a) # b'"
    by (auto simp: enum_codec_def split: sum.splits)
  have "unat (of_nat (tag a) :: u8) = tag a"
    by (rule unat_of_nat_small) (use tag [of a] len in simp)
  moreover have "deser (vs ! tag a) (b' @ r) = Inr (a, r)"
    using vs [OF tag] b' by (simp add: borsh_on_def)
  ultimately show "deser (enum_codec tag vs) (b @ r) = Inr (a, r)"
    using tag by (simp add: enum_codec_def b)
next
  fix bs a r
  assume "deser (enum_codec tag vs) bs = Inr (a, r)"
  then obtain t u where bs: "bs = t # u" and t: "unat t < length vs" and d: "deser (vs ! unat t) u = Inr (a, r)"
    by (auto simp: enum_codec_def split: list.splits if_splits)
  from vs [OF t] d obtain b where "tag a = unat t" and "to_vec (vs ! unat t) a = Inr b" and "u = b @ r"
    unfolding borsh_on_def by blast
  then show "\<exists>b. to_vec (enum_codec tag vs) a = Inr b \<and> bs = b @ r"
    by (simp add: enum_codec_def bs)
qed

lemma enc_all_dec:
  assumes "borsh_codec c"
  shows "enc_all c xs = Inr b \<Longrightarrow> dec_all c (length xs) (b @ r) = Inr (xs, r)"
proof (induction xs arbitrary: b)
  case Nil
  then show ?case by simp
next
  case (Cons x xs)
  then show ?case
    by (auto simp: borsh_codec.deser_to_vec [OF assms] split: sum.splits)
qed

lemma dec_all_enc:
  assumes "borsh_codec c"
  shows "dec_all c n bs = Inr (xs, r) \<Longrightarrow> length xs = n \<and> (\<exists>b. enc_all c xs = Inr b \<and> bs = b @ r)"
proof (induction n arbitrary: bs xs)
  case 0
  then show ?case by simp
next
  case (Suc n)
  then obtain x u ys where "deser c bs = Inr (x, u)" and rest: "dec_all c n u = Inr (ys, r)" and "xs = x # ys"
    by (auto split: sum.splits)
  moreover from Suc.IH [OF rest] obtain b' where "length ys = n" "enc_all c ys = Inr b'" "u = b' @ r"
    by blast
  ultimately show ?case
    using borsh_codec.to_vec_deser [OF assms, of bs x u] by auto
qed

lemma vec_codec_borsh [borsh_intros]:
  assumes c: "borsh_codec c"
  shows "borsh_codec (vec_codec c)"
proof
  fix xs b r
  assume "to_vec (vec_codec c) xs = Inr b"
  then obtain b' where l: "length xs < 2 ^ 32" and e: "enc_all c xs = Inr b'"
    and b: "b = le_enc 4 (length xs) @ b'"
    by (auto simp: vec_codec_def split: if_splits sum.splits)
  have "le_dec (le_enc 4 (length xs)) = length xs"
    by (rule le_dec_enc) (use l in simp)
  then show "deser (vec_codec c) (b @ r) = Inr (xs, r)"
    by (simp add: vec_codec_def b enc_all_dec [OF c e])
next
  fix bs xs r
  assume "deser (vec_codec c) bs = Inr (xs, r)"
  then have n: "4 \<le> length bs" and d: "dec_all c (le_dec (take 4 bs)) (drop 4 bs) = Inr (xs, r)"
    by (auto simp: vec_codec_def split: if_splits)
  from dec_all_enc [OF c d] obtain b where xs: "length xs = le_dec (take 4 bs)"
    and b: "enc_all c xs = Inr b" "drop 4 bs = b @ r" by blast
  from n have l: "length (take 4 bs) = 4" by simp
  have "le_enc 4 (length xs) = take 4 bs" and "length xs < 2 ^ 32"
    using le_enc_dec [of "take 4 bs"] le_dec_less [of "take 4 bs"] by (simp_all only: l xs) simp
  with b show "\<exists>b. to_vec (vec_codec c) xs = Inr b \<and> bs = b @ r"
    by (simp add: vec_codec_def) (metis append_assoc append_take_drop_id)
qed

section \<open>The formats of the stored and received types\<close>

definition u8_codec :: "u8 codec" where "u8_codec = le_codec 1"
definition u32_codec :: "u32 codec" where "u32_codec = le_codec 4"
definition u64_codec :: "u64 codec" where "u64_codec = le_codec 8"

lemma word_codecs_borsh [borsh_intros]:
  "borsh_codec u8_codec" "borsh_codec u32_codec" "borsh_codec u64_codec"
  by (simp_all add: u8_codec_def u32_codec_def u64_codec_def le_codec_borsh)

lemmas [borsh_intros] = hash_codec_borsh

definition option_codec :: "'a codec \<Rightarrow> 'a option codec" where
  "option_codec c = enum_codec (\<lambda>v. case v of None \<Rightarrow> 0 | Some _ \<Rightarrow> 1)
     [iso_codec (\<lambda>_. ()) (\<lambda>_. None) unit_codec, iso_codec the Some c]"

text \<open>The variants of an enum, each with the tag of its position.\<close>

primrec variants_from :: "('a \<Rightarrow> nat) \<Rightarrow> nat \<Rightarrow> 'a codec list \<Rightarrow> bool" where
  "variants_from tag i [] = True"
| "variants_from tag i (v # vs) = (borsh_on {a. tag a = i} v \<and> variants_from tag (Suc i) vs)"

lemma variants_from_nth:
  "variants_from tag k vs \<Longrightarrow> i < length vs \<Longrightarrow> borsh_on {a. tag a = k + i} (vs ! i)"
proof (induction vs arbitrary: k i)
  case Nil
  then show ?case by simp
next
  case (Cons v vs)
  then show ?case using Cons.IH [of "Suc k" "i - 1"] by (cases i) auto
qed

lemma variants_ok:
  assumes "variants_from tag 0 vs" and "length vs \<le> 256" and "\<And>a. tag a < length vs"
  shows "borsh_codec (enum_codec tag vs)"
  using assms variants_from_nth [of tag 0 vs] by (intro enum_codec_borsh) auto

lemma option_codec_borsh [borsh_intros]: "borsh_codec c \<Longrightarrow> borsh_codec (option_codec c)"
  unfolding option_codec_def
  by (rule variants_ok, unfold variants_from.simps, intro conjI TrueI iso_codec_on borsh_intros)
    (auto split: option.splits)

subsection \<open>Stake program\<close>

definition authorized_codec :: "authorized codec" where
  "authorized_codec = iso_codec (\<lambda>a. (staker a, withdrawer a))
     (\<lambda>(s, w). \<lparr>staker = s, withdrawer = w\<rparr>) (prod_codec hash_codec hash_codec)"

definition lockup_codec :: "lockup codec" where
  "lockup_codec = iso_codec (\<lambda>l. (lockup_unix_timestamp l, lockup_epoch l, custodian l))
     (\<lambda>(t, e, c). \<lparr>lockup_unix_timestamp = t, lockup_epoch = e, custodian = c\<rparr>)
     (prod_codec u64_codec (prod_codec u64_codec hash_codec))"

definition stake_meta_codec :: "stake_meta codec" where
  "stake_meta_codec = iso_codec (\<lambda>m. (rent_exempt_reserve m, meta_authorized m, meta_lockup m))
     (\<lambda>(r, a, l). \<lparr>rent_exempt_reserve = r, meta_authorized = a, meta_lockup = l\<rparr>)
     (prod_codec u64_codec (prod_codec authorized_codec lockup_codec))"

definition delegation_codec :: "delegation codec" where
  "delegation_codec = iso_codec
     (\<lambda>d. (voter_pubkey d, delegation_stake d, activation_epoch d, deactivation_epoch d, warmup_cooldown_rate_bps d))
     (\<lambda>(v, s, a, e, w). \<lparr>voter_pubkey = v, delegation_stake = s, activation_epoch = a,
        deactivation_epoch = e, warmup_cooldown_rate_bps = w\<rparr>)
     (prod_codec hash_codec (prod_codec u64_codec (prod_codec u64_codec (prod_codec u64_codec u64_codec))))"

definition stake_codec :: "stake codec" where
  "stake_codec = iso_codec (\<lambda>s. (stake_delegation s, credits_observed s))
     (\<lambda>(d, c). \<lparr>stake_delegation = d, credits_observed = c\<rparr>) (prod_codec delegation_codec u64_codec)"

lemma stake_records_borsh [borsh_intros]:
  "borsh_codec authorized_codec" "borsh_codec lockup_codec" "borsh_codec stake_meta_codec"
  "borsh_codec delegation_codec" "borsh_codec stake_codec"
  unfolding stake_meta_codec_def stake_codec_def authorized_codec_def lockup_codec_def delegation_codec_def
  by (auto intro!: iso_codec_borsh borsh_intros)

definition stake_state_codec :: "stake_state codec" where
  "stake_state_codec = enum_codec
     (\<lambda>s. case s of StakeUninitialized \<Rightarrow> 0 | StakeInitialized _ \<Rightarrow> 1 | StakeDelegated _ _ \<Rightarrow> 2 | RewardsPool \<Rightarrow> 3)
     [iso_codec (\<lambda>_. ()) (\<lambda>_. StakeUninitialized) unit_codec,
      iso_codec (\<lambda>s. case s of StakeInitialized m \<Rightarrow> m) StakeInitialized stake_meta_codec,
      iso_codec (\<lambda>s. case s of StakeDelegated m k \<Rightarrow> (m, k)) (\<lambda>(m, k). StakeDelegated m k)
        (prod_codec stake_meta_codec stake_codec),
      iso_codec (\<lambda>_. ()) (\<lambda>_. RewardsPool) unit_codec]"

interpretation stake_state_format: borsh_codec stake_state_codec
  unfolding stake_state_codec_def
  by (rule variants_ok, unfold variants_from.simps, intro conjI TrueI iso_codec_on borsh_intros)
    (auto split: stake_state.splits)

definition stake_authorize_codec :: "stake_authorize codec" where
  "stake_authorize_codec = enum_codec
     (\<lambda>x. case x of Staker \<Rightarrow> 0 | Withdrawer \<Rightarrow> 1)
     [iso_codec (\<lambda>_. ()) (\<lambda>_. Staker) unit_codec,
      iso_codec (\<lambda>_. ()) (\<lambda>_. Withdrawer) unit_codec]"

lemma stake_authorize_codec_borsh [borsh_intros]: "borsh_codec stake_authorize_codec"
  unfolding stake_authorize_codec_def
  by (rule variants_ok, unfold variants_from.simps, intro conjI TrueI iso_codec_on borsh_intros)
    (auto split: stake_authorize.splits)

definition lockup_args_codec :: "lockup_args codec" where
  "lockup_args_codec = iso_codec (\<lambda>x. (la_unix_timestamp x, la_epoch x, la_custodian x))
     (\<lambda>(a, b, c). \<lparr>la_unix_timestamp = a, la_epoch = b, la_custodian = c\<rparr>)
     (prod_codec (option_codec u64_codec) (prod_codec (option_codec u64_codec) (option_codec hash_codec)))"

lemma lockup_args_codec_borsh [borsh_intros]: "borsh_codec lockup_args_codec"
  unfolding lockup_args_codec_def by (auto intro!: iso_codec_borsh borsh_intros)

definition stake_instruction_codec :: "stake_instruction codec" where
  "stake_instruction_codec = enum_codec
     (\<lambda>x. case x of StakeInitialize _ _ \<Rightarrow> 0 | StakeAuthorizeIx _ _ \<Rightarrow> 1 | DelegateStake \<Rightarrow> 2 | StakeSplit _ \<Rightarrow> 3 | StakeWithdraw _ \<Rightarrow> 4 | StakeDeactivate \<Rightarrow> 5 | StakeMerge \<Rightarrow> 6 | SetLockup _ \<Rightarrow> 7)
     [iso_codec (\<lambda>x. case x of StakeInitialize a b \<Rightarrow> (a, b)) (\<lambda>(a, b). StakeInitialize a b)
        (prod_codec authorized_codec lockup_codec),
      iso_codec (\<lambda>x. case x of StakeAuthorizeIx a b \<Rightarrow> (a, b)) (\<lambda>(a, b). StakeAuthorizeIx a b)
        (prod_codec hash_codec stake_authorize_codec),
      iso_codec (\<lambda>_. ()) (\<lambda>_. DelegateStake) unit_codec,
      iso_codec (\<lambda>x. case x of StakeSplit a \<Rightarrow> a) StakeSplit u64_codec,
      iso_codec (\<lambda>x. case x of StakeWithdraw a \<Rightarrow> a) StakeWithdraw u64_codec,
      iso_codec (\<lambda>_. ()) (\<lambda>_. StakeDeactivate) unit_codec,
      iso_codec (\<lambda>_. ()) (\<lambda>_. StakeMerge) unit_codec,
      iso_codec (\<lambda>x. case x of SetLockup a \<Rightarrow> a) SetLockup lockup_args_codec]"

interpretation stake_instruction_format: borsh_codec stake_instruction_codec
  unfolding stake_instruction_codec_def
  by (rule variants_ok, unfold variants_from.simps, intro conjI TrueI iso_codec_on borsh_intros)
    (auto split: stake_instruction.splits)

subsection \<open>System program\<close>

definition string_codec :: "string codec" where
  "string_codec = iso_codec (map (\<lambda>c. of_nat (of_char c))) (map (\<lambda>b. char_of (unat b))) (vec_codec u8_codec)"

lemma string_codec_borsh [borsh_intros]: "borsh_codec string_codec"
proof -
  have "of_nat (of_char (char_of (unat b) :: char)) = b" for b :: u8
  proof -
    have "unat b < 256" using unat_bound [of b] by simp
    then show ?thesis by simp
  qed
  moreover have "char_of (unat (of_nat (of_char c) :: u8)) = c" for c :: char
  proof -
    have "of_char c < (256 :: nat)" by (rule nat_of_char_less_256)
    then have "unat (of_nat (of_char c) :: u8) = of_char c" by (intro unat_of_nat_small) simp
    then show ?thesis by simp
  qed
  ultimately show ?thesis
    unfolding string_codec_def by (intro iso_codec_borsh borsh_intros) (simp_all add: map_idI)
qed

definition system_instruction_codec :: "system_instruction codec" where
  "system_instruction_codec = enum_codec
     (\<lambda>x. case x of CreateAccount _ _ _ \<Rightarrow> 0 | SysTransfer _ \<Rightarrow> 1 | Assign _ \<Rightarrow> 2 | Allocate _ \<Rightarrow> 3 | CreateAccountWithSeed _ _ _ _ _ \<Rightarrow> 4 | AdvanceNonceAccount \<Rightarrow> 5 | WithdrawNonceAccount _ \<Rightarrow> 6 | InitializeNonceAccount _ \<Rightarrow> 7 | AuthorizeNonceAccount _ \<Rightarrow> 8)
     [iso_codec (\<lambda>x. case x of CreateAccount a b c \<Rightarrow> (a, b, c)) (\<lambda>(a, b, c). CreateAccount a b c)
        (prod_codec u64_codec (prod_codec u64_codec hash_codec)),
      iso_codec (\<lambda>x. case x of SysTransfer a \<Rightarrow> a) SysTransfer u64_codec,
      iso_codec (\<lambda>x. case x of Assign a \<Rightarrow> a) Assign hash_codec,
      iso_codec (\<lambda>x. case x of Allocate a \<Rightarrow> a) Allocate u64_codec,
      iso_codec (\<lambda>x. case x of CreateAccountWithSeed a b c d e \<Rightarrow> (a, b, c, d, e)) (\<lambda>(a, b, c, d, e). CreateAccountWithSeed a b c d e)
        (prod_codec hash_codec (prod_codec string_codec (prod_codec u64_codec (prod_codec u64_codec hash_codec)))),
      iso_codec (\<lambda>_. ()) (\<lambda>_. AdvanceNonceAccount) unit_codec,
      iso_codec (\<lambda>x. case x of WithdrawNonceAccount a \<Rightarrow> a) WithdrawNonceAccount u64_codec,
      iso_codec (\<lambda>x. case x of InitializeNonceAccount a \<Rightarrow> a) InitializeNonceAccount hash_codec,
      iso_codec (\<lambda>x. case x of AuthorizeNonceAccount a \<Rightarrow> a) AuthorizeNonceAccount hash_codec]"

interpretation system_instruction_format: borsh_codec system_instruction_codec
  unfolding system_instruction_codec_def
  by (rule variants_ok, unfold variants_from.simps, intro conjI TrueI iso_codec_on borsh_intros)
    (auto split: system_instruction.splits)

subsection \<open>Vote program\<close>

definition vlockout_codec :: "vlockout codec" where
  "vlockout_codec = iso_codec (\<lambda>x. (lo_slot x, confirmation_count x))
     (\<lambda>(a, b). \<lparr>lo_slot = a, confirmation_count = b\<rparr>)
     (prod_codec u64_codec u32_codec)"

lemma vlockout_codec_borsh [borsh_intros]: "borsh_codec vlockout_codec"
  unfolding vlockout_codec_def by (auto intro!: iso_codec_borsh borsh_intros)

definition block_timestamp_codec :: "block_timestamp codec" where
  "block_timestamp_codec = iso_codec (\<lambda>x. (bt_slot x, bt_timestamp x))
     (\<lambda>(a, b). \<lparr>bt_slot = a, bt_timestamp = b\<rparr>)
     (prod_codec u64_codec u64_codec)"

lemma block_timestamp_codec_borsh [borsh_intros]: "borsh_codec block_timestamp_codec"
  unfolding block_timestamp_codec_def by (auto intro!: iso_codec_borsh borsh_intros)

definition vote_init_codec :: "vote_init codec" where
  "vote_init_codec = iso_codec (\<lambda>x. (vi_node_pubkey x, vi_authorized_voter x, vi_authorized_withdrawer x, vi_commission x))
     (\<lambda>(a, b, c, d). \<lparr>vi_node_pubkey = a, vi_authorized_voter = b, vi_authorized_withdrawer = c, vi_commission = d\<rparr>)
     (prod_codec hash_codec (prod_codec hash_codec (prod_codec hash_codec u8_codec)))"

lemma vote_init_codec_borsh [borsh_intros]: "borsh_codec vote_init_codec"
  unfolding vote_init_codec_def by (auto intro!: iso_codec_borsh borsh_intros)

definition vote_codec :: "vote codec" where
  "vote_codec = iso_codec (\<lambda>x. (vote_slots x, vote_hash x, vote_timestamp x))
     (\<lambda>(a, b, c). \<lparr>vote_slots = a, vote_hash = b, vote_timestamp = c\<rparr>)
     (prod_codec (vec_codec u64_codec) (prod_codec hash_codec (option_codec u64_codec)))"

lemma vote_codec_borsh [borsh_intros]: "borsh_codec vote_codec"
  unfolding vote_codec_def by (auto intro!: iso_codec_borsh borsh_intros)

definition vote_state_codec :: "vote_state codec" where
  "vote_state_codec = iso_codec (\<lambda>x. (node_pubkey x, authorized_voter x, authorized_withdrawer x, commission x, votes x, root_slot x, epoch_credits x, last_timestamp x))
     (\<lambda>(a, b, c, d, e, f, g, h). \<lparr>node_pubkey = a, authorized_voter = b, authorized_withdrawer = c, commission = d, votes = e, root_slot = f, epoch_credits = g, last_timestamp = h\<rparr>)
     (prod_codec hash_codec (prod_codec hash_codec (prod_codec hash_codec (prod_codec u8_codec (prod_codec (vec_codec vlockout_codec) (prod_codec (option_codec u64_codec) (prod_codec (vec_codec (prod_codec u64_codec (prod_codec u64_codec u64_codec))) block_timestamp_codec)))))))"

lemma vote_state_codec_borsh [borsh_intros]: "borsh_codec vote_state_codec"
  unfolding vote_state_codec_def by (auto intro!: iso_codec_borsh borsh_intros)

interpretation vote_state_format: borsh_codec vote_state_codec
  by (rule vote_state_codec_borsh)

definition vote_authorize_codec :: "vote_authorize codec" where
  "vote_authorize_codec = enum_codec
     (\<lambda>x. case x of AuthVoter \<Rightarrow> 0 | AuthWithdrawer \<Rightarrow> 1)
     [iso_codec (\<lambda>_. ()) (\<lambda>_. AuthVoter) unit_codec,
      iso_codec (\<lambda>_. ()) (\<lambda>_. AuthWithdrawer) unit_codec]"

lemma vote_authorize_codec_borsh [borsh_intros]: "borsh_codec vote_authorize_codec"
  unfolding vote_authorize_codec_def
  by (rule variants_ok, unfold variants_from.simps, intro conjI TrueI iso_codec_on borsh_intros)
    (auto split: vote_authorize.splits)

definition vote_instruction_codec :: "vote_instruction codec" where
  "vote_instruction_codec = enum_codec
     (\<lambda>x. case x of VoteInitializeAccount _ \<Rightarrow> 0 | VoteIx _ \<Rightarrow> 1 | VoteAuthorizeIx _ _ \<Rightarrow> 2 | VoteWithdraw _ \<Rightarrow> 3 | UpdateCommission _ \<Rightarrow> 4 | SwitchVote _ _ \<Rightarrow> 5 | UpdateValidatorIdentity \<Rightarrow> 6)
     [iso_codec (\<lambda>x. case x of VoteInitializeAccount a \<Rightarrow> a) VoteInitializeAccount vote_init_codec,
      iso_codec (\<lambda>x. case x of VoteIx a \<Rightarrow> a) VoteIx vote_codec,
      iso_codec (\<lambda>x. case x of VoteAuthorizeIx a b \<Rightarrow> (a, b)) (\<lambda>(a, b). VoteAuthorizeIx a b)
        (prod_codec hash_codec vote_authorize_codec),
      iso_codec (\<lambda>x. case x of VoteWithdraw a \<Rightarrow> a) VoteWithdraw u64_codec,
      iso_codec (\<lambda>x. case x of UpdateCommission a \<Rightarrow> a) UpdateCommission u8_codec,
      iso_codec (\<lambda>x. case x of SwitchVote a b \<Rightarrow> (a, b)) (\<lambda>(a, b). SwitchVote a b)
        (prod_codec vote_codec hash_codec),
      iso_codec (\<lambda>_. ()) (\<lambda>_. UpdateValidatorIdentity) unit_codec]"

interpretation vote_instruction_format: borsh_codec vote_instruction_codec
  unfolding vote_instruction_codec_def
  by (rule variants_ok, unfold variants_from.simps, intro conjI TrueI iso_codec_on borsh_intros)
    (auto split: vote_instruction.splits)

subsection \<open>Token program\<close>

definition account_state_codec :: "account_state codec" where
  "account_state_codec = enum_codec
     (\<lambda>x. case x of TokUninitialized \<Rightarrow> 0 | TokInitialized \<Rightarrow> 1 | TokFrozen \<Rightarrow> 2)
     [iso_codec (\<lambda>_. ()) (\<lambda>_. TokUninitialized) unit_codec,
      iso_codec (\<lambda>_. ()) (\<lambda>_. TokInitialized) unit_codec,
      iso_codec (\<lambda>_. ()) (\<lambda>_. TokFrozen) unit_codec]"

lemma account_state_codec_borsh [borsh_intros]: "borsh_codec account_state_codec"
  unfolding account_state_codec_def
  by (rule variants_ok, unfold variants_from.simps, intro conjI TrueI iso_codec_on borsh_intros)
    (auto split: account_state.splits)

definition mint_codec :: "mint codec" where
  "mint_codec = iso_codec (\<lambda>x. (mint_authority x, mint_supply x, decimals x, is_initialized x, freeze_authority x))
     (\<lambda>(a, b, c, d, e). \<lparr>mint_authority = a, mint_supply = b, decimals = c, is_initialized = d, freeze_authority = e\<rparr>)
     (prod_codec (option_codec hash_codec) (prod_codec u64_codec (prod_codec u8_codec (prod_codec bool_codec (option_codec hash_codec)))))"

lemma mint_codec_borsh [borsh_intros]: "borsh_codec mint_codec"
  unfolding mint_codec_def by (auto intro!: iso_codec_borsh borsh_intros)

definition token_account_codec :: "token_account codec" where
  "token_account_codec = iso_codec (\<lambda>x. (tok_mint x, tok_owner x, tok_amount x, tok_delegate x, tok_state x, tok_delegated_amount x, tok_close_authority x))
     (\<lambda>(a, b, c, d, e, f, g). \<lparr>tok_mint = a, tok_owner = b, tok_amount = c, tok_delegate = d, tok_state = e, tok_delegated_amount = f, tok_close_authority = g\<rparr>)
     (prod_codec hash_codec (prod_codec hash_codec (prod_codec u64_codec (prod_codec (option_codec hash_codec) (prod_codec account_state_codec (prod_codec u64_codec (option_codec hash_codec)))))))"

lemma token_account_codec_borsh [borsh_intros]: "borsh_codec token_account_codec"
  unfolding token_account_codec_def by (auto intro!: iso_codec_borsh borsh_intros)

interpretation mint_format: borsh_codec mint_codec
  by (rule mint_codec_borsh)

interpretation token_account_format: borsh_codec token_account_codec
  by (rule token_account_codec_borsh)

definition token_instruction_codec :: "token_instruction codec" where
  "token_instruction_codec = enum_codec
     (\<lambda>x. case x of InitializeMint _ _ _ \<Rightarrow> 0 | TokInitializeAccount \<Rightarrow> 1 | MintTo _ \<Rightarrow> 2 | TokTransfer _ \<Rightarrow> 3 | Approve _ \<Rightarrow> 4 | Revoke \<Rightarrow> 5 | Burn _ \<Rightarrow> 6 | CloseAccount \<Rightarrow> 7 | FreezeAccount \<Rightarrow> 8 | ThawAccount \<Rightarrow> 9)
     [iso_codec (\<lambda>x. case x of InitializeMint a b c \<Rightarrow> (a, b, c)) (\<lambda>(a, b, c). InitializeMint a b c)
        (prod_codec u8_codec (prod_codec hash_codec (option_codec hash_codec))),
      iso_codec (\<lambda>_. ()) (\<lambda>_. TokInitializeAccount) unit_codec,
      iso_codec (\<lambda>x. case x of MintTo a \<Rightarrow> a) MintTo u64_codec,
      iso_codec (\<lambda>x. case x of TokTransfer a \<Rightarrow> a) TokTransfer u64_codec,
      iso_codec (\<lambda>x. case x of Approve a \<Rightarrow> a) Approve u64_codec,
      iso_codec (\<lambda>_. ()) (\<lambda>_. Revoke) unit_codec,
      iso_codec (\<lambda>x. case x of Burn a \<Rightarrow> a) Burn u64_codec,
      iso_codec (\<lambda>_. ()) (\<lambda>_. CloseAccount) unit_codec,
      iso_codec (\<lambda>_. ()) (\<lambda>_. FreezeAccount) unit_codec,
      iso_codec (\<lambda>_. ()) (\<lambda>_. ThawAccount) unit_codec]"

interpretation token_instruction_format: borsh_codec token_instruction_codec
  unfolding token_instruction_codec_def
  by (rule variants_ok, unfold variants_from.simps, intro conjI TrueI iso_codec_on borsh_intros)
    (auto split: token_instruction.splits)

subsection \<open>Loader and compute budget programs\<close>

definition loader_state_codec :: "loader_state codec" where
  "loader_state_codec = enum_codec
     (\<lambda>x. case x of LsUninitialized \<Rightarrow> 0 | LsBuffer _ \<Rightarrow> 1 | LsProgram _ \<Rightarrow> 2 | LsProgramData _ _ _ \<Rightarrow> 3)
     [iso_codec (\<lambda>_. ()) (\<lambda>_. LsUninitialized) unit_codec,
      iso_codec (\<lambda>x. case x of LsBuffer a \<Rightarrow> a) LsBuffer (option_codec hash_codec),
      iso_codec (\<lambda>x. case x of LsProgram a \<Rightarrow> a) LsProgram hash_codec,
      iso_codec (\<lambda>x. case x of LsProgramData a b c \<Rightarrow> (a, b, c)) (\<lambda>(a, b, c). LsProgramData a b c)
        (prod_codec u64_codec (prod_codec (option_codec hash_codec) u64_codec))]"

interpretation loader_state_format: borsh_codec loader_state_codec
  unfolding loader_state_codec_def
  by (rule variants_ok, unfold variants_from.simps, intro conjI TrueI iso_codec_on borsh_intros)
    (auto split: loader_state.splits)

definition loader_instruction_codec :: "loader_instruction codec" where
  "loader_instruction_codec = enum_codec
     (\<lambda>x. case x of InitializeBuffer \<Rightarrow> 0 | LoaderWrite _ _ \<Rightarrow> 1 | Deploy _ \<Rightarrow> 2 | Upgrade \<Rightarrow> 3 | SetAuthority _ \<Rightarrow> 4 | LoaderClose \<Rightarrow> 5)
     [iso_codec (\<lambda>_. ()) (\<lambda>_. InitializeBuffer) unit_codec,
      iso_codec (\<lambda>x. case x of LoaderWrite a b \<Rightarrow> (a, b)) (\<lambda>(a, b). LoaderWrite a b)
        (prod_codec u32_codec (vec_codec u8_codec)),
      iso_codec (\<lambda>x. case x of Deploy a \<Rightarrow> a) Deploy u64_codec,
      iso_codec (\<lambda>_. ()) (\<lambda>_. Upgrade) unit_codec,
      iso_codec (\<lambda>x. case x of SetAuthority a \<Rightarrow> a) SetAuthority (option_codec hash_codec),
      iso_codec (\<lambda>_. ()) (\<lambda>_. LoaderClose) unit_codec]"

interpretation loader_instruction_format: borsh_codec loader_instruction_codec
  unfolding loader_instruction_codec_def
  by (rule variants_ok, unfold variants_from.simps, intro conjI TrueI iso_codec_on borsh_intros)
    (auto split: loader_instruction.splits)

definition compute_budget_instruction_codec :: "compute_budget_instruction codec" where
  "compute_budget_instruction_codec = enum_codec
     (\<lambda>x. case x of RequestUnitsDeprecated _ _ \<Rightarrow> 0 | RequestHeapFrame _ \<Rightarrow> 1 | SetComputeUnitLimit _ \<Rightarrow> 2 | SetComputeUnitPrice _ \<Rightarrow> 3 | SetLoadedAccountsDataSizeLimit _ \<Rightarrow> 4)
     [iso_codec (\<lambda>x. case x of RequestUnitsDeprecated a b \<Rightarrow> (a, b)) (\<lambda>(a, b). RequestUnitsDeprecated a b)
        (prod_codec u32_codec u32_codec),
      iso_codec (\<lambda>x. case x of RequestHeapFrame a \<Rightarrow> a) RequestHeapFrame u32_codec,
      iso_codec (\<lambda>x. case x of SetComputeUnitLimit a \<Rightarrow> a) SetComputeUnitLimit u32_codec,
      iso_codec (\<lambda>x. case x of SetComputeUnitPrice a \<Rightarrow> a) SetComputeUnitPrice u64_codec,
      iso_codec (\<lambda>x. case x of SetLoadedAccountsDataSizeLimit a \<Rightarrow> a) SetLoadedAccountsDataSizeLimit u32_codec]"

interpretation compute_budget_instruction_format: borsh_codec compute_budget_instruction_codec
  unfolding compute_budget_instruction_codec_def
  by (rule variants_ok, unfold variants_from.simps, intro conjI TrueI iso_codec_on borsh_intros)
    (auto split: compute_budget_instruction.splits)

subsection \<open>Messages\<close>

definition compiled_instruction_codec :: "compiled_instruction codec" where
  "compiled_instruction_codec = iso_codec (\<lambda>x. (ci_program_id_index x, ci_accounts x, ci_data x))
     (\<lambda>(a, b, c). \<lparr>ci_program_id_index = a, ci_accounts = b, ci_data = c\<rparr>)
     (prod_codec u8_codec (prod_codec (vec_codec u8_codec) (vec_codec u8_codec)))"

lemma compiled_instruction_codec_borsh [borsh_intros]: "borsh_codec compiled_instruction_codec"
  unfolding compiled_instruction_codec_def by (auto intro!: iso_codec_borsh borsh_intros)

definition message_codec :: "message codec" where
  "message_codec = iso_codec (\<lambda>x. (num_required_signatures x, num_readonly_signed x, num_readonly_unsigned x, account_keys x, recent_blockhash x, instructions x))
     (\<lambda>(a, b, c, d, e, f). \<lparr>num_required_signatures = a, num_readonly_signed = b, num_readonly_unsigned = c, account_keys = d, recent_blockhash = e, instructions = f\<rparr>)
     (prod_codec u8_codec (prod_codec u8_codec (prod_codec u8_codec (prod_codec (vec_codec hash_codec) (prod_codec hash_codec (vec_codec compiled_instruction_codec))))))"

lemma message_codec_borsh [borsh_intros]: "borsh_codec message_codec"
  unfolding message_codec_def by (auto intro!: iso_codec_borsh borsh_intros)

interpretation message_format: borsh_codec message_codec
  by (rule message_codec_borsh)

end
