(* ===== verification/Env.thy ===== *)
theory Env
  imports Borsh_Formats
begin

text \<open>
  What the program takes from outside the repository, as one record: the SHA3-512 hash
  (\<open>sha3\<close>), Dilithium3 verification (\<open>pqcrypto\<close>), the base64 rendering of a hash (\<open>base64\<close>),
  the derived borsh codecs, and the WebAssembly engine (\<open>wasmi\<close>, with the host functions of
  \<open>vm/\<close> that run inside it). Every definition that reaches one of them takes the record as its
  first argument. The program identifiers of \<open>core/src/program.rs\<close> are hashes of the names in
  \<open>core/config.toml\<close>.
\<close>

record env =
  sha3_512 :: "bytes \<Rightarrow> hash"
  dilithium_verify :: "bytes \<Rightarrow> bytes \<Rightarrow> bytes \<Rightarrow> bool" \<comment> \<open>public key, message, signature\<close>
  hash_display :: "hash \<Rightarrow> string"
  message_fmt :: "message codec"
  system_ix_fmt :: "system_instruction codec"
  stake_ix_fmt :: "stake_instruction codec"
  stake_state_fmt :: "stake_state codec"
  vote_ix_fmt :: "vote_instruction codec"
  vote_state_fmt :: "vote_state codec"
  token_ix_fmt :: "token_instruction codec"
  mint_fmt :: "mint codec"
  token_account_fmt :: "token_account codec"
  loader_ix_fmt :: "loader_instruction codec"
  loader_state_fmt :: "loader_state codec"
  compute_budget_ix_fmt :: "compute_budget_instruction codec"
  wasm_validate :: "bytes \<Rightarrow> string + unit"
  wasm_execute ::
    "bytes \<Rightarrow> hash \<Rightarrow> bytes \<Rightarrow> (hash \<times> account) list \<Rightarrow> (bool \<times> bool) list \<Rightarrow> nat list \<Rightarrow> u64 \<Rightarrow> u64 \<Rightarrow>
     (string + unit) \<times> (hash \<times> account) list \<times> u64"
    \<comment> \<open>bytecode, program, data, accounts, privileges, indices, slot, compute units\<close>

definition str_bytes :: "string \<Rightarrow> bytes" where
  "str_bytes s = map (\<lambda>c. of_nat (of_char c)) s"

definition SYSTEM_PROGRAM_ID :: "env \<Rightarrow> hash" where
  "SYSTEM_PROGRAM_ID E = sha3_512 E (str_bytes ''system_program'')"

definition RENT_PROGRAM_ID :: "env \<Rightarrow> hash" where
  "RENT_PROGRAM_ID E = sha3_512 E (str_bytes ''rent_program'')"

definition STAKE_PROGRAM_ID :: "env \<Rightarrow> hash" where
  "STAKE_PROGRAM_ID E = sha3_512 E (str_bytes ''stake_program'')"

definition VOTE_PROGRAM_ID :: "env \<Rightarrow> hash" where
  "VOTE_PROGRAM_ID E = sha3_512 E (str_bytes ''vote_program'')"

definition COMPUTE_BUDGET_PROGRAM_ID :: "env \<Rightarrow> hash" where
  "COMPUTE_BUDGET_PROGRAM_ID E = sha3_512 E (str_bytes ''compute_budget_program'')"

definition SYSVAR_PROGRAM_ID :: "env \<Rightarrow> hash" where
  "SYSVAR_PROGRAM_ID E = sha3_512 E (str_bytes ''sysvar_program'')"

definition LOADER_PROGRAM_ID :: "env \<Rightarrow> hash" where
  "LOADER_PROGRAM_ID E = sha3_512 E (str_bytes ''loader_program'')"

definition TOKEN_PROGRAM_ID :: "env \<Rightarrow> hash" where
  "TOKEN_PROGRAM_ID E = sha3_512 E (str_bytes ''token_program'')"

section \<open>A concrete environment\<close>

text \<open>
  The codecs of \<open>Borsh_Formats\<close>, a polynomial hash in place of SHA3, a signature that repeats key
  and message, and an engine that rejects every module: enough to evaluate the model on examples.
\<close>

definition sample_hash :: "bytes \<Rightarrow> hash" where
  "sample_hash bs = foldl (\<lambda>h b. h * 256 + ucast b) 1 bs"

definition sample_env :: env where
  "sample_env =
     \<lparr>sha3_512 = sample_hash,
      dilithium_verify = (\<lambda>pk m sig. sig = pk @ m),
      hash_display = (\<lambda>h. show_nat (unat h)),
      message_fmt = message_codec,
      system_ix_fmt = system_instruction_codec,
      stake_ix_fmt = stake_instruction_codec,
      stake_state_fmt = stake_state_codec,
      vote_ix_fmt = vote_instruction_codec,
      vote_state_fmt = vote_state_codec,
      token_ix_fmt = token_instruction_codec,
      mint_fmt = mint_codec,
      token_account_fmt = token_account_codec,
      loader_ix_fmt = loader_instruction_codec,
      loader_state_fmt = loader_state_codec,
      compute_budget_ix_fmt = compute_budget_instruction_codec,
      wasm_validate = (\<lambda>_. Inl ''no modules''),
      wasm_execute = (\<lambda>_ _ _ accs _ _ _ cu. (Inl ''no modules'', accs, cu))\<rparr>"

named_theorems codec_simps \<open>definitions that evaluate the concrete codecs\<close>

lemmas [codec_simps] =
  try_from_slice_def deserialize_def enum_codec_def iso_codec_def prod_codec_def vec_codec_def
  option_codec_def unit_codec_def bool_codec_def u8_codec_def u32_codec_def u64_codec_def le_codec_def
  hash_codec_def
  authorized_codec_def lockup_codec_def stake_meta_codec_def delegation_codec_def stake_codec_def
  stake_state_codec_def stake_authorize_codec_def lockup_args_codec_def stake_instruction_codec_def
  system_instruction_codec_def vlockout_codec_def block_timestamp_codec_def vote_init_codec_def
  vote_codec_def vote_state_codec_def vote_authorize_codec_def vote_instruction_codec_def
  account_state_codec_def mint_codec_def token_account_codec_def token_instruction_codec_def
  loader_state_codec_def loader_instruction_codec_def compute_budget_instruction_codec_def
  compiled_instruction_codec_def message_codec_def sample_env_def sample_hash_def str_bytes_def

end
