(* ===== verification/Message.thy ===== *)
theory Message
  imports Chain_Types "HOL-Library.Multiset"
begin

text \<open>
  \<open>core/src/message.rs\<close>: compiling a list of instructions into a message (\<open>Message::new\<close>) and the
  index tests \<open>is_signer\<close> and \<open>is_writable\<close> that the runtime uses on it. The compiler collects the
  keys with their flags, sorts them into the four classes of the wire layout and rewrites the
  instructions to indices; the theorems say that the two index tests read back exactly the collected
  flags and that every index denotes the key it was compiled from.
\<close>

section \<open>Collecting the accounts\<close>

text \<open>\<open>iter().position(|k| k == key)\<close>\<close>

fun position :: "'a list \<Rightarrow> 'a \<Rightarrow> nat option" where
  "position [] k = None"
| "position (x # xs) k = (if x = k then Some 0 else map_option Suc (position xs k))"

record key_table =
  kt_keys :: "hash list"
  kt_signer :: "bool list"
  kt_writable :: "bool list"

definition add_program :: "hash \<Rightarrow> key_table \<Rightarrow> key_table" where
  "add_program pid t = (case position (kt_keys t) pid of
     Some pos \<Rightarrow> if pos \<noteq> 0 then t\<lparr>kt_writable := (kt_writable t)[pos := False]\<rparr> else t
   | None \<Rightarrow> \<lparr>kt_keys = kt_keys t @ [pid], kt_signer = kt_signer t @ [False],
             kt_writable = kt_writable t @ [False]\<rparr>)"

definition add_meta :: "account_meta \<Rightarrow> key_table \<Rightarrow> key_table" where
  "add_meta m t = (case position (kt_keys t) (am_pubkey m) of
     Some pos \<Rightarrow> t\<lparr>kt_signer := (kt_signer t)[pos := kt_signer t ! pos \<or> am_is_signer m],
                   kt_writable := (kt_writable t)[pos := kt_writable t ! pos \<or> am_is_writable m]\<rparr>
   | None \<Rightarrow> \<lparr>kt_keys = kt_keys t @ [am_pubkey m], kt_signer = kt_signer t @ [am_is_signer m],
             kt_writable = kt_writable t @ [am_is_writable m]\<rparr>)"

definition add_instruction :: "instruction \<Rightarrow> key_table \<Rightarrow> key_table" where
  "add_instruction ix t = fold add_meta (ix_accounts ix) (add_program (ix_program_id ix) t)"

definition collect_keys :: "instruction list \<Rightarrow> hash \<Rightarrow> key_table" where
  "collect_keys ixs payer = fold add_instruction ixs
     \<lparr>kt_keys = [payer], kt_signer = [True], kt_writable = [True]\<rparr>"

section \<open>Sorting and compiling\<close>

definition key_order :: "key_table \<Rightarrow> nat \<Rightarrow> nat" where
  "key_order t i = (case (kt_signer t ! i, kt_writable t ! i) of
     (True, True) \<Rightarrow> 0 | (True, False) \<Rightarrow> 1 | (False, True) \<Rightarrow> 2 | (False, False) \<Rightarrow> 3)"

text \<open>\<open>indices[1..].sort_by(..)\<close>: a stable sort of all positions but the payer's.\<close>

definition sorted_indices :: "key_table \<Rightarrow> nat list" where
  "sorted_indices t = 0 # sort_key (key_order t) [1..<length (kt_keys t)]"

definition old_to_new :: "nat list \<Rightarrow> nat list" where
  "old_to_new ixs = fold (\<lambda>(new, old) v. v[old := new]) (enumerate 0 ixs) (replicate (length ixs) 0)"

text \<open>\<open>position(..).unwrap()\<close> followed by \<open>old_to_new[..] as u8\<close>; \<open>None\<close> is the panic of \<open>unwrap\<close>.\<close>

definition compile_key :: "key_table \<Rightarrow> nat list \<Rightarrow> hash \<Rightarrow> u8 option" where
  "compile_key t o2n k = (case position (kt_keys t) k of None \<Rightarrow> None | Some i \<Rightarrow> Some (of_nat (o2n ! i)))"

definition compile_instruction :: "key_table \<Rightarrow> nat list \<Rightarrow> instruction \<Rightarrow> compiled_instruction option" where
  "compile_instruction t o2n ix = (case compile_key t o2n (ix_program_id ix) of
     None \<Rightarrow> None
   | Some p \<Rightarrow> (case those (map (\<lambda>m. compile_key t o2n (am_pubkey m)) (ix_accounts ix)) of
       None \<Rightarrow> None
     | Some accs \<Rightarrow> Some \<lparr>ci_program_id_index = p, ci_accounts = accs, ci_data = ix_data ix\<rparr>))"

definition message_new :: "instruction list \<Rightarrow> hash \<Rightarrow> (core_error, message) outcome" where
  "message_new ixs payer =
    (if ixs = [] then Err (CE_InvalidMessage ''no instructions provided'')
     else
       let t = collect_keys ixs payer;
           flags = zip (kt_signer t) (kt_writable t);
           indices = sorted_indices t;
           o2n = old_to_new indices
       in case those (map (compile_instruction t o2n) ixs) of
            None \<Rightarrow> Panic
          | Some cis \<Rightarrow> Ok
              \<lparr>num_required_signatures = of_nat (length (filter (\<lambda>s. s) (kt_signer t))),
               num_readonly_signed = of_nat (length (filter (\<lambda>(s, w). s \<and> \<not> w) flags)),
               num_readonly_unsigned = of_nat (length (filter (\<lambda>(s, w). \<not> s \<and> \<not> w) flags)),
               account_keys = map (\<lambda>i. kt_keys t ! i) indices,
               recent_blockhash = hash_zero,
               instructions = cis\<rparr>)"

section \<open>Index tests\<close>

definition message_program_id :: "message \<Rightarrow> nat \<Rightarrow> hash option" where
  "message_program_id m i =
    (if i < length (instructions m)
     then (let p = unat (ci_program_id_index (instructions m ! i))
           in if p < length (account_keys m) then Some (account_keys m ! p) else None)
     else None)"

definition is_signer :: "message \<Rightarrow> nat \<Rightarrow> bool" where
  "is_signer m i \<longleftrightarrow> i < unat (num_required_signatures m)"

text \<open>The subtractions are on \<open>usize\<close>: in the release profile they wrap.\<close>

definition is_writable :: "message \<Rightarrow> nat \<Rightarrow> bool" where
  "is_writable m i =
    (if length (account_keys m) \<le> i then False
     else if is_signer m i then
       (let readonly_signed_start = ucast (num_required_signatures m) - ucast (num_readonly_signed m) :: u64
        in i < unat readonly_signed_start)
     else
       (let unsigned_start = ucast (num_required_signatures m) :: u64;
            unsigned_writable_count = of_nat (length (account_keys m))
              - ucast (num_required_signatures m) - ucast (num_readonly_unsigned m) :: u64
        in i < unat (unsigned_start + unsigned_writable_count)))"

text \<open>A header whose counters describe the key list; the wire format does not enforce it.\<close>

definition header_ok :: "message \<Rightarrow> bool" where
  "header_ok m \<longleftrightarrow>
     unat (num_readonly_signed m) \<le> unat (num_required_signatures m) \<and>
     unat (num_required_signatures m) + unat (num_readonly_unsigned m) \<le> length (account_keys m)"

lemma unat_ucast_u8_u64 [simp]: "unat (ucast (w :: u8) :: u64) = unat w"
proof -
  have "unat w < 2 ^ LENGTH(64)" using unat_bound [of w] by simp
  then show ?thesis by (simp add: unsigned_ucast_eq take_bit_nat_eq_self)
qed

lemma is_writable_header_ok:
  assumes "header_ok m" and "length (account_keys m) < 2 ^ 64"
  shows "is_writable m i \<longleftrightarrow> i < length (account_keys m) \<and>
     (if is_signer m i then i < unat (num_required_signatures m) - unat (num_readonly_signed m)
      else i < length (account_keys m) - unat (num_readonly_unsigned m))"
proof -
  let ?r = "ucast (num_required_signatures m) :: u64"
  let ?s = "ucast (num_readonly_signed m) :: u64"
  let ?u = "ucast (num_readonly_unsigned m) :: u64"
  let ?n = "of_nat (length (account_keys m)) :: u64"
  from assms(1) have a: "unat (?r - ?s) = unat (num_required_signatures m) - unat (num_readonly_signed m)"
    by (simp add: header_ok_def unat_sub_le word_le_nat_alt)
  have "?r + (?n - ?r - ?u) = ?n - ?u" by simp
  moreover have n: "unat ?n = length (account_keys m)"
    using assms(2) by (simp add: unat_of_nat_small)
  moreover have "?u \<le> ?n"
    using assms(1) n by (simp add: header_ok_def word_le_nat_alt)
  ultimately have b: "unat (?r + (?n - ?r - ?u)) = length (account_keys m) - unat (num_readonly_unsigned m)"
    by (simp add: unat_sub_le)
  show ?thesis
    unfolding is_writable_def Let_def a b by auto
qed

section \<open>What the collected table holds\<close>

lemma position_Some: "position xs k = Some i \<Longrightarrow> i < length xs \<and> xs ! i = k"
  by (induction xs arbitrary: i) (auto split: if_splits)

lemma position_None: "position xs k = None \<longleftrightarrow> k \<notin> set xs"
  by (induction xs) auto

lemma position_nth: "distinct xs \<Longrightarrow> i < length xs \<Longrightarrow> position xs (xs ! i) = Some i"
proof (induction xs arbitrary: i)
  case Nil
  then show ?case by simp
next
  case (Cons x xs)
  then show ?case by (cases i) auto
qed

text \<open>
  The table after the metas \<open>ms\<close>: well formed, the payer first, the signer flags exactly those the
  metas ask for, and no writable flag that neither a meta nor the payer's role gives.
\<close>

definition table_ok :: "hash \<Rightarrow> account_meta list \<Rightarrow> key_table \<Rightarrow> bool" where
  "table_ok payer ms t \<longleftrightarrow>
     distinct (kt_keys t) \<and> kt_keys t \<noteq> [] \<and> kt_keys t ! 0 = payer \<and>
     length (kt_signer t) = length (kt_keys t) \<and> length (kt_writable t) = length (kt_keys t) \<and>
     kt_writable t ! 0 \<and> am_pubkey ` set ms \<subseteq> set (kt_keys t) \<and>
     (\<forall>i < length (kt_keys t). kt_signer t ! i \<longleftrightarrow>
        kt_keys t ! i = payer \<or> (\<exists>m \<in> set ms. am_pubkey m = kt_keys t ! i \<and> am_is_signer m)) \<and>
     (\<forall>i < length (kt_keys t). kt_writable t ! i \<longrightarrow>
        kt_keys t ! i = payer \<or> (\<exists>m \<in> set ms. am_pubkey m = kt_keys t ! i \<and> am_is_writable m))"

lemma table_ok_init:
  "table_ok payer [] \<lparr>kt_keys = [payer], kt_signer = [True], kt_writable = [True]\<rparr>"
  by (simp add: table_ok_def)

lemma table_ok_add_program:
  assumes "table_ok payer ms t"
  shows "table_ok payer ms (add_program pid t) \<and> pid \<in> set (kt_keys (add_program pid t)) \<and>
     set (kt_keys t) \<subseteq> set (kt_keys (add_program pid t))"
proof (cases "position (kt_keys t) pid")
  case None
  then have "pid \<notin> set (kt_keys t)" by (simp add: position_None)
  with assms None show ?thesis
    by (auto simp: table_ok_def add_program_def nth_append less_Suc_eq)
next
  case (Some pos)
  with position_Some [OF Some] assms show ?thesis
    by (auto simp: table_ok_def add_program_def nth_list_update in_set_conv_nth)
qed

lemma table_ok_add_meta:
  assumes t: "table_ok payer ms t"
  shows "table_ok payer (ms @ [m]) (add_meta m t) \<and>
     set (kt_keys t) \<subseteq> set (kt_keys (add_meta m t))"
proof (cases "position (kt_keys t) (am_pubkey m)")
  case None
  then have "am_pubkey m \<notin> set (kt_keys t)" by (simp add: position_None)
  with t None show ?thesis
    by (auto simp: table_ok_def add_meta_def nth_append less_Suc_eq)
next
  case (Some pos)
  from position_Some [OF this] have pos: "pos < length (kt_keys t)" "kt_keys t ! pos = am_pubkey m"
    by auto
  have at: "am_pubkey m = kt_keys t ! i \<longleftrightarrow> i = pos" if "i < length (kt_keys t)" for i
    using t pos that nth_eq_iff_index_eq [of "kt_keys t" i pos] by (auto simp: table_ok_def)
  have len: "length (kt_signer t) = length (kt_keys t)" "length (kt_writable t) = length (kt_keys t)"
    using t by (simp_all add: table_ok_def)
  have flags: "kt_signer (add_meta m t) ! i \<longleftrightarrow> kt_signer t ! i \<or> (am_pubkey m = kt_keys t ! i \<and> am_is_signer m)"
    "kt_writable (add_meta m t) ! i \<longleftrightarrow> kt_writable t ! i \<or> (am_pubkey m = kt_keys t ! i \<and> am_is_writable m)"
    if "i < length (kt_keys t)" for i
    using len pos(1) that Some by (auto simp: add_meta_def nth_list_update at)
  have keys: "kt_keys (add_meta m t) = kt_keys t"
    "length (kt_signer (add_meta m t)) = length (kt_signer t)"
    "length (kt_writable (add_meta m t)) = length (kt_writable t)"
    using Some by (simp_all add: add_meta_def)
  have "am_pubkey m \<in> set (kt_keys t)" using pos by (metis nth_mem)
  with t show ?thesis
    unfolding table_ok_def keys by (auto simp: flags)
qed

lemma table_ok_fold_meta:
  "table_ok payer ms t \<Longrightarrow> table_ok payer (ms @ xs) (fold add_meta xs t) \<and>
     set (kt_keys t) \<subseteq> set (kt_keys (fold add_meta xs t))"
proof (induction xs arbitrary: ms t)
  case Nil
  then show ?case by simp
next
  case (Cons m xs)
  from table_ok_add_meta [OF Cons.prems, of m] Cons.IH [of "ms @ [m]" "add_meta m t"]
  show ?case by auto
qed

lemma table_ok_collect:
  assumes "table_ok payer ms t"
  shows "table_ok payer (ms @ concat (map ix_accounts ixs)) (fold add_instruction ixs t) \<and>
     set (kt_keys t) \<union> ix_program_id ` set ixs \<subseteq> set (kt_keys (fold add_instruction ixs t))"
  using assms
proof (induction ixs arbitrary: ms t)
  case Nil
  then show ?case by simp
next
  case (Cons ix ixs)
  let ?t = "add_instruction ix t"
  from table_ok_add_program [OF Cons.prems, of "ix_program_id ix"]
    table_ok_fold_meta [of payer ms "add_program (ix_program_id ix) t" "ix_accounts ix"]
  have "table_ok payer (ms @ ix_accounts ix) ?t"
    and "insert (ix_program_id ix) (set (kt_keys t)) \<subseteq> set (kt_keys ?t)"
    by (auto simp: add_instruction_def)
  with Cons.IH [of "ms @ ix_accounts ix" ?t] show ?case by auto
qed

lemma table_ok_collect_keys:
  "table_ok payer (concat (map ix_accounts ixs)) (collect_keys ixs payer)"
  "ix \<in> set ixs \<Longrightarrow> ix_program_id ix \<in> set (kt_keys (collect_keys ixs payer))"
  "ix \<in> set ixs \<Longrightarrow> m \<in> set (ix_accounts ix) \<Longrightarrow> am_pubkey m \<in> set (kt_keys (collect_keys ixs payer))"
  using table_ok_collect [OF table_ok_init, of payer ixs]
  by (auto simp: collect_keys_def table_ok_def)

text \<open>Which keys end up writable: the flags are exactly those of a predicate on keys.\<close>

definition writable_as :: "hash \<Rightarrow> (hash \<Rightarrow> bool) \<Rightarrow> key_table \<Rightarrow> bool" where
  "writable_as payer P t \<longleftrightarrow> (\<forall>i < length (kt_keys t). kt_writable t ! i \<longleftrightarrow> kt_keys t ! i = payer \<or> P (kt_keys t ! i)) \<and>
     (\<forall>k. P k \<longrightarrow> k \<in> set (kt_keys t))"

lemma writable_add_program:
  assumes t: "table_ok payer ms t" and w: "writable_as payer P t"
  shows "writable_as payer (\<lambda>k. P k \<and> k \<noteq> pid) (add_program pid t)"
proof (cases "position (kt_keys t) pid")
  case None
  then have "pid \<notin> set (kt_keys t)" by (simp add: position_None)
  with None t w show ?thesis
    by (auto simp: table_ok_def writable_as_def add_program_def nth_append less_Suc_eq)
next
  case (Some pos)
  note p = position_Some [OF Some]
  have at: "kt_keys t ! i = pid \<longleftrightarrow> i = pos" if "i < length (kt_keys t)" for i
    using t p that nth_eq_iff_index_eq [of "kt_keys t" i pos] by (auto simp: table_ok_def)
  have "pos = 0 \<longleftrightarrow> pid = payer" using t p at [of 0] by (auto simp: table_ok_def)
  then show ?thesis
    using Some t w p at by (auto simp: table_ok_def writable_as_def add_program_def nth_list_update)
qed

lemma writable_add_meta:
  assumes t: "table_ok payer ms t" and w: "writable_as payer P t"
  shows "writable_as payer (\<lambda>k. P k \<or> am_pubkey m = k \<and> am_is_writable m) (add_meta m t)"
proof (cases "position (kt_keys t) (am_pubkey m)")
  case None
  then have "am_pubkey m \<notin> set (kt_keys t)" by (simp add: position_None)
  with None t w show ?thesis
    by (auto simp: table_ok_def writable_as_def add_meta_def nth_append less_Suc_eq)
next
  case (Some pos)
  note p = position_Some [OF Some]
  have at: "kt_keys t ! i = am_pubkey m \<longleftrightarrow> i = pos" if "i < length (kt_keys t)" for i
    using t p that nth_eq_iff_index_eq [of "kt_keys t" i pos] by (auto simp: table_ok_def)
  have k: "am_pubkey m \<in> set (kt_keys t)" using p by (metis nth_mem)
  have f: "kt_writable (add_meta m t) ! i \<longleftrightarrow> kt_writable t ! i \<or> i = pos \<and> am_is_writable m" if "i < length (kt_keys t)" for i
    using Some t p that by (auto simp: table_ok_def add_meta_def nth_list_update)
  have "kt_keys (add_meta m t) = kt_keys t" using Some by (simp add: add_meta_def)
  then show ?thesis using w f at k unfolding writable_as_def by metis
qed

lemma writable_fold_meta:
  "table_ok payer ms t \<Longrightarrow> writable_as payer P t \<Longrightarrow>
    writable_as payer (\<lambda>k. P k \<or> (\<exists>a \<in> set xs. am_pubkey a = k \<and> am_is_writable a)) (fold add_meta xs t)"
proof (induction xs arbitrary: ms t P)
  case (Cons m xs)
  have "table_ok payer (ms @ [m]) (add_meta m t)" using table_ok_add_meta [OF Cons.prems(1)] by blast
  from Cons.IH [OF this writable_add_meta [OF Cons.prems, of m]] show ?case by (simp add: disj_assoc)
qed simp

text \<open>The last word on a key: some instruction asks for it writable and no later instruction runs it as a program.\<close>

definition granted :: "instruction list \<Rightarrow> hash \<Rightarrow> bool" where
  "granted ixs k \<longleftrightarrow> (\<exists>ys ix zs. ixs = ys @ ix # zs \<and> (\<exists>a \<in> set (ix_accounts ix). am_pubkey a = k \<and> am_is_writable a) \<and>
     k \<notin> ix_program_id ` set zs)"

lemma granted_Nil: "\<not> granted [] k"
  by (simp add: granted_def)

lemma granted_Cons:
  "granted (ix # ixs) k \<longleftrightarrow> (\<exists>a \<in> set (ix_accounts ix). am_pubkey a = k \<and> am_is_writable a) \<and> k \<notin> ix_program_id ` set ixs \<or> granted ixs k"
  unfolding granted_def by (subst Cons_eq_append_conv) blast

lemma writable_collect:
  "table_ok payer ms t \<Longrightarrow> writable_as payer P t \<Longrightarrow>
    writable_as payer (\<lambda>k. P k \<and> k \<notin> ix_program_id ` set ixs \<or> granted ixs k) (fold add_instruction ixs t)"
proof (induction ixs arbitrary: ms t P)
  case (Cons ix ixs)
  let ?t = "add_program (ix_program_id ix) t"
  have t: "table_ok payer ms ?t" using table_ok_add_program [OF Cons.prems(1)] by blast
  have "table_ok payer (ms @ ix_accounts ix) (add_instruction ix t)" using table_ok_fold_meta [OF t] by (simp add: add_instruction_def)
  moreover have "writable_as payer (\<lambda>k. P k \<and> k \<noteq> ix_program_id ix \<or> (\<exists>a \<in> set (ix_accounts ix). am_pubkey a = k \<and> am_is_writable a)) (add_instruction ix t)"
    using writable_fold_meta [OF t writable_add_program [OF Cons.prems]] by (simp add: add_instruction_def)
  ultimately have "writable_as payer (\<lambda>k. (P k \<and> k \<noteq> ix_program_id ix \<or> (\<exists>a \<in> set (ix_accounts ix). am_pubkey a = k \<and> am_is_writable a)) \<and>
      k \<notin> ix_program_id ` set ixs \<or> granted ixs k) (fold add_instruction (ix # ixs) t)"
    using Cons.IH by simp
  moreover have "(\<lambda>k. (P k \<and> k \<noteq> ix_program_id ix \<or> (\<exists>a \<in> set (ix_accounts ix). am_pubkey a = k \<and> am_is_writable a)) \<and>
      k \<notin> ix_program_id ` set ixs \<or> granted ixs k) = (\<lambda>k. P k \<and> k \<notin> ix_program_id ` set (ix # ixs) \<or> granted (ix # ixs) k)"
    by (rule ext) (auto simp: granted_Cons)
  ultimately show ?case by simp
qed (simp add: granted_Nil)

lemma writable_collect_keys:
  assumes "i < length (kt_keys (collect_keys ixs payer))"
  shows "kt_writable (collect_keys ixs payer) ! i \<longleftrightarrow>
    kt_keys (collect_keys ixs payer) ! i = payer \<or> granted ixs (kt_keys (collect_keys ixs payer) ! i)"
proof -
  have "writable_as payer (\<lambda>k. False) \<lparr>kt_keys = [payer], kt_signer = [True], kt_writable = [True]\<rparr>" by (simp add: writable_as_def)
  from writable_collect [OF table_ok_init this, of ixs] assms show ?thesis
    by (simp add: collect_keys_def writable_as_def)
qed

lemma collected_keys:
  "set (kt_keys (collect_keys ixs payer)) = insert payer (ix_program_id ` set ixs \<union> am_pubkey ` (\<Union>ix \<in> set ixs. set (ix_accounts ix)))"
proof -
  have p: "set (kt_keys (add_program k t)) = insert k (set (kt_keys t))" for k t
    using position_None [of "kt_keys t" k] by (auto simp: add_program_def split: option.splits)
  have m: "set (kt_keys (add_meta a t)) = insert (am_pubkey a) (set (kt_keys t))" for a t
    using position_None [of "kt_keys t" "am_pubkey a"] by (auto simp: add_meta_def split: option.splits)
  have ms: "set (kt_keys (fold add_meta as t)) = am_pubkey ` set as \<union> set (kt_keys t)" for as t
    by (induction as arbitrary: t) (auto simp: m)
  have "set (kt_keys (fold add_instruction ixs t)) = ix_program_id ` set ixs \<union> am_pubkey ` (\<Union>ix \<in> set ixs. set (ix_accounts ix)) \<union> set (kt_keys t)" for t
    by (induction ixs arbitrary: t) (auto simp: add_instruction_def p ms)
  then show ?thesis by (simp add: collect_keys_def)
qed

section \<open>The sorted layout\<close>

lemma sorted_prefix_le:
  fixes xs :: "nat list"
  shows "sorted xs \<Longrightarrow> j < length xs \<Longrightarrow> xs ! j \<le> c \<longleftrightarrow> j < length (filter (\<lambda>x. x \<le> c) xs)"
proof (induction xs arbitrary: j)
  case Nil
  then show ?case by simp
next
  case (Cons x xs)
  show ?case
  proof (cases j)
    case 0
    then show ?thesis using Cons.prems by (auto simp: filter_empty_conv)
  next
    case (Suc k)
    show ?thesis
    proof (cases "x \<le> c")
      case True
      with Suc Cons show ?thesis by simp
    next
      case False
      with Cons.prems have "filter (\<lambda>y. y \<le> c) xs = []" by (auto simp: filter_empty_conv)
      moreover have "x \<le> xs ! k" using Cons.prems Suc by simp
      ultimately show ?thesis using False Suc by simp
    qed
  qed
qed

lemma sort_key_min_Cons: "(\<And>y. y \<in> set xs \<Longrightarrow> f x \<le> f y) \<Longrightarrow> sort_key f (x # xs) = x # sort_key f xs"
  by (simp add: insort_is_Cons)

lemma filter_by_index: "length (filter P xs) = length (filter (\<lambda>i. P (xs ! i)) [0..<length xs])"
proof -
  have "filter P xs = filter P (map (nth xs) [0..<length xs])" by (simp add: map_nth)
  then show ?thesis by (simp add: filter_map o_def)
qed

lemma old_to_new_fold_other:
  "old \<notin> set ixs \<Longrightarrow> fold (\<lambda>(new, old) v. v[old := new]) (enumerate k ixs) v ! old = v ! old"
  by (induction ixs arbitrary: k v) auto

lemma old_to_new_fold:
  "distinct ixs \<Longrightarrow> set ixs \<subseteq> {..<length v} \<Longrightarrow> j < length ixs \<Longrightarrow>
   fold (\<lambda>(new, old) v. v[old := new]) (enumerate k ixs) v ! (ixs ! j) = k + j"
proof (induction ixs arbitrary: k v j)
  case Nil
  then show ?case by simp
next
  case (Cons x ixs)
  then show ?case
    by (cases j) (auto simp: old_to_new_fold_other)
qed

lemma sorted_indices_facts:
  assumes "table_ok payer ms t"
  shows sorted_indices_sort: "sorted_indices t = sort_key (key_order t) [0..<length (kt_keys t)]"
    and sorted_indices_mset: "mset (sorted_indices t) = mset [0..<length (kt_keys t)]"
proof -
  have "key_order t 0 = 0" using assms by (auto simp: table_ok_def key_order_def)
  moreover have "[0..<length (kt_keys t)] = 0 # [1..<length (kt_keys t)]"
    using assms by (simp add: table_ok_def upt_conv_Cons)
  ultimately show "sorted_indices t = sort_key (key_order t) [0..<length (kt_keys t)]"
    by (simp add: sorted_indices_def sort_key_min_Cons del: sort_key_simps)
  then show "mset (sorted_indices t) = mset [0..<length (kt_keys t)]" by simp
qed

lemma sorted_indices_perm:
  assumes "table_ok payer ms t"
  shows "distinct (sorted_indices t)" "set (sorted_indices t) = {..<length (kt_keys t)}"
    "length (sorted_indices t) = length (kt_keys t)"
proof -
  note m = sorted_indices_mset [OF assms]
  from m show "set (sorted_indices t) = {..<length (kt_keys t)}"
    by (metis atLeast0LessThan set_mset_mset set_upt)
  from m show "length (sorted_indices t) = length (kt_keys t)"
    by (metis diff_zero length_upt size_mset)
  show "distinct (sorted_indices t)"
    using mset_eq_imp_distinct_iff [OF m] by simp
qed

lemma layout_position:
  assumes t: "table_ok payer ms t" and j: "j < length (kt_keys t)"
  shows "key_order t (sorted_indices t ! j) \<le> c \<longleftrightarrow>
     j < length (filter (\<lambda>i. key_order t i \<le> c) [0..<length (kt_keys t)])"
proof -
  let ?s = "map (key_order t) (sorted_indices t)"
  have "sorted ?s" by (simp add: sorted_indices_sort [OF t])
  moreover have "j < length ?s" using j sorted_indices_perm(3) [OF t] by simp
  ultimately have "?s ! j \<le> c \<longleftrightarrow> j < length (filter (\<lambda>x. x \<le> c) ?s)"
    by (rule sorted_prefix_le)
  moreover have "length (filter (\<lambda>x. x \<le> c) ?s) = length (filter (\<lambda>i. key_order t i \<le> c) [0..<length (kt_keys t)])"
  proof -
    have "mset (filter (\<lambda>i. key_order t i \<le> c) (sorted_indices t)) =
        mset (filter (\<lambda>i. key_order t i \<le> c) [0..<length (kt_keys t)])"
      by (simp only: mset_filter sorted_indices_mset [OF t])
    from mset_eq_length [OF this] show ?thesis by (simp add: filter_map o_def)
  qed
  ultimately show ?thesis using \<open>j < length ?s\<close> by simp
qed

lemma key_order_le:
  "key_order t i \<le> 1 \<longleftrightarrow> kt_signer t ! i"
  "key_order t i \<le> 0 \<longleftrightarrow> kt_signer t ! i \<and> kt_writable t ! i"
  "key_order t i \<le> 2 \<longleftrightarrow> kt_signer t ! i \<or> kt_writable t ! i"
  by (auto simp: key_order_def split: bool.splits)

text \<open>The three counters of the header are the sizes of the classes of the layout.\<close>

lemma counts_by_order:
  assumes t: "table_ok payer ms t"
  defines "n \<equiv> length (kt_keys t)" and "flags \<equiv> zip (kt_signer t) (kt_writable t)"
  shows "length (filter (\<lambda>s. s) (kt_signer t)) = length (filter (\<lambda>i. key_order t i \<le> 1) [0..<n])"
    and "length (filter (\<lambda>(s, w). s \<and> \<not> w) flags) + length (filter (\<lambda>i. key_order t i \<le> 0) [0..<n])
       = length (filter (\<lambda>i. key_order t i \<le> 1) [0..<n])"
    and "length (filter (\<lambda>(s, w). \<not> s \<and> \<not> w) flags) + length (filter (\<lambda>i. key_order t i \<le> 2) [0..<n]) = n"
proof -
  have len: "length (kt_signer t) = n" "length flags = n"
    using t by (simp_all add: table_ok_def n_def flags_def)
  have fl: "flags ! i = (kt_signer t ! i, kt_writable t ! i)" if "i < n" for i
    using t that by (simp add: flags_def n_def table_ok_def)
  have cnt: "length (filter Q flags) = length (filter (\<lambda>i. Q (kt_signer t ! i, kt_writable t ! i)) [0..<n])" for Q
    unfolding filter_by_index [of Q flags] len by (rule arg_cong [where f = length], rule filter_cong) (simp_all add: fl)
  show "length (filter (\<lambda>s. s) (kt_signer t)) = length (filter (\<lambda>i. key_order t i \<le> 1) [0..<n])"
    unfolding key_order_le using filter_by_index [of "\<lambda>s. s" "kt_signer t"] len by simp
  show "length (filter (\<lambda>(s, w). s \<and> \<not> w) flags) + length (filter (\<lambda>i. key_order t i \<le> 0) [0..<n])
       = length (filter (\<lambda>i. key_order t i \<le> 1) [0..<n])"
    unfolding cnt key_order_le by (induction n) auto
  show "length (filter (\<lambda>(s, w). \<not> s \<and> \<not> w) flags) + length (filter (\<lambda>i. key_order t i \<le> 2) [0..<n]) = n"
    unfolding cnt key_order_le by (induction n) auto
qed

section \<open>Correctness of the compiler\<close>

lemma those_map_Some:
  "(\<And>x. x \<in> set xs \<Longrightarrow> f x = Some (g x)) \<Longrightarrow> those (map f xs) = Some (map g xs)"
  by (induction xs) auto

lemma key_compiles:
  assumes t: "table_ok payer ms t" and k: "k \<in> set (kt_keys t)" and n: "length (kt_keys t) \<le> 256"
  obtains b where "compile_key t (old_to_new (sorted_indices t)) k = Some b"
    and "map (\<lambda>i. kt_keys t ! i) (sorted_indices t) ! unat b = k"
proof -
  let ?ix = "sorted_indices t"
  note perm = sorted_indices_perm [OF t]
  from k obtain p where p: "position (kt_keys t) k = Some p"
    using position_None [of "kt_keys t" k] by (cases "position (kt_keys t) k") auto
  from position_Some [OF p] have pk: "p < length (kt_keys t)" "kt_keys t ! p = k" by auto
  then have "p \<in> set ?ix" by (simp add: perm(2))
  then obtain j where j: "j < length ?ix" "?ix ! j = p" by (auto simp: in_set_conv_nth)
  have "old_to_new ?ix ! p = j"
    using old_to_new_fold [of ?ix "replicate (length ?ix) 0" j 0] perm j by (auto simp: old_to_new_def)
  moreover have "unat (of_nat j :: u8) = j"
    by (rule unat_of_nat_small) (use j perm(3) n in simp)
  ultimately show thesis
    using that p pk j by (simp add: compile_key_def)
qed

text \<open>What a compiled instruction denotes in its message.\<close>

definition resolve_instruction :: "message \<Rightarrow> compiled_instruction \<Rightarrow> hash \<times> hash list \<times> bytes" where
  "resolve_instruction m ci =
     (account_keys m ! unat (ci_program_id_index ci),
      map (\<lambda>i. account_keys m ! unat i) (ci_accounts ci), ci_data ci)"

lemma instruction_compiles:
  assumes t: "table_ok payer ms t" and n: "length (kt_keys t) \<le> 256"
    and pid: "ix_program_id ix \<in> set (kt_keys t)"
    and accs: "\<And>m. m \<in> set (ix_accounts ix) \<Longrightarrow> am_pubkey m \<in> set (kt_keys t)"
    and msg: "account_keys m = map (\<lambda>i. kt_keys t ! i) (sorted_indices t)"
  shows "\<exists>ci. compile_instruction t (old_to_new (sorted_indices t)) ix = Some ci \<and>
     resolve_instruction m ci = (ix_program_id ix, map am_pubkey (ix_accounts ix), ix_data ix)"
proof -
  let ?c = "compile_key t (old_to_new (sorted_indices t))"
  have c: "?c k = Some (the (?c k)) \<and> account_keys m ! unat (the (?c k)) = k" if "k \<in> set (kt_keys t)" for k
    using key_compiles [OF t that n] msg by fastforce
  have "those (map (\<lambda>a. ?c (am_pubkey a)) (ix_accounts ix)) =
      Some (map (\<lambda>a. the (?c (am_pubkey a))) (ix_accounts ix))"
    by (rule those_map_Some) (use c accs in blast)
  moreover from c [OF pid] obtain p where "?c (ix_program_id ix) = Some p"
    "account_keys m ! unat p = ix_program_id ix" by auto
  ultimately show ?thesis
    using c accs by (auto simp: compile_instruction_def resolve_instruction_def)
qed

lemma message_new_shape:
  assumes "ixs \<noteq> []" and n: "length (kt_keys (collect_keys ixs payer)) \<le> 256"
  defines "t \<equiv> collect_keys ixs payer"
  obtains m where "message_new ixs payer = Ok m"
    and "account_keys m = map (\<lambda>i. kt_keys t ! i) (sorted_indices t)"
    and "num_required_signatures m = of_nat (length (filter (\<lambda>s. s) (kt_signer t)))"
    and "num_readonly_signed m = of_nat (length (filter (\<lambda>(s, w). s \<and> \<not> w) (zip (kt_signer t) (kt_writable t))))"
    and "num_readonly_unsigned m = of_nat (length (filter (\<lambda>(s, w). \<not> s \<and> \<not> w) (zip (kt_signer t) (kt_writable t))))"
    and "map (resolve_instruction m) (instructions m) =
       map (\<lambda>ix. (ix_program_id ix, map am_pubkey (ix_accounts ix), ix_data ix)) ixs"
proof -
  let ?c = "compile_instruction t (old_to_new (sorted_indices t))"
  let ?spec = "\<lambda>ix. (ix_program_id ix, map am_pubkey (ix_accounts ix), ix_data ix)"
  have ok: "\<exists>ci. ?c ix = Some ci \<and> resolve_instruction msg ci = ?spec ix"
    if "ix \<in> set ixs" and "account_keys msg = map (\<lambda>i. kt_keys t ! i) (sorted_indices t)" for ix and msg :: message
    using instruction_compiles [OF table_ok_collect_keys(1) n _ _ that(2) [unfolded t_def], of ix]
      table_ok_collect_keys(2,3) that(1) by (auto simp: t_def)
  obtain cis where cis: "those (map ?c ixs) = Some cis" "cis = map (\<lambda>ix. the (?c ix)) ixs"
    using those_map_Some [of ixs ?c "\<lambda>ix. the (?c ix)"] ok [of _ "undefined\<lparr>account_keys := map (\<lambda>i. kt_keys t ! i) (sorted_indices t)\<rparr>"]
    by fastforce
  define m where "m = \<lparr>num_required_signatures = of_nat (length (filter (\<lambda>s. s) (kt_signer t))),
       num_readonly_signed = of_nat (length (filter (\<lambda>(s, w). s \<and> \<not> w) (zip (kt_signer t) (kt_writable t)))),
       num_readonly_unsigned = of_nat (length (filter (\<lambda>(s, w). \<not> s \<and> \<not> w) (zip (kt_signer t) (kt_writable t)))),
       account_keys = map (\<lambda>i. kt_keys t ! i) (sorted_indices t), recent_blockhash = hash_zero,
       instructions = cis\<rparr>"
  have "message_new ixs payer = Ok m"
    using assms(1) cis(1) by (simp add: message_new_def Let_def t_def m_def)
  moreover have "resolve_instruction m (the (?c ix)) = ?spec ix" if "ix \<in> set ixs" for ix
    using ok [OF that, of m] by (auto simp: m_def)
  then have "map (resolve_instruction m) cis = map ?spec ixs"
    by (simp add: cis(2))
  ultimately show thesis using that [of m] by (simp add: m_def)
qed

text \<open>C12: without instructions there is no message, and compiling reports it. Otherwise, as long as the instructions
  and the payer name at most 256 distinct keys, compiling succeeds and loses nothing: the keys are distinct and every
  compiled instruction, read back through the key list of the message, is the instruction it came from.\<close>

theorem message_new_resolves:
  "message_new [] payer = Err (CE_InvalidMessage ''no instructions provided'') \<and>
   (ixs \<noteq> [] \<and> length (kt_keys (collect_keys ixs payer)) \<le> 256 \<longrightarrow>
     (\<exists>m. message_new ixs payer = Ok m \<and> distinct (account_keys m) \<and> set (account_keys m) = insert payer
        (ix_program_id ` set ixs \<union> am_pubkey ` (\<Union>ix \<in> set ixs. set (ix_accounts ix))) \<and>
      map (resolve_instruction m) (instructions m) =
        map (\<lambda>ix. (ix_program_id ix, map am_pubkey (ix_accounts ix), ix_data ix)) ixs))"
proof (intro conjI impI)
  assume a: "ixs \<noteq> [] \<and> length (kt_keys (collect_keys ixs payer)) \<le> 256"
  let ?t = "collect_keys ixs payer"
  note t = table_ok_collect_keys(1) [of payer ixs]
  obtain m where m: "message_new ixs payer = Ok m" "account_keys m = map (\<lambda>i. kt_keys ?t ! i) (sorted_indices ?t)"
    and r: "map (resolve_instruction m) (instructions m) =
       map (\<lambda>ix. (ix_program_id ix, map am_pubkey (ix_accounts ix), ix_data ix)) ixs"
    by (rule message_new_shape [OF conjunct1 [OF a] conjunct2 [OF a]])
  have "distinct (account_keys m)"
    unfolding m(2) distinct_map using t sorted_indices_perm(1,2) [OF t]
    by (auto simp: table_ok_def inj_on_def nth_eq_iff_index_eq)
  moreover have "set (account_keys m) = set (kt_keys ?t)"
    unfolding m(2) using sorted_indices_perm(2) [OF t] by (simp add: nth_image lessThan_atLeast0)
  ultimately show "\<exists>m. message_new ixs payer = Ok m \<and> distinct (account_keys m) \<and> set (account_keys m) = insert payer
        (ix_program_id ` set ixs \<union> am_pubkey ` (\<Union>ix \<in> set ixs. set (ix_accounts ix))) \<and>
      map (resolve_instruction m) (instructions m) =
        map (\<lambda>ix. (ix_program_id ix, map am_pubkey (ix_accounts ix), ix_data ix)) ixs"
    using m(1) r by (auto simp: collected_keys)
qed (simp add: message_new_def)


section \<open>Witnesses\<close>

definition sample_instructions :: "instruction list" where
  "sample_instructions =
     [\<lparr>ix_program_id = 50, ix_accounts = [account_meta_new 1 True, account_meta_new 7 False], ix_data = [1]\<rparr>,
      \<lparr>ix_program_id = 51, ix_accounts = [account_meta_new_readonly 9 True, account_meta_new_readonly 7 False], ix_data = []\<rparr>]"

lemma sample_instructions_keys:
  "kt_keys (collect_keys sample_instructions 1) = [1, 50, 7, 51, 9]" "sample_instructions \<noteq> []"
  by (simp_all add: sample_instructions_def collect_keys_def add_instruction_def add_program_def add_meta_def
      account_meta_new_def account_meta_new_readonly_def)

theorem message_new_resolves_witness:
  "\<exists>m. message_new sample_instructions 1 = Ok m \<and> distinct (account_keys m) \<and>
     map (resolve_instruction m) (instructions m) = [(50, [1, 7], [1]), (51, [9, 7], [])]"
proof -
  have small: "sample_instructions \<noteq> [] \<and> length (kt_keys (collect_keys sample_instructions 1)) \<le> 256"
    by (simp add: sample_instructions_keys)
  have "map (\<lambda>ix. (ix_program_id ix, map am_pubkey (ix_accounts ix), ix_data ix)) sample_instructions = [(50, [1, 7], [1]), (51, [9, 7], [])]"
    by (simp add: sample_instructions_def account_meta_new_def account_meta_new_readonly_def)
  with mp [OF conjunct2 [OF message_new_resolves] small] show ?thesis by metis
qed

lemma sample_granted: "granted sample_instructions 7" "\<not> granted sample_instructions 9"
  by (auto simp: sample_instructions_def granted_Cons granted_Nil account_meta_new_def account_meta_new_readonly_def)


end
