(* ===== verification/Chain_Params.thy ===== *)
theory Chain_Params
  imports Chain_Types
begin

text \<open>
  The pure calculators: fees (\<open>core/src/fee.rs\<close>), the epoch schedule (\<open>core/src/epoch.rs\<close>) and
  rent (\<open>rent-program/src/lib.rs\<close>). \<open>None\<close> is the panic of a division by zero. The \<open>f64\<close> variant
  \<open>Rent::due\<close> is not modelled; the consensus path uses \<open>due_epoch\<close>.
\<close>

section \<open>Fees\<close>

definition calculate_fee :: "u64 \<Rightarrow> u64 \<Rightarrow> u64" where
  "calculate_fee lamports_per_signature num_signatures =
     saturating_mul lamports_per_signature num_signatures"

definition DEFAULT_LAMPORTS_PER_SIGNATURE :: u64 where
  "DEFAULT_LAMPORTS_PER_SIGNATURE = 5000"

section \<open>Epoch schedule\<close>

definition epoch_schedule_new :: "u64 \<Rightarrow> epoch_schedule" where
  "epoch_schedule_new n = \<lparr>slots_per_epoch = n, leader_schedule_slot_offset = n, warmup = False,
     first_normal_epoch = 0, first_normal_slot = 0\<rparr>"

fun ilog2 :: "nat \<Rightarrow> nat" where
  "ilog2 n = (if n < 2 then 0 else Suc (ilog2 (n div 2)))"

declare ilog2.simps [simp del]

text \<open>\<open>1u64.checked_shl(e)\<close>\<close>

definition checked_shl1 :: "nat \<Rightarrow> u64 option" where
  "checked_shl1 e = (if e < 64 then Some (push_bit e 1) else None)"

definition get_epoch_and_slot_index :: "epoch_schedule \<Rightarrow> u64 \<Rightarrow> (u64 \<times> u64) option" where
  "get_epoch_and_slot_index es slot =
    (if slot < first_normal_slot es then
       (let epoch = (if slot = 0 then 0 else ilog2 (unat slot));
            epoch_len = (case checked_shl1 epoch of Some v \<Rightarrow> v | None \<Rightarrow> - 1);
            epoch_start = saturating_sub epoch_len 1
        in Some (of_nat epoch, saturating_sub slot epoch_start))
     else if slots_per_epoch es = 0 then None
     else
       (let normal_slot = slot - first_normal_slot es
        in Some (first_normal_epoch es + normal_slot div slots_per_epoch es,
                 normal_slot mod slots_per_epoch es)))"

definition get_epoch :: "epoch_schedule \<Rightarrow> u64 \<Rightarrow> u64 option" where
  "get_epoch es slot = map_option fst (get_epoch_and_slot_index es slot)"

text \<open>\<open>epoch as u32\<close> keeps the low 32 bits.\<close>

definition get_first_slot_in_epoch :: "epoch_schedule \<Rightarrow> u64 \<Rightarrow> u64" where
  "get_first_slot_in_epoch es epoch =
    (if epoch \<le> first_normal_epoch es then
       (if epoch = 0 then 0
        else (case checked_shl1 (unat (ucast epoch :: u32)) of Some v \<Rightarrow> v - 1 | None \<Rightarrow> - 1))
     else first_normal_slot es + (epoch - first_normal_epoch es) * slots_per_epoch es)"

definition get_last_slot_in_epoch :: "epoch_schedule \<Rightarrow> u64 \<Rightarrow> u64" where
  "get_last_slot_in_epoch es epoch = get_first_slot_in_epoch es (epoch + 1) - 1"

section \<open>Rent\<close>

definition minimum_balance :: "rent \<Rightarrow> nat \<Rightarrow> u64" where
  "minimum_balance r data_len =
     (let bytes = 128 + of_nat data_len
      in saturating_mul (saturating_mul bytes (lamports_per_byte_year r)) (exemption_threshold r))"

datatype rent_due = Exempt | Paying u64

definition due_epoch :: "rent \<Rightarrow> u64 \<Rightarrow> nat \<Rightarrow> u64 \<Rightarrow> u64 \<Rightarrow> rent_due option" where
  "due_epoch r lamports data_len ms_per_epoch ms_per_year =
    (if minimum_balance r data_len \<le> lamports then Some Exempt
     else if ms_per_year = 0 then None
     else
       (let bytes = 128 + of_nat data_len :: u128;
            rent = saturating_mul (saturating_mul bytes (ucast (lamports_per_byte_year r)))
                     (ucast ms_per_epoch) div ucast ms_per_year
        in Some (Paying (ucast rent))))"

section \<open>Theorems\<close>

lemma ilog2_bounds: "0 < n \<Longrightarrow> 2 ^ ilog2 n \<le> n \<and> n < 2 ^ Suc (ilog2 n)"
proof (induction n rule: ilog2.induct)
  case (1 n)
  show ?case
  proof (cases "n < 2")
    case True
    with "1.prems" show ?thesis by (auto simp: ilog2.simps [of n])
  next
    case False
    with "1.IH" have "2 ^ ilog2 (n div 2) \<le> n div 2" "n div 2 < 2 ^ Suc (ilog2 (n div 2))" by auto
    with False show ?thesis by (auto simp: ilog2.simps [of n])
  qed
qed

lemma ilog2_eq: "2 ^ k \<le> n \<Longrightarrow> n < 2 ^ Suc k \<Longrightarrow> ilog2 n = k"
proof -
  assume k: "2 ^ k \<le> n" "n < 2 ^ Suc k"
  then have "0 < n" by (metis gr0I not_less zero_less_power zero_less_numeral)
  from ilog2_bounds [OF this] k have "2 ^ k < (2::nat) ^ Suc (ilog2 n)" "2 ^ ilog2 n < (2::nat) ^ Suc k"
    by linarith+
  then have "k < Suc (ilog2 n)" "ilog2 n < Suc k"
    by (simp_all only: power_strict_increasing_iff [of "2::nat"] one_less_numeral_iff semiring_norm)
  then show ?thesis by simp
qed

text \<open>Without warm-up, a slot is the first slot of its epoch plus its index, and the index stays
  below the epoch length: the two functions of the schedule invert each other for every slot.\<close>

theorem epoch_roundtrip:
  assumes "n \<noteq> 0"
  shows "\<exists>e i. get_epoch_and_slot_index (epoch_schedule_new n) slot = Some (e, i) \<and> i < n \<and>
     get_first_slot_in_epoch (epoch_schedule_new n) e + i = slot"
proof -
  let ?es = "epoch_schedule_new n"
  have first: "get_first_slot_in_epoch ?es (slot div n) = (slot div n) * n"
    by (cases "slot div n = 0") (simp_all add: get_first_slot_in_epoch_def epoch_schedule_new_def)
  have "get_epoch_and_slot_index ?es slot = Some (slot div n, slot mod n)"
    using assms by (simp add: get_epoch_and_slot_index_def epoch_schedule_new_def Let_def)
  moreover have "slot mod n < n"
    using assms by (simp add: word_less_nat_alt unat_mod_distrib unat_gt_0)
  moreover have "(slot div n) * n + slot mod n = slot"
    by (rule div_mult_mod_eq)
  ultimately show ?thesis unfolding first [symmetric] by blast
qed

theorem epoch_roundtrip_witness:
  "(432000 :: u64) \<noteq> 0 \<and> (\<exists>e i. get_epoch_and_slot_index (epoch_schedule_new 432000) 1000000 = Some (e, i) \<and>
     i < 432000 \<and> get_first_slot_in_epoch (epoch_schedule_new 432000) e + i = 1000000)"
  using epoch_roundtrip [of 432000 1000000] by simp

text \<open>Inside the warm-up range the two functions disagree: the slot that
  \<open>get_first_slot_in_epoch\<close> calls the first of epoch \<open>k\<close> is put into epoch \<open>k - 1\<close> by
  \<open>get_epoch\<close>.\<close>

theorem warmup_epoch_mismatch:
  assumes "0 < k" and "k < 32" and "of_nat k \<le> first_normal_epoch es"
    and "of_nat (2 ^ k - 1) < first_normal_slot es"
  shows "get_first_slot_in_epoch es (of_nat k) = of_nat (2 ^ k - 1) \<and>
     get_epoch es (of_nat (2 ^ k - 1)) = Some (of_nat (k - 1))"
proof -
  have small: "(2::nat) ^ k \<le> 2 ^ 32"
    using assms(2) by (intro power_increasing) auto
  obtain j where j: "k = Suc j" using assms(1) gr0_implies_Suc by blast
  let ?s = "of_nat (2 ^ k - 1) :: u64"
  have us: "unat ?s = 2 ^ k - 1"
    by (rule unat_of_nat_small) (use small in simp)
  have "1 \<le> (2::nat) ^ j" by simp
  then have "0 < (2::nat) ^ k - 1" unfolding j power_Suc by linarith
  with us have s0: "?s \<noteq> 0" by (metis unat_0 less_irrefl)
  have "ilog2 (2 ^ k - 1) = j"
    by (rule ilog2_eq) (use \<open>1 \<le> 2 ^ j\<close> in \<open>unfold j power_Suc, linarith+\<close>)
  with us s0 assms(4) have 1: "get_epoch es ?s = Some (of_nat (k - 1))"
    by (simp add: get_epoch_def get_epoch_and_slot_index_def Let_def j)
  have k64: "unat (of_nat k :: u64) = k" by (rule unat_of_nat_small) (use assms(2) in simp)
  have "unat (ucast (of_nat k :: u64) :: u32) = k"
    using assms(2) by (simp add: unsigned_ucast_eq k64 take_bit_nat_eq_self)
  moreover have "(of_nat k :: u64) \<noteq> 0" using k64 assms(1) by (metis unat_0 less_irrefl)
  moreover have "(push_bit k 1 :: u64) - 1 = ?s"
    by (simp add: push_bit_eq_mult of_nat_diff)
  ultimately have 2: "get_first_slot_in_epoch es (of_nat k) = ?s"
    using assms(2,3) by (simp add: get_first_slot_in_epoch_def checked_shl1_def)
  from 1 2 show ?thesis by blast
qed

theorem warmup_epoch_mismatch_witness:
  "get_first_slot_in_epoch \<lparr>slots_per_epoch = 8192, leader_schedule_slot_offset = 8192, warmup = True,
       first_normal_epoch = 8, first_normal_slot = 8160\<rparr> 3 = 7 \<and>
   get_epoch \<lparr>slots_per_epoch = 8192, leader_schedule_slot_offset = 8192, warmup = True,
       first_normal_epoch = 8, first_normal_slot = 8160\<rparr> 7 = Some 2"
  using warmup_epoch_mismatch [of 3 "\<lparr>slots_per_epoch = 8192, leader_schedule_slot_offset = 8192, warmup = True,
       first_normal_epoch = 8, first_normal_slot = 8160\<rparr>"] by simp

end
