(* ===== verification/Tx_Context.thy ===== *)
theory Tx_Context
  imports Message Chain_Params Borsh
begin

text \<open>
  The state of one transaction and its operations: \<open>runtime/src/compute_meter.rs\<close>,
  \<open>runtime/src/transaction_context.rs\<close> and the helpers of \<open>runtime/src/processors/helpers.rs\<close>.
  Handlers run in this state. Two relations between the state before and after a handler are defined
  here and interpreted as \<open>run_relation\<close>: \<open>ctx_frame\<close> (what no native handler may change) and
  \<open>same_total\<close> (conservation of lamports).
\<close>

section \<open>Compute meter\<close>

record compute_meter =
  cm_remaining :: u64
  cm_limit :: u64

definition meter_new :: "u64 \<Rightarrow> compute_meter" where
  "meter_new limit = \<lparr>cm_remaining = limit, cm_limit = limit\<rparr>"

definition meter_consume :: "u64 \<Rightarrow> (compute_meter, runtime_error, unit) rm" where
  "meter_consume units m =
    (if cm_remaining m < units
     then (Err (InsufficientComputeUnits units (cm_remaining m)), m\<lparr>cm_remaining := 0\<rparr>)
     else (Ok (), m\<lparr>cm_remaining := cm_remaining m - units\<rparr>))"

definition meter_consumed :: "compute_meter \<Rightarrow> u64" where
  "meter_consumed m = cm_limit m - cm_remaining m"

definition meter_set_remaining :: "u64 \<Rightarrow> compute_meter \<Rightarrow> compute_meter" where
  "meter_set_remaining r m = m\<lparr>cm_remaining := min r (cm_remaining m)\<rparr>"

section \<open>Transaction context\<close>

record tx_ctx =
  ctx_accounts :: "(hash \<times> account) list"
  ctx_pre_accounts :: "(hash \<times> account) list"
  ctx_pre_balances :: "u64 list"
  ctx_message :: message
  ctx_slot :: u64
  ctx_meter :: compute_meter
  ctx_cpi_depth :: u32
  ctx_max_cpi_depth :: u32
  ctx_call_stack :: "hash list"
  ctx_return_data :: "(hash \<times> bytes) option"

type_synonym 'a rt = "(tx_ctx, runtime_error, 'a) rm"

definition ctx_new :: "(hash \<times> account) list \<Rightarrow> message \<Rightarrow> u64 \<Rightarrow> u64 \<Rightarrow> tx_ctx" where
  "ctx_new accounts message slot compute_limit =
     \<lparr>ctx_accounts = accounts, ctx_pre_accounts = accounts,
      ctx_pre_balances = map (\<lambda>(_, a). acc_lamports a) accounts,
      ctx_message = message, ctx_slot = slot, ctx_meter = meter_new compute_limit,
      ctx_cpi_depth = 0, ctx_max_cpi_depth = 4, ctx_call_stack = [], ctx_return_data = None\<rparr>"

record account_ref =
  ar_address :: hash
  ar_account :: account
  ar_is_signer :: bool
  ar_is_writable :: bool

definition get_account :: "nat \<Rightarrow> account_ref rt" where
  "get_account i s =
    (if i < length (ctx_accounts s)
     then (Ok \<lparr>ar_address = fst (ctx_accounts s ! i), ar_account = snd (ctx_accounts s ! i),
               ar_is_signer = is_signer (ctx_message s) i,
               ar_is_writable = is_writable (ctx_message s) i\<rparr>, s)
     else (Err (AccountNotFound i), s))"

text \<open>
  \<open>get_account_mut(i)?\<close> and the code that then works through the returned reference: the code is
  a run over the one account, whose writes stay in the context whatever its outcome.
\<close>

definition with_account_mut :: "nat \<Rightarrow> (account, runtime_error, 'a) rm \<Rightarrow> 'a rt" where
  "with_account_mut i f s =
    (if length (ctx_accounts s) \<le> i then (Err (AccountNotFound i), s)
     else if \<not> is_writable (ctx_message s) i then (Err (AccountNotWritable i), s)
     else
       (case f (snd (ctx_accounts s ! i)) of
          (r, a) \<Rightarrow> (r, s\<lparr>ctx_accounts := (ctx_accounts s)[i := (fst (ctx_accounts s ! i), a)]\<rparr>)))"

definition consume_compute :: "u64 \<Rightarrow> unit rt" where
  "consume_compute units s =
    (case meter_consume units (ctx_meter s) of (r, m) \<Rightarrow> (r, s\<lparr>ctx_meter := m\<rparr>))"

definition compute_consumed :: "tx_ctx \<Rightarrow> u64" where
  "compute_consumed s = meter_consumed (ctx_meter s)"

definition set_compute_remaining :: "u64 \<Rightarrow> tx_ctx \<Rightarrow> tx_ctx" where
  "set_compute_remaining r s = s\<lparr>ctx_meter := meter_set_remaining r (ctx_meter s)\<rparr>"

definition post_balances :: "tx_ctx \<Rightarrow> u64 list" where
  "post_balances s = map (\<lambda>(_, a). acc_lamports a) (ctx_accounts s)"

definition collect_account_deltas :: "tx_ctx \<Rightarrow> (hash \<times> account) list" where
  "collect_account_deltas s =
     map fst (filter (\<lambda>((_, post), (_, pre)). post \<noteq> pre) (zip (ctx_accounts s) (ctx_pre_accounts s)))"

text \<open>The rendering of a hash in a message is base64 of the \<open>base64\<close> crate: an argument.\<close>

definition push_call_stack :: "(hash \<Rightarrow> string) \<Rightarrow> hash \<Rightarrow> unit rt" where
  "push_call_stack show_hash program_id s =
    (if ctx_max_cpi_depth s \<le> ctx_cpi_depth s
     then (Err (CpiDepthExceeded (ctx_cpi_depth s) (ctx_max_cpi_depth s)), s)
     else if program_id \<in> set (ctx_call_stack s)
     then (Err (ReentrancyNotAllowed (''program '' @ show_hash program_id @ '' already in call stack'')), s)
     else (Ok (), s\<lparr>ctx_call_stack := ctx_call_stack s @ [program_id], ctx_cpi_depth := ctx_cpi_depth s + 1\<rparr>))"

definition pop_call_stack :: "tx_ctx \<Rightarrow> tx_ctx" where
  "pop_call_stack s = s\<lparr>ctx_call_stack := butlast (ctx_call_stack s),
     ctx_cpi_depth := saturating_sub (ctx_cpi_depth s) 1\<rparr>"

definition set_return_data :: "hash \<Rightarrow> bytes \<Rightarrow> tx_ctx \<Rightarrow> tx_ctx" where
  "set_return_data program_id d s = s\<lparr>ctx_return_data := Some (program_id, d)\<rparr>"

definition clear_return_data :: "tx_ctx \<Rightarrow> tx_ctx" where
  "clear_return_data s = s\<lparr>ctx_return_data := None\<rparr>"

text \<open>
  The totals are \<open>u128\<close> sums of \<open>u64\<close> values; a vector has fewer than \<open>2 ^ 64\<close> elements, so they
  cannot wrap and are kept as \<open>nat\<close>.
\<close>

definition lamports_of :: "(hash \<times> account) list \<Rightarrow> nat" where
  "lamports_of xs = sum_list (map (\<lambda>(_, a). unat (acc_lamports a)) xs)"

fun check_readonly :: "tx_ctx \<Rightarrow> nat list \<Rightarrow> (runtime_error, unit) outcome" where
  "check_readonly s [] = Ok ()"
| "check_readonly s (i # is) =
    (if is_writable (ctx_message s) i then check_readonly s is
     else if length (ctx_pre_accounts s) \<le> i then Panic
     else if snd (ctx_accounts s ! i) \<noteq> snd (ctx_pre_accounts s ! i) then Err (ReadonlyAccountModified i)
     else check_readonly s is)"

fun check_executable :: "tx_ctx \<Rightarrow> nat list \<Rightarrow> (runtime_error, unit) outcome" where
  "check_executable s [] = Ok ()"
| "check_executable s (i # is) =
    (if length (ctx_pre_accounts s) \<le> i then Panic
     else if acc_executable (snd (ctx_pre_accounts s ! i)) \<and> \<not> acc_executable (snd (ctx_accounts s ! i))
     then Err ExecutableAccountModified
     else check_executable s is)"

definition verify_invariants :: "tx_ctx \<Rightarrow> (runtime_error, unit) outcome" where
  "verify_invariants s =
    (if lamports_of (ctx_pre_accounts s) \<noteq> lamports_of (ctx_accounts s) then Err LamportsOverflow
     else (case check_readonly s [0..<length (ctx_accounts s)] of
             Ok _ \<Rightarrow> check_executable s [0..<length (ctx_accounts s)]
           | Err e \<Rightarrow> Err e
           | Panic \<Rightarrow> Panic))"

section \<open>Helpers of the native processors\<close>

definition require_accounts :: "bytes \<Rightarrow> nat \<Rightarrow> string \<Rightarrow> unit rt" where
  "require_accounts accounts n name =
     require (n \<le> length accounts)
       (InvalidInstructionData (name @ '' requires '' @ show_nat n @ '' accounts''))"

text \<open>\<open>accounts[k] as usize\<close>\<close>

definition account_index :: "bytes \<Rightarrow> nat \<Rightarrow> nat rt" where
  "account_index accounts k = bind_r (index accounts k) (\<lambda>b. return (unat b))"

definition require_signer :: "nat \<Rightarrow> hash rt" where
  "require_signer i = bind_r (get_account i) (\<lambda>acc.
     then_r (require (ar_is_signer acc) (AccountNotSigner i))
     (return (ar_address acc)))"

definition load_state :: "'a codec \<Rightarrow> nat \<Rightarrow> 'a rt" where
  "load_state c i = bind_r (get_account i) (\<lambda>acc.
     map_err (deserialize c (acc_data (ar_account acc))) InvalidAccountData)"

definition save_state :: "'a codec \<Rightarrow> nat \<Rightarrow> 'a \<Rightarrow> unit rt" where
  "save_state c i st = bind_r (map_err (to_vec c st) InvalidAccountData) (\<lambda>d.
     with_account_mut i (modify (\<lambda>a. a\<lparr>acc_data := d\<rparr>)))"

definition check_rent_exempt :: "nat \<Rightarrow> sysvar_cache \<Rightarrow> u64 rt" where
  "check_rent_exempt i sysvars = bind_r (get_account i) (\<lambda>acc.
     let min_bal = minimum_balance (sv_rent sysvars) (length (acc_data (ar_account acc)))
     in then_r (require (min_bal \<le> acc_lamports (ar_account acc)) (RentNotMet min_bal (acc_lamports (ar_account acc))))
        (return (acc_lamports (ar_account acc))))"

text \<open>
  The two balance idioms of the handlers: \<open>lamports.checked_sub(n).ok_or(InsufficientFunds ..)?\<close>
  and \<open>lamports.checked_add(n).ok_or(LamportsOverflow)?\<close>, assigned back to the account.
\<close>

definition debit :: "u64 \<Rightarrow> (account, runtime_error, unit) rm" where
  "debit n = bind_r (gets acc_lamports) (\<lambda>l.
     bind_r (ok_or (checked_sub l n) (InsufficientFunds n l)) (\<lambda>v.
     modify (\<lambda>a. a\<lparr>acc_lamports := v\<rparr>)))"

definition credit :: "u64 \<Rightarrow> (account, runtime_error, unit) rm" where
  "credit n = bind_r (gets acc_lamports) (\<lambda>l.
     bind_r (ok_or (checked_add l n) LamportsOverflow) (\<lambda>v.
     modify (\<lambda>a. a\<lparr>acc_lamports := v\<rparr>)))"

section \<open>Successful runs and evaluation\<close>

lemma get_account_Ok_iff [ok_iff]:
  "get_account i s = (Ok r, t) \<longleftrightarrow> t = s \<and> i < length (ctx_accounts s) \<and>
     r = \<lparr>ar_address = fst (ctx_accounts s ! i), ar_account = snd (ctx_accounts s ! i),
          ar_is_signer = is_signer (ctx_message s) i, ar_is_writable = is_writable (ctx_message s) i\<rparr>"
  by (auto simp: get_account_def)

lemma with_account_mut_Ok_iff [ok_iff]:
  "with_account_mut i f s = (Ok x, t) \<longleftrightarrow>
     i < length (ctx_accounts s) \<and> is_writable (ctx_message s) i \<and>
     (\<exists>a. f (snd (ctx_accounts s ! i)) = (Ok x, a) \<and>
          t = s\<lparr>ctx_accounts := (ctx_accounts s)[i := (fst (ctx_accounts s ! i), a)]\<rparr>)"
  by (auto simp: with_account_mut_def split: prod.splits)

lemma consume_compute_Ok_iff [ok_iff]:
  "consume_compute n s = (Ok x, t) \<longleftrightarrow> n \<le> cm_remaining (ctx_meter s) \<and>
     t = s\<lparr>ctx_meter := (ctx_meter s)\<lparr>cm_remaining := cm_remaining (ctx_meter s) - n\<rparr>\<rparr>"
  by (auto simp: consume_compute_def meter_consume_def split: if_splits)

lemma debit_Ok_iff [ok_iff]:
  "debit n a = (Ok x, b) \<longleftrightarrow> n \<le> acc_lamports a \<and> b = a\<lparr>acc_lamports := acc_lamports a - n\<rparr>"
  by (auto simp: debit_def ok_iff checked_sub_def split: if_splits)

lemma credit_Ok_iff [ok_iff]:
  "credit n a = (Ok x, b) \<longleftrightarrow>
     checked_add (acc_lamports a) n = Some (acc_lamports b) \<and> b = a\<lparr>acc_lamports := acc_lamports a + n\<rparr>"
  by (auto simp: credit_def ok_iff checked_add_def split: if_splits)

lemma account_index_Ok_iff [ok_iff]:
  "account_index xs k s = (Ok i, t) \<longleftrightarrow> k < length xs \<and> i = unat (xs ! k) \<and> t = s"
  by (auto simp: account_index_def ok_iff)

lemma require_accounts_Ok_iff [ok_iff]:
  "require_accounts xs n name s = (Ok x, t) \<longleftrightarrow> n \<le> length xs \<and> t = s"
  by (simp add: require_accounts_def ok_iff)

lemma require_signer_Ok_iff [ok_iff]:
  "require_signer i s = (Ok h, t) \<longleftrightarrow>
     t = s \<and> i < length (ctx_accounts s) \<and> is_signer (ctx_message s) i \<and> h = fst (ctx_accounts s ! i)"
  by (auto simp: require_signer_def ok_iff)

lemma load_state_Ok_iff [ok_iff]:
  "load_state c i s = (Ok x, t) \<longleftrightarrow>
     t = s \<and> i < length (ctx_accounts s) \<and> deserialize c (acc_data (snd (ctx_accounts s ! i))) = Inr x"
  by (auto simp: load_state_def ok_iff)

lemma save_state_Ok_iff [ok_iff]:
  "save_state c i x s = (Ok u, t) \<longleftrightarrow>
     i < length (ctx_accounts s) \<and> is_writable (ctx_message s) i \<and>
     (\<exists>d. to_vec c x = Inr d \<and>
        t = s\<lparr>ctx_accounts := (ctx_accounts s)
              [i := (fst (ctx_accounts s ! i), (snd (ctx_accounts s ! i))\<lparr>acc_data := d\<rparr>)]\<rparr>)"
  by (auto simp: save_state_def ok_iff)

lemma check_rent_exempt_Ok_iff [ok_iff]:
  "check_rent_exempt i v s = (Ok x, t) \<longleftrightarrow> t = s \<and> i < length (ctx_accounts s) \<and>
     x = acc_lamports (snd (ctx_accounts s ! i)) \<and>
     minimum_balance (sv_rent v) (length (acc_data (snd (ctx_accounts s ! i)))) \<le> x"
  by (auto simp: check_rent_exempt_def ok_iff Let_def)

section \<open>What a handler leaves alone\<close>

definition exec_mono :: "account \<Rightarrow> account \<Rightarrow> bool" where
  "exec_mono a b \<longleftrightarrow> (acc_executable a \<longrightarrow> acc_executable b)"

definition ctx_frame :: "tx_ctx \<Rightarrow> tx_ctx \<Rightarrow> bool" where
  "ctx_frame s t \<longleftrightarrow>
     map fst (ctx_accounts t) = map fst (ctx_accounts s) \<and>
     ctx_pre_accounts t = ctx_pre_accounts s \<and>
     ctx_pre_balances t = ctx_pre_balances s \<and>
     ctx_message t = ctx_message s \<and>
     ctx_slot t = ctx_slot s \<and>
     cm_limit (ctx_meter t) = cm_limit (ctx_meter s) \<and>
     cm_remaining (ctx_meter t) \<le> cm_remaining (ctx_meter s) \<and>
     (\<forall>i < length (ctx_accounts s).
        (\<not> is_writable (ctx_message s) i \<longrightarrow> ctx_accounts t ! i = ctx_accounts s ! i) \<and>
        exec_mono (snd (ctx_accounts s ! i)) (snd (ctx_accounts t ! i)))"

lemma ctx_frame_length: "ctx_frame s t \<Longrightarrow> length (ctx_accounts t) = length (ctx_accounts s)"
  unfolding ctx_frame_def by (drule conjunct1) (rule map_eq_imp_length_eq)

lemma ctx_frame_refl: "ctx_frame s s"
  by (simp add: ctx_frame_def exec_mono_def)

lemma ctx_frame_trans: "ctx_frame s t \<Longrightarrow> ctx_frame t u \<Longrightarrow> ctx_frame s u"
  using ctx_frame_length [of s t] by (auto simp: ctx_frame_def exec_mono_def intro: order.trans)

interpretation exec: run_relation exec_mono
  by unfold_locales (auto simp: exec_mono_def)

interpretation frame: run_relation ctx_frame
  by unfold_locales (auto intro: ctx_frame_refl ctx_frame_trans)

named_theorems frame_intros \<open>programs that keep the frame\<close>

lemmas [frame_intros] = frame.keeps_intros exec.keeps_intros

lemma frame_get_account [frame_intros]: "frame.keeps (get_account i)"
  by (simp add: frame.keeps_def get_account_def ctx_frame_refl)

lemma exec_modify [frame_intros]: "(\<And>a. exec_mono a (g a)) \<Longrightarrow> exec.keeps (modify g)"
  by (simp add: exec.keeps_def modify_def)

lemma frame_with_account_mut [frame_intros]:
  assumes "exec.keeps f"
  shows "frame.keeps (with_account_mut i f)"
proof -
  have "exec_mono a b" if "f a = (r, b)" for a r b
    using assms that by (rule exec.keepsD)
  then show ?thesis
    by (auto simp: frame.keeps_def with_account_mut_def ctx_frame_def map_update list_update_same_conv
        nth_list_update exec_mono_def split: prod.splits)
qed

lemma frame_consume_compute [frame_intros]: "frame.keeps (consume_compute n)"
  by (auto simp: frame.keeps_def consume_compute_def meter_consume_def ctx_frame_def exec_mono_def
      not_less intro: word_sub_le)

lemma exec_debit [frame_intros]: "exec.keeps (debit n)"
  unfolding debit_def by (intro frame_intros) (simp add: exec_mono_def)

lemma exec_credit [frame_intros]: "exec.keeps (credit n)"
  unfolding credit_def by (intro frame_intros) (simp add: exec_mono_def)

lemma frame_account_index [frame_intros]: "frame.keeps (account_index xs k)"
  unfolding account_index_def by (intro frame_intros)

lemma frame_require_accounts [frame_intros]: "frame.keeps (require_accounts xs n name)"
  unfolding require_accounts_def by (intro frame_intros)

lemma frame_require_signer [frame_intros]: "frame.keeps (require_signer i)"
  unfolding require_signer_def by (intro frame_intros)

lemma frame_load_state [frame_intros]: "frame.keeps (load_state c i)"
  unfolding load_state_def by (intro frame_intros)

lemma frame_save_state [frame_intros]: "frame.keeps (save_state c i x)"
  unfolding save_state_def by (intro frame_intros) (simp add: exec_mono_def)

lemma frame_check_rent_exempt [frame_intros]: "frame.keeps (check_rent_exempt i v)"
  unfolding check_rent_exempt_def Let_def by (intro frame_intros)

section \<open>Conservation of lamports\<close>

definition same_total :: "tx_ctx \<Rightarrow> tx_ctx \<Rightarrow> bool" where
  "same_total s t \<longleftrightarrow> lamports_of (ctx_accounts t) = lamports_of (ctx_accounts s)"

definition same_lamports :: "account \<Rightarrow> account \<Rightarrow> bool" where
  "same_lamports a b \<longleftrightarrow> acc_lamports b = acc_lamports a"

interpretation total: run_relation same_total
  by unfold_locales (auto simp: same_total_def)

interpretation balance: run_relation same_lamports
  by unfold_locales (auto simp: same_lamports_def)

text \<open>
  A program that moves the total: on success it takes \<open>p\<close> lamports out of the accounts and puts
  \<open>q\<close> into them. Shifts add up along a sequence, and \<open>p = q\<close> is conservation.
\<close>

definition total_shift :: "'a rt \<Rightarrow> nat \<Rightarrow> nat \<Rightarrow> bool" where
  "total_shift m p q \<longleftrightarrow>
     (\<forall>s x t. m s = (Ok x, t) \<longrightarrow> lamports_of (ctx_accounts t) + p = lamports_of (ctx_accounts s) + q)"

named_theorems total_intros \<open>programs that conserve lamports\<close>

lemma lamports_of_update:
  assumes "i < length xs"
  shows "lamports_of (xs[i := (h, a)]) + unat (acc_lamports (snd (xs ! i))) =
         lamports_of xs + unat (acc_lamports a)"
  using sum_list_update_nat [of i "map (\<lambda>(_, a). unat (acc_lamports a)) xs" "unat (acc_lamports a)"] assms
  by (simp add: lamports_of_def map_update case_prod_beta)

lemma with_account_mut_total:
  assumes "with_account_mut i f s = (Ok x, t)"
  obtains b where "f (snd (ctx_accounts s ! i)) = (Ok x, b)"
    and "lamports_of (ctx_accounts t) + unat (acc_lamports (snd (ctx_accounts s ! i))) =
         lamports_of (ctx_accounts s) + unat (acc_lamports b)"
  using assms by (auto simp: ok_iff lamports_of_update)

lemma shift_account:
  assumes "\<And>a x b. f a = (Ok x, b) \<Longrightarrow> unat (acc_lamports b) + p = unat (acc_lamports a) + q"
  shows "total_shift (with_account_mut i f) p q"
proof -
  have "lamports_of (ctx_accounts t) + p = lamports_of (ctx_accounts s) + q"
    if "with_account_mut i f s = (Ok x, t)" for s x t
    using that by (rule with_account_mut_total) (drule assms, simp)
  then show ?thesis by (simp add: total_shift_def)
qed

lemma debit_lamports: "debit n a = (Ok x, b) \<Longrightarrow> unat (acc_lamports b) + unat n = unat (acc_lamports a)"
  by (auto simp: ok_iff unat_sub_le word_le_nat_alt)

lemma credit_lamports: "credit n a = (Ok x, b) \<Longrightarrow> unat (acc_lamports b) = unat (acc_lamports a) + unat n"
  by (auto simp: ok_iff dest!: unat_checked_add)

lemma shift_debit: "total_shift (with_account_mut i (debit n)) (unat n) 0"
  by (rule shift_account) (simp add: debit_lamports)

lemma shift_credit: "total_shift (with_account_mut i (credit n)) 0 (unat n)"
  by (rule shift_account) (simp add: credit_lamports)

lemma shift_debit_modify:
  "(\<And>a. same_lamports a (g a)) \<Longrightarrow> total_shift (with_account_mut i (then_r (debit n) (modify g))) (unat n) 0"
  by (rule shift_account)
    (auto simp: bind_Ok_iff modify_Ok_iff same_lamports_def dest!: debit_lamports)

lemma shift_credit_modify:
  "(\<And>a. same_lamports a (g a)) \<Longrightarrow> total_shift (with_account_mut i (then_r (credit n) (modify g))) 0 (unat n)"
  by (rule shift_account)
    (auto simp: bind_Ok_iff modify_Ok_iff same_lamports_def dest!: credit_lamports)

lemma shift_bind:
  assumes "total_shift m p q" and "\<And>x. total_shift (f x) p' q'"
  shows "total_shift (bind_r m f) (p + p') (q + q')"
  using assms by (fastforce simp: total_shift_def ok_iff)

lemma shift_keeps_ok: "total_shift m n n \<longleftrightarrow> total.keeps_ok m"
  by (auto simp: total_shift_def total.keeps_ok_def same_total_def)

lemma shift_then_keeps: "total_shift m p q \<Longrightarrow> (\<And>x. total.keeps_ok (f x)) \<Longrightarrow> total_shift (bind_r m f) p q"
  using shift_bind [of m p q f 0 0] by (simp add: shift_keeps_ok)

lemma keeps_then_shift: "total.keeps_ok m \<Longrightarrow> (\<And>x. total_shift (f x) p q) \<Longrightarrow> total_shift (bind_r m f) p q"
  using shift_bind [of m 0 0 f p q] by (simp add: shift_keeps_ok)

lemma total_pair:
  "total_shift m p 0 \<Longrightarrow> (\<And>x. total_shift (f x) 0 p) \<Longrightarrow> total.keeps_ok (bind_r m f)"
  using shift_bind [of m p 0 f 0 p] by (simp add: shift_keeps_ok)

lemma total_transfer [total_intros]:
  assumes "\<And>x. total.keeps_ok (f x)"
  shows "total.keeps_ok (then_r (with_account_mut i (debit n)) (bind_r (with_account_mut j (credit n)) f))"
  using shift_bind [OF shift_debit [of i n] shift_then_keeps [OF shift_credit [of j n] assms]] by (simp add: shift_keeps_ok)

lemma total_transfer_last [total_intros]:
  "total.keeps_ok (then_r (with_account_mut i (debit n)) (with_account_mut j (credit n)))"
  using shift_bind [OF shift_debit [of i n] shift_credit [of j n]] by (simp add: shift_keeps_ok)

lemma balance_modify [total_intros]: "(\<And>a. same_lamports a (g a)) \<Longrightarrow> balance.keeps_ok (modify g)"
  by (simp add: balance.keeps_ok_def modify_def)

lemmas total_basic [total_intros] =
  total.keeps_basic [THEN total.keeps_imp_ok] balance.keeps_basic [THEN balance.keeps_imp_ok]

lemma total_with_account_mut [total_intros]:
  assumes "balance.keeps_ok f"
  shows "total.keeps_ok (with_account_mut i f)"
proof -
  have "same_total s t" if m: "with_account_mut i f s = (Ok x, t)" for s x t
    using m
  proof (rule with_account_mut_total)
    fix b
    assume b: "f (snd (ctx_accounts s ! i)) = (Ok x, b)"
    show "same_total s t" if "lamports_of (ctx_accounts t) + unat (acc_lamports (snd (ctx_accounts s ! i))) =
         lamports_of (ctx_accounts s) + unat (acc_lamports b)"
      using balance.keeps_okD [OF assms b] that by (simp add: same_lamports_def same_total_def)
  qed
  then show ?thesis by (auto simp: total.keeps_ok_def)
qed

lemma total_get_account [total_intros]: "total.keeps_ok (get_account i)"
  by (simp add: total.keeps_ok_def ok_iff same_total_def)

lemma total_consume_compute [total_intros]: "total.keeps_ok (consume_compute n)"
  by (simp add: total.keeps_ok_def ok_iff same_total_def)

lemma total_account_index [total_intros]: "total.keeps_ok (account_index xs k)"
  by (simp add: total.keeps_ok_def ok_iff same_total_def)

lemma total_require_accounts [total_intros]: "total.keeps_ok (require_accounts xs n name)"
  by (simp add: total.keeps_ok_def ok_iff same_total_def)

lemma total_require_signer [total_intros]: "total.keeps_ok (require_signer i)"
  by (simp add: total.keeps_ok_def ok_iff same_total_def)

lemma total_load_state [total_intros]: "total.keeps_ok (load_state c i)"
  by (simp add: total.keeps_ok_def ok_iff same_total_def)

lemma total_check_rent_exempt [total_intros]: "total.keeps_ok (check_rent_exempt i v)"
  by (simp add: total.keeps_ok_def ok_iff same_total_def)

lemma total_save_state [total_intros]: "total.keeps_ok (save_state c i x)"
  unfolding save_state_def by (intro total_intros total.keeps_ok_bind) (simp add: same_lamports_def)

section \<open>The post-execution check\<close>

lemma check_readonly_Ok:
  "check_readonly s is = Ok () \<longleftrightarrow> (\<forall>i \<in> set is. is_writable (ctx_message s) i \<or>
     i < length (ctx_pre_accounts s) \<and> snd (ctx_accounts s ! i) = snd (ctx_pre_accounts s ! i))"
  by (induction "is") auto

lemma check_executable_Ok:
  "check_executable s is = Ok () \<longleftrightarrow> (\<forall>i \<in> set is.
     i < length (ctx_pre_accounts s) \<and> exec_mono (snd (ctx_pre_accounts s ! i)) (snd (ctx_accounts s ! i)))"
  by (induction "is") (auto simp: exec_mono_def)

lemma verify_invariants_Ok:
  assumes "length (ctx_pre_accounts s) = length (ctx_accounts s)"
  shows "verify_invariants s = Ok () \<longleftrightarrow>
     lamports_of (ctx_pre_accounts s) = lamports_of (ctx_accounts s) \<and>
     (\<forall>i < length (ctx_accounts s).
        (\<not> is_writable (ctx_message s) i \<longrightarrow> snd (ctx_accounts s ! i) = snd (ctx_pre_accounts s ! i)) \<and>
        exec_mono (snd (ctx_pre_accounts s ! i)) (snd (ctx_accounts s ! i)))"
proof -
  have "verify_invariants s = Ok () \<longleftrightarrow>
     lamports_of (ctx_pre_accounts s) = lamports_of (ctx_accounts s) \<and>
     check_readonly s [0..<length (ctx_accounts s)] = Ok () \<and>
     check_executable s [0..<length (ctx_accounts s)] = Ok ()"
    by (simp add: verify_invariants_def split: outcome.split)
  also have "\<dots> \<longleftrightarrow> lamports_of (ctx_pre_accounts s) = lamports_of (ctx_accounts s) \<and>
     (\<forall>i < length (ctx_accounts s).
        (\<not> is_writable (ctx_message s) i \<longrightarrow> snd (ctx_accounts s ! i) = snd (ctx_pre_accounts s ! i)) \<and>
        exec_mono (snd (ctx_pre_accounts s ! i)) (snd (ctx_accounts s ! i)))"
    unfolding check_readonly_Ok check_executable_Ok using assms by auto
  finally show ?thesis .
qed

text \<open>After handlers that keep the frame, only the lamport total is left to check.\<close>

lemma verify_after_frame:
  assumes "ctx_frame (ctx_new as m slot limit) t"
  shows "verify_invariants t = (if lamports_of (ctx_accounts t) = lamports_of as then Ok () else Err LamportsOverflow)"
proof (cases "lamports_of (ctx_accounts t) = lamports_of as")
  case True
  have pre: "ctx_pre_accounts t = as" "ctx_message t = m" using assms by (simp_all add: ctx_frame_def ctx_new_def)
  have len: "length (ctx_accounts t) = length as" using ctx_frame_length [OF assms] by (simp add: ctx_new_def)
  from True pre len assms have "verify_invariants t = Ok ()"
    by (subst verify_invariants_Ok) (auto simp: ctx_frame_def ctx_new_def)
  with True show ?thesis by simp
next
  case False
  then show ?thesis using assms by (simp add: verify_invariants_def ctx_frame_def ctx_new_def)
qed

section \<open>The contract of a native processor\<close>

text \<open>
  \<open>ProgramProcessor\<close> (\<open>runtime/src/program_processor.rs\<close>) says only what a processor is called with.
  The executor relies on more: whatever the outcome, the frame is kept. A processor that also
  conserves lamports whenever it succeeds can never be the reason why the post-execution check fails.
\<close>

locale framed_processor =
  fixes process :: "bytes \<Rightarrow> bytes \<Rightarrow> sysvar_cache \<Rightarrow> unit rt"
  assumes process_frame: "frame.keeps (process accounts data sysvars)"
begin

lemma process_keeps_frame: "ctx_frame s (snd (process accounts data sysvars s))"
  using process_frame by (simp add: frame.keeps_def)

lemma process_readonly:
  "process accounts data sysvars s = (r, t) \<Longrightarrow> i < length (ctx_accounts s) \<Longrightarrow>
   \<not> is_writable (ctx_message s) i \<Longrightarrow> ctx_accounts t ! i = ctx_accounts s ! i"
  using frame.keepsD [OF process_frame] by (simp add: ctx_frame_def)

lemma process_compute:
  "process accounts data sysvars s = (r, t) \<Longrightarrow> cm_remaining (ctx_meter t) \<le> cm_remaining (ctx_meter s)"
  using frame.keepsD [OF process_frame] by (simp add: ctx_frame_def)

end

locale conserving_processor = framed_processor +
  assumes process_total: "total.keeps_ok (process accounts data sysvars)"
begin

lemma process_conserves:
  "process accounts data sysvars s = (Ok x, t) \<Longrightarrow> lamports_of (ctx_accounts t) = lamports_of (ctx_accounts s)"
  using total.keeps_okD [OF process_total] by (simp add: same_total_def)

lemma process_then_verify:
  assumes "process accounts data sysvars (ctx_new as m slot limit) = (Ok x, t)"
  shows "verify_invariants t = Ok ()"
  using process_conserves [OF assms] frame.keepsD [OF process_frame assms]
  by (subst verify_after_frame) (auto simp: ctx_new_def)

end

section \<open>Sample states\<close>

text \<open>Concrete inputs for evaluating the model: two signers and four accounts, the last read-only.\<close>

definition sample_message :: message where
  "sample_message = \<lparr>num_required_signatures = 2, num_readonly_signed = 0, num_readonly_unsigned = 1,
     account_keys = [1, 2, 3, 4], recent_blockhash = 0, instructions = []\<rparr>"

definition sample_ctx :: "account list \<Rightarrow> tx_ctx" where
  "sample_ctx as = ctx_new (zip [1, 2, 3, 4] as) sample_message 7 200000"

definition sample_account :: "u64 \<Rightarrow> hash \<Rightarrow> bytes \<Rightarrow> account" where
  "sample_account l h d = \<lparr>acc_lamports = l, acc_data = d, acc_owner = h, acc_executable = False, acc_rent_epoch = 0\<rparr>"

definition sample_sysvars :: sysvar_cache where
  "sample_sysvars = \<lparr>sv_clock = clock_default\<lparr>clock_epoch := 5\<rparr>, sv_rent = rent_default,
     sv_epoch_schedule = epoch_schedule_new 432000, sv_slot_hashes = [(6, 77)],
     sv_stake_history = [], sv_recent_blockhashes = [99]\<rparr>"

lemmas [run_simps] =
  get_account_def with_account_mut_def consume_compute_def meter_consume_def require_accounts_def
  account_index_def require_signer_def load_state_def save_state_def check_rent_exempt_def debit_def
  credit_def is_signer_def is_writable_def checked_add_def checked_sub_def ctx_new_def meter_new_def
  sample_message_def sample_ctx_def sample_account_def sample_sysvars_def

end
