(* ===== verification/System.thy ===== *)
theory System
  imports Env Tx_Context
begin

text \<open>
  The system program: \<open>runtime/src/processors/system.rs\<close>, one definition per handler. Shown for it:
  the exact condition and effect of a transfer and of an account creation, that every instruction
  keeps the frame of the context and conserves lamports, and that no account owned by another
  program changes owner or data.
\<close>

definition SYSTEM_CREATE_ACCOUNT_COST :: u64 where "SYSTEM_CREATE_ACCOUNT_COST = 1500"
definition SYSTEM_TRANSFER_COST :: u64 where "SYSTEM_TRANSFER_COST = 450"
definition SYSTEM_ASSIGN_COST :: u64 where "SYSTEM_ASSIGN_COST = 450"
definition SYSTEM_ALLOCATE_COST :: u64 where "SYSTEM_ALLOCATE_COST = 450"

definition process_create_account :: "bytes \<Rightarrow> u64 \<Rightarrow> u64 \<Rightarrow> hash \<Rightarrow> sysvar_cache \<Rightarrow> unit rt" where
  "process_create_account accounts lamports space owner sysvars =
    then_r (require_accounts accounts 2 ''CreateAccount'')
    (bind_r (account_index accounts 0) (\<lambda>funder_idx.
    bind_r (account_index accounts 1) (\<lambda>new_idx.
    then_r (require_signer new_idx)
    (bind_r (get_account new_idx) (\<lambda>new_acc.
    then_r (require (account_is_empty (ar_account new_acc)) AccountAlreadyExists)
    (then_r (require_signer funder_idx)
    (then_r (require (space \<le> MAX_ACCOUNT_DATA_SIZE) (AccountDataTooLarge space MAX_ACCOUNT_DATA_SIZE))
    (let min_balance = minimum_balance (sv_rent sysvars) (unat space) in
     then_r (require (min_balance \<le> lamports) (RentNotMet min_balance lamports))
     (then_r (with_account_mut funder_idx (debit lamports))
     (with_account_mut new_idx (modify (\<lambda>a.
        a\<lparr>acc_lamports := lamports, acc_owner := owner, acc_data := replicate (unat space) 0\<rparr>))))))))))))"

definition process_transfer :: "bytes \<Rightarrow> u64 \<Rightarrow> unit rt" where
  "process_transfer accounts lamports =
    then_r (require_accounts accounts 2 ''Transfer'')
    (bind_r (account_index accounts 0) (\<lambda>from_idx.
    bind_r (account_index accounts 1) (\<lambda>to_idx.
    then_r (require_signer from_idx)
    (then_r (with_account_mut from_idx
       (bind_r (gets acc_lamports) (\<lambda>l.
        then_r (require (lamports \<le> l) (InsufficientFunds lamports l)) (debit lamports))))
    (with_account_mut to_idx (credit lamports))))))"

definition require_system_owned :: "env \<Rightarrow> nat \<Rightarrow> unit rt" where
  "require_system_owned E i = bind_r (get_account i) (\<lambda>acc.
     require (acc_owner (ar_account acc) = SYSTEM_PROGRAM_ID E \<or> acc_owner (ar_account acc) = hash_zero)
       AccountOwnerMismatch)"

definition process_assign :: "env \<Rightarrow> bytes \<Rightarrow> hash \<Rightarrow> unit rt" where
  "process_assign E accounts owner =
    then_r (require_accounts accounts 1 ''Assign'')
    (bind_r (account_index accounts 0) (\<lambda>account_idx.
    then_r (require_signer account_idx)
    (then_r (require_system_owned E account_idx)
    (with_account_mut account_idx (modify (\<lambda>a. a\<lparr>acc_owner := owner\<rparr>))))))"

definition process_allocate :: "env \<Rightarrow> bytes \<Rightarrow> u64 \<Rightarrow> unit rt" where
  "process_allocate E accounts space =
    then_r (require_accounts accounts 1 ''Allocate'')
    (bind_r (account_index accounts 0) (\<lambda>account_idx.
    then_r (require_signer account_idx)
    (then_r (require_system_owned E account_idx)
    (then_r (require (space \<le> MAX_ACCOUNT_DATA_SIZE) (AccountDataTooLarge space MAX_ACCOUNT_DATA_SIZE))
    (bind_r (get_account account_idx) (\<lambda>acc.
    then_r (require (acc_data (ar_account acc) = []) (InvalidAccountData ''account already has data''))
    (with_account_mut account_idx (modify (\<lambda>a. a\<lparr>acc_data := replicate (unat space) 0\<rparr>)))))))))"

definition process_system :: "env \<Rightarrow> bytes \<Rightarrow> bytes \<Rightarrow> sysvar_cache \<Rightarrow> unit rt" where
  "process_system E accounts data sysvars =
    bind_r (map_err (try_from_slice (system_ix_fmt E) data) InvalidInstructionData) (\<lambda>instruction.
    (case instruction of
       CreateAccount lamports space owner \<Rightarrow>
         then_r (consume_compute SYSTEM_CREATE_ACCOUNT_COST)
         (process_create_account accounts lamports space owner sysvars)
     | SysTransfer lamports \<Rightarrow>
         then_r (consume_compute SYSTEM_TRANSFER_COST) (process_transfer accounts lamports)
     | Assign owner \<Rightarrow>
         then_r (consume_compute SYSTEM_ASSIGN_COST) (process_assign E accounts owner)
     | Allocate space \<Rightarrow>
         then_r (consume_compute SYSTEM_ALLOCATE_COST) (process_allocate E accounts space)
     | _ \<Rightarrow> fail (ProgramError ''system'' ''instruction not yet implemented'')))"

section \<open>Frame and conservation\<close>

lemma frame_require_system_owned [frame_intros]: "frame.keeps (require_system_owned E i)"
  unfolding require_system_owned_def by (intro frame_intros)

lemma total_require_system_owned [total_intros]: "total.keeps_ok (require_system_owned E i)"
  unfolding require_system_owned_def by (intro total_intros total.keeps_ok_bind)

lemma frame_create_account [frame_intros]:
  "frame.keeps (process_create_account accounts lamports space owner sysvars)"
  unfolding process_create_account_def Let_def by (intro frame_intros) (simp add: exec_mono_def)

lemma frame_process_transfer [frame_intros]: "frame.keeps (process_transfer accounts lamports)"
  unfolding process_transfer_def by (intro frame_intros)

lemma frame_process_assign [frame_intros]: "frame.keeps (process_assign E accounts owner)"
  unfolding process_assign_def by (intro frame_intros) (simp add: exec_mono_def)

lemma frame_process_allocate [frame_intros]: "frame.keeps (process_allocate E accounts space)"
  unfolding process_allocate_def by (intro frame_intros) (simp add: exec_mono_def)

lemma frame_process_system [frame_intros]: "frame.keeps (process_system E accounts data sysvars)"
  unfolding process_system_def by (intro frame_intros) (simp split: system_instruction.split, intro conjI allI impI frame_intros)

lemma total_create_account [total_intros]:
  "total.keeps_ok (process_create_account accounts lamports space owner sysvars)"
proof -
  have "same_total s t" if "process_create_account accounts lamports space owner sysvars s = (Ok x, t)" for s x t
  proof -
    let ?i = "unat (accounts ! 0)" and ?j = "unat (accounts ! 1)"
    from that obtain u where d: "with_account_mut ?i (debit lamports) s = (Ok (), u)"
      and m: "with_account_mut ?j (modify (\<lambda>a. a\<lparr>acc_lamports := lamports, acc_owner := owner,
                acc_data := replicate (unat space) 0\<rparr>)) u = (Ok x, t)"
      and e: "acc_lamports (snd (ctx_accounts s ! ?j)) = 0" and j: "?j < length (ctx_accounts s)"
      by (auto simp: process_create_account_def Let_def ok_iff account_is_empty_def)
    from d have du: "lamports_of (ctx_accounts u) + unat lamports = lamports_of (ctx_accounts s)"
      using shift_debit [of ?i lamports] by (auto simp: total_shift_def)
    from d e j have "acc_lamports (snd (ctx_accounts u ! ?j)) = 0"
      by (cases "?i = ?j") (auto simp: ok_iff)
    with m du show ?thesis
      by (elim with_account_mut_total) (auto simp: ok_iff same_total_def)
  qed
  then show ?thesis by (auto simp: total.keeps_ok_def)
qed

lemma shift_checked_debit:
  "total_shift (with_account_mut i (bind_r (gets acc_lamports) (\<lambda>l.
     then_r (require (n \<le> l) (e l)) (debit n)))) (unat n) 0"
  using shift_debit [of i n] by (auto simp: total_shift_def ok_iff)

lemma total_checked_transfer:
  "total.keeps_ok (then_r (with_account_mut i (bind_r (gets acc_lamports) (\<lambda>l.
     then_r (require (n \<le> l) (e l)) (debit n)))) (with_account_mut j (credit n)))"
  by (rule total_pair [OF shift_checked_debit shift_credit])

lemma total_process_transfer [total_intros]: "total.keeps_ok (process_transfer accounts lamports)"
  unfolding process_transfer_def
  by (intro total_checked_transfer total_intros total.keeps_ok_bind)

lemma total_process_assign [total_intros]: "total.keeps_ok (process_assign E accounts owner)"
  unfolding process_assign_def by (intro total_intros total.keeps_ok_bind) (simp add: same_lamports_def)

lemma total_process_allocate [total_intros]: "total.keeps_ok (process_allocate E accounts space)"
  unfolding process_allocate_def by (intro total_intros total.keeps_ok_bind) (simp add: same_lamports_def)

lemma total_process_system [total_intros]: "total.keeps_ok (process_system E accounts data sysvars)"
  unfolding process_system_def
  by (intro total_intros total.keeps_ok_bind)
    (simp split: system_instruction.split, intro conjI allI impI total_intros total.keeps_ok_bind)

interpretation system_processor: conserving_processor "process_system E" for E
  by unfold_locales (rule frame_process_system total_process_system)+

section \<open>Properties\<close>

text \<open>A transfer succeeds exactly when both indices name writable accounts, the source signed
  and holds the amount, and the destination does not overflow (a transfer to itself never does);
  its effect is to move the amount between the two balances and nothing else.\<close>

theorem process_transfer_spec:
  "process_transfer accounts n s = (Ok (), t) \<longleftrightarrow>
     2 \<le> length accounts \<and>
     (let i = unat (accounts ! 0); j = unat (accounts ! 1); as = ctx_accounts s; m = ctx_message s;
          li = acc_lamports (snd (as ! i)); lj = acc_lamports (snd (as ! j)) in
      i < length as \<and> j < length as \<and> is_signer m i \<and> is_writable m i \<and> is_writable m j \<and>
      n \<le> li \<and> (i = j \<or> unat lj + unat n < 2 ^ 64) \<and>
      t = (if i = j then s else s\<lparr>ctx_accounts := as
             [i := (fst (as ! i), (snd (as ! i))\<lparr>acc_lamports := li - n\<rparr>),
              j := (fst (as ! j), (snd (as ! j))\<lparr>acc_lamports := lj + n\<rparr>)]\<rparr>))"
proof (cases "unat (accounts ! 0) = unat (accounts ! 1)")
  case True
  then show ?thesis
    using unat_bound [of "acc_lamports (snd (ctx_accounts s ! unat (accounts ! 1)))"]
    by (auto simp: process_transfer_def ok_iff Let_def word_ops word_le_nat_alt unat_sub_le)
next
  case False
  then show ?thesis
    by (auto simp: process_transfer_def ok_iff Let_def word_ops word_le_nat_alt)
qed

text \<open>C18: creating an account succeeds exactly when the new account signed and is empty, the funder
  signed, the space is within the limit and the amount is rent exempt; the funder pays the amount and
  the new account gets it, with the requested owner and zeroed data.\<close>

theorem process_create_account_spec:
  assumes "0 < n"
  shows "process_create_account accounts n space owner sysvars s = (Ok (), t) \<longleftrightarrow>
     2 \<le> length accounts \<and>
     (let i = unat (accounts ! 0); j = unat (accounts ! 1); as = ctx_accounts s; m = ctx_message s;
          li = acc_lamports (snd (as ! i)) in
      i < length as \<and> j < length as \<and> i \<noteq> j \<and> is_signer m i \<and> is_signer m j \<and>
      is_writable m i \<and> is_writable m j \<and> account_is_empty (snd (as ! j)) \<and>
      unat space \<le> 10485760 \<and> minimum_balance (sv_rent sysvars) (unat space) \<le> n \<and> n \<le> li \<and>
      t = s\<lparr>ctx_accounts := as
             [i := (fst (as ! i), (snd (as ! i))\<lparr>acc_lamports := li - n\<rparr>),
              j := (fst (as ! j), (snd (as ! j))\<lparr>acc_lamports := n, acc_owner := owner,
                      acc_data := replicate (unat space) 0\<rparr>)]\<rparr>)"
proof (cases "unat (accounts ! 0) = unat (accounts ! 1)")
  case True
  with assms show ?thesis
    by (auto simp: process_create_account_def ok_iff Let_def account_is_empty_def)
next
  case False
  have "space \<le> MAX_ACCOUNT_DATA_SIZE \<longleftrightarrow> unat space \<le> 10485760"
    by (simp add: MAX_ACCOUNT_DATA_SIZE_def word_le_nat_alt)
  with False show ?thesis
    by (auto simp: process_create_account_def ok_iff Let_def)
qed

theorem process_create_account_spec_witness:
  "process_create_account [0, 1] 2000000 10 9 sample_sysvars
     (sample_ctx [sample_account 5000000 0 [], sample_account 0 0 []]) =
   (Ok (), sample_ctx [sample_account 5000000 0 [], sample_account 0 0 []]\<lparr>ctx_accounts :=
      [(1, sample_account 3000000 0 []), (2, sample_account 2000000 9 (replicate 10 0))]\<rparr>)"
  by (subst process_create_account_spec) (simp_all add: run_simps account_is_empty_def
      minimum_balance_def rent_default_def saturating_mul_def Let_def)

text \<open>
  What a system instruction may take from an account: lamports, owner and data only with the
  account's signature, owner and data only when it is system owned or holds no data.
\<close>

definition system_authority :: "env \<Rightarrow> tx_ctx \<Rightarrow> tx_ctx \<Rightarrow> bool" where
  "system_authority E s t \<longleftrightarrow> (\<forall>i < length (ctx_accounts s).
     let a = snd (ctx_accounts s ! i); b = snd (ctx_accounts t ! i) in
     (acc_lamports b < acc_lamports a \<longrightarrow> is_signer (ctx_message s) i) \<and>
     ((acc_owner b, acc_data b) \<noteq> (acc_owner a, acc_data a) \<longrightarrow>
        is_signer (ctx_message s) i \<and>
        (acc_owner a = SYSTEM_PROGRAM_ID E \<or> acc_owner a = hash_zero \<or> acc_data a = [])))"

lemma authority_transfer: "process_transfer accounts n s = (Ok x, t) \<Longrightarrow> system_authority E s t"
  by (cases "unat (accounts ! 0) = unat (accounts ! 1)")
    (auto simp: process_transfer_def ok_iff system_authority_def Let_def nth_list_update word_ops
      word_less_nat_alt unat_add_lem_less)

lemma authority_create_account:
  "process_create_account accounts n space owner sysvars s = (Ok x, t) \<Longrightarrow> system_authority E s t"
  by (auto simp: process_create_account_def ok_iff system_authority_def Let_def nth_list_update
      account_is_empty_def)

lemma authority_assign: "process_assign E accounts owner s = (Ok x, t) \<Longrightarrow> system_authority E s t"
  by (auto simp: process_assign_def require_system_owned_def ok_iff system_authority_def Let_def
      nth_list_update)

lemma authority_allocate: "process_allocate E accounts space s = (Ok x, t) \<Longrightarrow> system_authority E s t"
  by (auto simp: process_allocate_def require_system_owned_def ok_iff system_authority_def Let_def
      nth_list_update)

lemma authority_charge:
  "system_authority E (s\<lparr>ctx_meter := m\<rparr>) t \<longleftrightarrow> system_authority E s t"
  by (simp add: system_authority_def)

text \<open>C17: a successful system instruction takes lamports from, reassigns or allocates only accounts
  that signed, and reassigns or allocates none that another program owns and keeps data in.\<close>

theorem process_system_authority:
  assumes "process_system E accounts data sysvars s = (Ok x, t)"
  shows "system_authority E s t"
proof -
  from assms obtain ix where "try_from_slice (system_ix_fmt E) data = Inr ix"
    by (auto simp: process_system_def ok_iff)
  with assms show ?thesis
    by (cases ix) (auto simp: process_system_def ok_iff authority_charge dest!: authority_assign
      authority_allocate authority_transfer [where E = E] authority_create_account [where E = E])
qed

theorem process_system_authority_witness:
  "\<exists>t. process_system sample_env [0, 1] [1, 5, 0, 0, 0, 0, 0, 0, 0] sample_sysvars
         (sample_ctx [sample_account 100 0 [], sample_account 50 0 []]) = (Ok (), t) \<and>
       system_authority sample_env (sample_ctx [sample_account 100 0 [], sample_account 50 0 []]) t"
  by (rule run_witness, simp add: process_system_def process_transfer_def SYSTEM_TRANSFER_COST_def
      run_simps codec_simps, rule process_system_authority)

end
