(* ===== verification/Stake.thy ===== *)
theory Stake
  imports Env Tx_Context
begin

text \<open>
  The stake program: \<open>runtime/src/processors/stake/\<close>, one definition per handler. The lifecycle of
  a stake account is the relation \<open>stake_trans\<close>, and every successful instruction is shown to be a
  step of it on the account it writes. Withdrawals and splits have their arithmetic stated at the
  width the code uses.
\<close>

definition STAKE_BASE_COST :: u64 where "STAKE_BASE_COST = 750"

definition require_stake_owned :: "env \<Rightarrow> nat \<Rightarrow> unit rt" where
  "require_stake_owned E i = bind_r (get_account i) (\<lambda>acc.
     require (acc_owner (ar_account acc) = STAKE_PROGRAM_ID E) AccountOwnerMismatch)"

definition stake_initialize :: "env \<Rightarrow> bytes \<Rightarrow> authorized \<Rightarrow> lockup \<Rightarrow> sysvar_cache \<Rightarrow> unit rt" where
  "stake_initialize E accounts authorized lockup sysvars =
    then_r (require_accounts accounts 1 ''Initialize'')
    (bind_r (account_index accounts 0) (\<lambda>stake_idx.
    then_r (require_stake_owned E stake_idx)
    (bind_r (get_account stake_idx) (\<lambda>acc.
    bind_r (if acc_data (ar_account acc) = [] then return StakeUninitialized
            else map_err (deserialize (stake_state_fmt E) (acc_data (ar_account acc))) InvalidAccountData)
      (\<lambda>current_state.
    then_r (require (current_state = StakeUninitialized) (InvalidAccountData ''stake account already initialized''))
    (bind_r (get_account stake_idx) (\<lambda>acc.
    let reserve = minimum_balance (sv_rent sysvars) (length (acc_data (ar_account acc))) in
    then_r (require (reserve \<le> acc_lamports (ar_account acc)) (RentNotMet reserve (acc_lamports (ar_account acc))))
    (save_state (stake_state_fmt E) stake_idx (StakeInitialized
       \<lparr>rent_exempt_reserve = reserve, meta_authorized = authorized, meta_lockup = lockup\<rparr>)))))))))"

definition stake_delegate :: "env \<Rightarrow> bytes \<Rightarrow> sysvar_cache \<Rightarrow> unit rt" where
  "stake_delegate E accounts sysvars =
    then_r (require_accounts accounts 3 ''DelegateStake'')
    (bind_r (account_index accounts 0) (\<lambda>stake_idx.
    bind_r (account_index accounts 1) (\<lambda>vote_idx.
    bind_r (account_index accounts 2) (\<lambda>staker_idx.
    bind_r (require_signer staker_idx) (\<lambda>staker_address.
    bind_r (get_account vote_idx) (\<lambda>vote.
    then_r (require_stake_owned E stake_idx)
    (bind_r (load_state (stake_state_fmt E) stake_idx) (\<lambda>state.
    bind_r (case state of StakeInitialized m \<Rightarrow> return m
            | _ \<Rightarrow> fail (InvalidAccountData ''stake account must be initialized to delegate'')) (\<lambda>meta.
    then_r (require (staker (meta_authorized meta) = staker_address) (AccountNotSigner staker_idx))
    (bind_r (get_account stake_idx) (\<lambda>acc.
    let stake_lamports = saturating_sub (acc_lamports (ar_account acc)) (rent_exempt_reserve meta) in
    then_r (require (DEFAULT_MIN_DELEGATION \<le> stake_lamports)
              (InsufficientFunds DEFAULT_MIN_DELEGATION stake_lamports))
    (save_state (stake_state_fmt E) stake_idx (StakeDelegated meta
       \<lparr>stake_delegation = \<lparr>voter_pubkey = ar_address vote, delegation_stake = stake_lamports,
          activation_epoch = clock_epoch (sv_clock sysvars), deactivation_epoch = - 1,
          warmup_cooldown_rate_bps = DEFAULT_WARMUP_COOLDOWN_RATE_BPS\<rparr>,
        credits_observed = 0\<rparr>)))))))))))))"

definition stake_deactivate :: "env \<Rightarrow> bytes \<Rightarrow> sysvar_cache \<Rightarrow> unit rt" where
  "stake_deactivate E accounts sysvars =
    then_r (require_accounts accounts 2 ''Deactivate'')
    (bind_r (account_index accounts 0) (\<lambda>stake_idx.
    bind_r (account_index accounts 1) (\<lambda>staker_idx.
    bind_r (require_signer staker_idx) (\<lambda>staker_address.
    then_r (require_stake_owned E stake_idx)
    (bind_r (load_state (stake_state_fmt E) stake_idx) (\<lambda>state.
    bind_r (case state of StakeDelegated m s \<Rightarrow> return (m, s)
            | _ \<Rightarrow> fail (InvalidAccountData ''stake account must be delegated to deactivate'')) (\<lambda>(meta, stake).
    then_r (require (staker (meta_authorized meta) = staker_address) (AccountNotSigner staker_idx))
    (then_r (require (deactivation_epoch (stake_delegation stake) = - 1)
               (ProgramError ''stake'' ''stake already deactivating''))
    (save_state (stake_state_fmt E) stake_idx (StakeDelegated meta
       (stake\<lparr>stake_delegation := (stake_delegation stake)
          \<lparr>deactivation_epoch := clock_epoch (sv_clock sysvars)\<rparr>\<rparr>)))))))))))"

text \<open>
  The part of a deactivated stake that has cooled down. The product is taken in \<open>u128\<close>, where two
  factors always fit and three need not.
\<close>

definition cooled_stake :: "delegation \<Rightarrow> u64 \<Rightarrow> u64" where
  "cooled_stake d epochs_since =
     of_nat (min (unat (delegation_stake d) * unat (warmup_cooldown_rate_bps d) * unat epochs_since
                    mod 2 ^ 128 div 10000)
                 (unat (delegation_stake d)))"

definition withdraw_available :: "stake_state \<Rightarrow> stake_meta \<Rightarrow> u64 \<Rightarrow> u64 \<Rightarrow> u64" where
  "withdraw_available state meta epoch lamports =
    (case state of
       StakeInitialized _ \<Rightarrow> saturating_sub lamports (rent_exempt_reserve meta)
     | StakeDelegated _ s \<Rightarrow>
         (if epoch \<le> deactivation_epoch (stake_delegation s) then 0
          else
            (let cooled = cooled_stake (stake_delegation s) (epoch - deactivation_epoch (stake_delegation s));
                 still_staked = saturating_sub (delegation_stake (stake_delegation s)) cooled
             in saturating_sub lamports (rent_exempt_reserve meta + still_staked)))
     | _ \<Rightarrow> 0)"

definition stake_withdraw :: "env \<Rightarrow> bytes \<Rightarrow> u64 \<Rightarrow> sysvar_cache \<Rightarrow> unit rt" where
  "stake_withdraw E accounts lamports sysvars =
    then_r (require_accounts accounts 3 ''Withdraw'')
    (bind_r (account_index accounts 0) (\<lambda>stake_idx.
    bind_r (account_index accounts 1) (\<lambda>to_idx.
    bind_r (account_index accounts 2) (\<lambda>withdrawer_idx.
    bind_r (require_signer withdrawer_idx) (\<lambda>withdrawer_address.
    bind_r (load_state (stake_state_fmt E) stake_idx) (\<lambda>state.
    bind_r (case state of StakeInitialized m \<Rightarrow> return m | StakeDelegated m _ \<Rightarrow> return m
            | _ \<Rightarrow> fail (InvalidAccountData ''stake account not initialized'')) (\<lambda>meta.
    then_r (require (withdrawer (meta_authorized meta) = withdrawer_address) (AccountNotSigner withdrawer_idx))
    (then_r (require (\<not> (sint (unix_timestamp (sv_clock sysvars)) < sint (lockup_unix_timestamp (meta_lockup meta))
                         \<or> clock_epoch (sv_clock sysvars) < lockup_epoch (meta_lockup meta)))
               (ProgramError ''stake'' ''stake account is locked''))
    (bind_r (get_account stake_idx) (\<lambda>acc.
    let available = withdraw_available state meta (clock_epoch (sv_clock sysvars)) (acc_lamports (ar_account acc)) in
    then_r (require (lamports \<le> available) (InsufficientFunds lamports available))
    (then_r (with_account_mut stake_idx (debit lamports))
    (with_account_mut to_idx (credit lamports)))))))))))))"

definition split_stake_amount :: "u64 \<Rightarrow> u64 \<Rightarrow> u64 \<Rightarrow> u64" where
  "split_stake_amount stake lamports original_total =
     (if 0 < original_total then of_nat (unat stake * unat lamports div unat original_total) else 0)"

text \<open>The state written to the destination of a split, and the update of its source.\<close>

definition split_state_of :: "stake_meta \<Rightarrow> stake option \<Rightarrow> u64 \<Rightarrow> u64 \<Rightarrow> u64 \<Rightarrow> stake_state" where
  "split_state_of meta stake_opt lamports original_total split_rent_exempt =
    (let split_meta = meta\<lparr>rent_exempt_reserve := split_rent_exempt\<rparr> in
     case stake_opt of
       Some s \<Rightarrow> StakeDelegated split_meta (s\<lparr>stake_delegation := (stake_delegation s)\<lparr>delegation_stake :=
           split_stake_amount (delegation_stake (stake_delegation s)) lamports original_total\<rparr>\<rparr>)
     | None \<Rightarrow> StakeInitialized split_meta)"

definition split_source :: "env \<Rightarrow> nat \<Rightarrow> stake_meta \<Rightarrow> stake option \<Rightarrow> u64 \<Rightarrow> u64 \<Rightarrow> unit rt" where
  "split_source E stake_idx meta stake_opt lamports original_total =
    (case stake_opt of
        Some s \<Rightarrow>
          (let amount = split_stake_amount (delegation_stake (stake_delegation s)) lamports original_total in
           bind_r (ok_or (checked_sub (delegation_stake (stake_delegation s)) amount)
                     (InsufficientFunds amount (delegation_stake (stake_delegation s)))) (\<lambda>rest.
           bind_r (map_err (to_vec (stake_state_fmt E) (StakeDelegated meta
                     (s\<lparr>stake_delegation := (stake_delegation s)\<lparr>delegation_stake := rest\<rparr>\<rparr>)))
                     InvalidAccountData) (\<lambda>source_data.
           with_account_mut stake_idx (then_r (debit lamports) (modify (\<lambda>a. a\<lparr>acc_data := source_data\<rparr>))))))
      | None \<Rightarrow> with_account_mut stake_idx (debit lamports))"

definition stake_split :: "env \<Rightarrow> bytes \<Rightarrow> u64 \<Rightarrow> sysvar_cache \<Rightarrow> unit rt" where
  "stake_split E accounts lamports sysvars =
    then_r (require_accounts accounts 3 ''Split'')
    (bind_r (account_index accounts 0) (\<lambda>stake_idx.
    bind_r (account_index accounts 1) (\<lambda>split_idx.
    bind_r (account_index accounts 2) (\<lambda>staker_idx.
    then_r (require (stake_idx \<noteq> split_idx) (AccountIndexAliasing stake_idx split_idx))
    (bind_r (require_signer staker_idx) (\<lambda>staker_address.
    then_r (require_stake_owned E stake_idx)
    (bind_r (load_state (stake_state_fmt E) stake_idx) (\<lambda>state.
    bind_r (case state of StakeInitialized m \<Rightarrow> return (m, None) | StakeDelegated m s \<Rightarrow> return (m, Some s)
            | _ \<Rightarrow> fail (InvalidAccountData ''stake account not initialized'')) (\<lambda>(meta, stake_opt).
    then_r (require (staker (meta_authorized meta) = staker_address) (AccountNotSigner staker_idx))
    (bind_r (get_account split_idx) (\<lambda>split_acc.
    then_r (require (acc_data (ar_account split_acc) = []) AccountAlreadyExists)
    (bind_r (get_account stake_idx) (\<lambda>acc.
    let original_total = saturating_sub (acc_lamports (ar_account acc)) (rent_exempt_reserve meta) in
    then_r (require (lamports \<le> original_total) (InsufficientFunds lamports original_total))
    (bind_r (get_account split_idx) (\<lambda>split_acc.
    bind_r (if acc_data (ar_account split_acc) = []
            then bind_r (get_account stake_idx) (\<lambda>src. return (length (acc_data (ar_account src))))
            else return (length (acc_data (ar_account split_acc)))) (\<lambda>data_len.
    let split_rent_exempt = minimum_balance (sv_rent sysvars) data_len in
    then_r (require (split_rent_exempt \<le> lamports) (RentNotMet split_rent_exempt lamports))
    (bind_r (map_err (to_vec (stake_state_fmt E)
               (split_state_of meta stake_opt lamports original_total split_rent_exempt)) InvalidAccountData)
      (\<lambda>split_data.
    then_r (split_source E stake_idx meta stake_opt lamports original_total)
    (with_account_mut split_idx (then_r (credit lamports)
       (modify (\<lambda>a. a\<lparr>acc_data := split_data, acc_owner := STAKE_PROGRAM_ID E\<rparr>))))))))))))))))))))))"

definition process_stake :: "env \<Rightarrow> bytes \<Rightarrow> bytes \<Rightarrow> sysvar_cache \<Rightarrow> unit rt" where
  "process_stake E accounts data sysvars =
    then_r (consume_compute STAKE_BASE_COST)
    (bind_r (map_err (try_from_slice (stake_ix_fmt E) data) InvalidInstructionData) (\<lambda>instruction.
    (case instruction of
       StakeInitialize authorized lockup \<Rightarrow> stake_initialize E accounts authorized lockup sysvars
     | DelegateStake \<Rightarrow> stake_delegate E accounts sysvars
     | StakeDeactivate \<Rightarrow> stake_deactivate E accounts sysvars
     | StakeWithdraw lamports \<Rightarrow> stake_withdraw E accounts lamports sysvars
     | StakeSplit lamports \<Rightarrow> stake_split E accounts lamports sysvars
     | _ \<Rightarrow> fail (ProgramError ''stake'' ''instruction not yet implemented''))))"

section \<open>Frame and conservation\<close>

lemma frame_stake_cases [frame_intros]:
  "frame.keeps (case st of StakeUninitialized \<Rightarrow> a | StakeInitialized m \<Rightarrow> return (f m)
      | StakeDelegated m s \<Rightarrow> return (g m s) | RewardsPool \<Rightarrow> b)"
  if "frame.keeps a" "frame.keeps b"
  using that by (cases st) (auto intro: frame_intros)

lemma frame_stake_initialize [frame_intros]:
  "frame.keeps (stake_initialize E accounts authorized lockup sysvars)"
  unfolding stake_initialize_def require_stake_owned_def Let_def
  by (intro frame_intros frame.keeps_if)

lemma frame_stake_delegate [frame_intros]: "frame.keeps (stake_delegate E accounts sysvars)"
  unfolding stake_delegate_def require_stake_owned_def Let_def
  by (intro frame_intros) (auto split: stake_state.split intro: frame_intros)

lemma frame_stake_deactivate [frame_intros]: "frame.keeps (stake_deactivate E accounts sysvars)"
  unfolding stake_deactivate_def require_stake_owned_def case_prod_beta
  by (intro frame_intros) (auto split: stake_state.split intro: frame_intros)

lemma frame_stake_withdraw [frame_intros]: "frame.keeps (stake_withdraw E accounts lamports sysvars)"
  unfolding stake_withdraw_def Let_def by (intro frame_intros)

lemma frame_split_source [frame_intros]:
  "frame.keeps (split_source E stake_idx meta stake_opt lamports original_total)"
  unfolding split_source_def Let_def
  by (intro frame_intros frame.keeps_option) (simp add: exec_mono_def)

lemma frame_stake_split [frame_intros]: "frame.keeps (stake_split E accounts lamports sysvars)"
  unfolding stake_split_def require_stake_owned_def Let_def case_prod_beta
  by (intro frame_intros frame.keeps_if)
     (auto simp: exec_mono_def split: stake_state.split intro: frame_intros)

lemma frame_process_stake [frame_intros]: "frame.keeps (process_stake E accounts data sysvars)"
  unfolding process_stake_def
  by (intro frame_intros) (auto split: stake_instruction.split intro: frame_intros)

lemma total_require_stake_owned [total_intros]: "total.keeps_ok (require_stake_owned E i)"
  unfolding require_stake_owned_def by (intro total_intros total.keeps_ok_bind)

lemma total_stake_initialize [total_intros]:
  "total.keeps_ok (stake_initialize E accounts authorized lockup sysvars)"
  unfolding stake_initialize_def Let_def
  by (intro total_intros total.keeps_ok_if total.keeps_ok_bind)

lemma total_stake_delegate [total_intros]: "total.keeps_ok (stake_delegate E accounts sysvars)"
  unfolding stake_delegate_def Let_def
  by (intro total_intros total.keeps_ok_bind) (auto split: stake_state.split intro: total_intros)

lemma total_stake_deactivate [total_intros]: "total.keeps_ok (stake_deactivate E accounts sysvars)"
  unfolding stake_deactivate_def case_prod_beta
  by (intro total_intros total.keeps_ok_bind) (auto split: stake_state.split intro: total_intros)

lemma total_stake_withdraw [total_intros]: "total.keeps_ok (stake_withdraw E accounts lamports sysvars)"
  unfolding stake_withdraw_def Let_def
  by (intro total_transfer_last total_intros total.keeps_ok_bind)
    (auto split: stake_state.split intro: total_intros)

lemma shift_split_source:
  "total_shift (split_source E stake_idx meta stake_opt lamports original_total) (unat lamports) 0"
  unfolding split_source_def Let_def
  by (cases stake_opt)
    (auto simp: same_lamports_def intro!: shift_debit shift_debit_modify keeps_then_shift total_intros)

lemma total_split_writes:
  "total.keeps_ok (then_r (split_source E i meta stake_opt lamports original_total)
     (with_account_mut j (then_r (credit lamports) (modify (\<lambda>a. a\<lparr>acc_data := d, acc_owner := h\<rparr>)))))"
  by (rule total_pair [OF shift_split_source shift_credit_modify]) (simp add: same_lamports_def)

lemma total_stake_split [total_intros]: "total.keeps_ok (stake_split E accounts lamports sysvars)"
  unfolding stake_split_def Let_def case_prod_beta
  by (intro total_split_writes total_intros total.keeps_ok_if total.keeps_ok_bind)
    (auto split: stake_state.split intro: total_intros)

lemma total_process_stake [total_intros]: "total.keeps_ok (process_stake E accounts data sysvars)"
  unfolding process_stake_def
  by (intro total_intros total.keeps_ok_bind) (auto split: stake_instruction.split intro: total_intros)

interpretation stake_processor: conserving_processor "process_stake E" for E
  by unfold_locales (rule frame_process_stake total_process_stake)+

section \<open>The lifecycle of a stake account\<close>

text \<open>
  The transitions a stake account goes through, for the addresses that auth and the epoch of the
  clock. A destination of a split starts uninitialized and takes a part of the delegation.
\<close>

inductive stake_trans :: "(hash \<Rightarrow> bool) \<Rightarrow> u64 \<Rightarrow> stake_state \<Rightarrow> stake_state \<Rightarrow> bool"
  for auth :: "hash \<Rightarrow> bool" and epoch :: u64 where
  initialize: "stake_trans auth epoch StakeUninitialized (StakeInitialized m)"
| split_into: "auth (staker (meta_authorized m)) \<Longrightarrow>
    stake_trans auth epoch StakeUninitialized (StakeDelegated m d)"
| delegate: "auth (staker (meta_authorized m)) \<Longrightarrow> activation_epoch (stake_delegation d) = epoch \<Longrightarrow>
    deactivation_epoch (stake_delegation d) = - 1 \<Longrightarrow>
    DEFAULT_MIN_DELEGATION \<le> delegation_stake (stake_delegation d) \<Longrightarrow>
    stake_trans auth epoch (StakeInitialized m) (StakeDelegated m d)"
| split_from: "auth (staker (meta_authorized m)) \<Longrightarrow> n \<le> delegation_stake (stake_delegation d) \<Longrightarrow>
    stake_trans auth epoch (StakeDelegated m d)
      (StakeDelegated m (d\<lparr>stake_delegation := (stake_delegation d)\<lparr>delegation_stake := n\<rparr>\<rparr>))"
| deactivate: "auth (staker (meta_authorized m)) \<Longrightarrow> deactivation_epoch (stake_delegation d) = - 1 \<Longrightarrow>
    stake_trans auth epoch (StakeDelegated m d)
      (StakeDelegated m (d\<lparr>stake_delegation := (stake_delegation d)\<lparr>deactivation_epoch := epoch\<rparr>\<rparr>))"

definition signed_by :: "tx_ctx \<Rightarrow> hash \<Rightarrow> bool" where
  "signed_by s h \<longleftrightarrow> (\<exists>k < length (ctx_accounts s). fst (ctx_accounts s ! k) = h \<and> is_signer (ctx_message s) k)"

definition stake_state_of :: "env \<Rightarrow> account \<Rightarrow> stake_state \<Rightarrow> bool" where
  "stake_state_of E a st \<longleftrightarrow>
     (acc_data a = [] \<and> st = StakeUninitialized) \<or> deserialize (stake_state_fmt E) (acc_data a) = Inr st"

definition stake_step :: "env \<Rightarrow> u64 \<Rightarrow> tx_ctx \<Rightarrow> tx_ctx \<Rightarrow> bool" where
  "stake_step E epoch s t \<longleftrightarrow> (\<forall>i < length (ctx_accounts s).
     let a = snd (ctx_accounts s ! i); b = snd (ctx_accounts t ! i) in
     acc_data b = acc_data a \<or>
     (\<exists>st st'. stake_state_of E a st \<and> stake_state_of E b st' \<and> stake_trans (signed_by s) epoch st st'))"

lemma stake_step_one:
  assumes "\<And>j. j < length (ctx_accounts s) \<Longrightarrow> j \<noteq> i \<Longrightarrow>
      acc_data (snd (ctx_accounts t ! j)) = acc_data (snd (ctx_accounts s ! j))"
    and "stake_state_of E (snd (ctx_accounts s ! i)) st" and "stake_state_of E (snd (ctx_accounts t ! i)) st'"
    and "stake_trans (signed_by s) epoch st st'"
  shows "stake_step E epoch s t"
  unfolding stake_step_def Let_def
proof (intro allI impI)
  fix j
  assume "j < length (ctx_accounts s)"
  then show "acc_data (snd (ctx_accounts t ! j)) = acc_data (snd (ctx_accounts s ! j)) \<or>
    (\<exists>st st'. stake_state_of E (snd (ctx_accounts s ! j)) st \<and> stake_state_of E (snd (ctx_accounts t ! j)) st' \<and>
       stake_trans (signed_by s) epoch st st')"
    using assms by (cases "j = i") auto
qed

definition stake_opt_of :: "stake_state \<Rightarrow> (stake_meta \<times> stake option) option" where
  "stake_opt_of st = (case st of StakeInitialized m \<Rightarrow> Some (m, None) | StakeDelegated m d \<Rightarrow> Some (m, Some d) | _ \<Rightarrow> None)"

lemma stake_opt_case_Ok [ok_iff]:
  "(case st of StakeUninitialized \<Rightarrow> fail e | StakeInitialized m \<Rightarrow> return (m, None)
      | StakeDelegated m d \<Rightarrow> return (m, Some d) | RewardsPool \<Rightarrow> fail e) s = (Ok x, t) \<longleftrightarrow>
   stake_opt_of st = Some x \<and> t = s"
  by (cases st) (auto simp: stake_opt_of_def ok_iff)

lemma stake_initialized_case_Ok [ok_iff]:
  "(case st of StakeUninitialized \<Rightarrow> fail e | StakeInitialized m \<Rightarrow> return m
      | StakeDelegated m d \<Rightarrow> fail e | RewardsPool \<Rightarrow> fail e) s = (Ok x, t) \<longleftrightarrow>
   st = StakeInitialized x \<and> t = s"
  by (cases st) (auto simp: ok_iff)

lemma stake_delegated_case_Ok [ok_iff]:
  "(case st of StakeUninitialized \<Rightarrow> fail e | StakeInitialized m \<Rightarrow> fail e
      | StakeDelegated m d \<Rightarrow> return (m, d) | RewardsPool \<Rightarrow> fail e) s = (Ok x, t) \<longleftrightarrow>
   st = StakeDelegated (fst x) (snd x) \<and> t = s"
  by (cases st) (auto simp: ok_iff)

lemma stake_meta_case_Ok [ok_iff]:
  "(case st of StakeUninitialized \<Rightarrow> fail e | StakeInitialized m \<Rightarrow> return m
      | StakeDelegated m d \<Rightarrow> return m | RewardsPool \<Rightarrow> fail e) s = (Ok x, t) \<longleftrightarrow>
   (\<exists>d. stake_opt_of st = Some (x, d)) \<and> t = s"
  by (cases st) (auto simp: ok_iff stake_opt_of_def)

lemma stake_withdraw_Ok:
  assumes "stake_withdraw E accounts n sysvars s = (Ok x, t)"
  defines "i \<equiv> unat (accounts ! 0)" and "j \<equiv> unat (accounts ! 1)" and "k \<equiv> unat (accounts ! 2)"
  obtains st m d u where "3 \<le> length accounts" "i < length (ctx_accounts s)"
    "k < length (ctx_accounts s)" "is_signer (ctx_message s) k"
    "deserialize (stake_state_fmt E) (acc_data (snd (ctx_accounts s ! i))) = Inr st"
    "stake_opt_of st = Some (m, d)" "withdrawer (meta_authorized m) = fst (ctx_accounts s ! k)"
    "sint (lockup_unix_timestamp (meta_lockup m)) \<le> sint (unix_timestamp (sv_clock sysvars))"
    "lockup_epoch (meta_lockup m) \<le> clock_epoch (sv_clock sysvars)"
    "n \<le> withdraw_available st m (clock_epoch (sv_clock sysvars)) (acc_lamports (snd (ctx_accounts s ! i)))"
    "with_account_mut i (debit n) s = (Ok (), u)" "with_account_mut j (credit n) u = (Ok x, t)"
  using assms(1)
  by (auto simp: stake_withdraw_def ok_iff Let_def i_def j_def k_def not_less simp del: with_account_mut_Ok_iff)

lemma stake_split_Ok:
  assumes "stake_split E accounts n sysvars s = (Ok x, t)"
  defines "i \<equiv> unat (accounts ! 0)" and "j \<equiv> unat (accounts ! 1)" and "k \<equiv> unat (accounts ! 2)"
  obtains st m d u sd r where "3 \<le> length accounts" "i \<noteq> j" "i < length (ctx_accounts s)"
    "j < length (ctx_accounts s)" "k < length (ctx_accounts s)" "is_signer (ctx_message s) k"
    "acc_owner (snd (ctx_accounts s ! i)) = STAKE_PROGRAM_ID E"
    "deserialize (stake_state_fmt E) (acc_data (snd (ctx_accounts s ! i))) = Inr st"
    "stake_opt_of st = Some (m, d)"
    "staker (meta_authorized m) = fst (ctx_accounts s ! k)"
    "acc_data (snd (ctx_accounts s ! j)) = []"
    "r = minimum_balance (sv_rent sysvars) (length (acc_data (snd (ctx_accounts s ! i))))"
    "n \<le> saturating_sub (acc_lamports (snd (ctx_accounts s ! i))) (rent_exempt_reserve m)"
    "r \<le> n"
    "to_vec (stake_state_fmt E) (split_state_of m d n
       (saturating_sub (acc_lamports (snd (ctx_accounts s ! i))) (rent_exempt_reserve m)) r) = Inr sd"
    "split_source E i m d n (saturating_sub (acc_lamports (snd (ctx_accounts s ! i))) (rent_exempt_reserve m)) s = (Ok (), u)"
    "with_account_mut j (then_r (credit n)
       (modify (\<lambda>a. a\<lparr>acc_data := sd, acc_owner := STAKE_PROGRAM_ID E\<rparr>))) u = (Ok x, t)"
  using assms(1)
  by (auto simp: stake_split_def require_stake_owned_def ok_iff Let_def i_def j_def k_def simp del: with_account_mut_Ok_iff)

lemma signed_by_charge: "signed_by (s\<lparr>ctx_meter := m\<rparr>) = signed_by s"
  by (simp add: signed_by_def fun_eq_iff)

lemma signed_byI: "k < length (ctx_accounts s) \<Longrightarrow> is_signer (ctx_message s) k \<Longrightarrow> signed_by s (fst (ctx_accounts s ! k))"
  by (auto simp: signed_by_def)

lemma stake_state_of_saved:
  "borsh_codec (stake_state_fmt E) \<Longrightarrow> to_vec (stake_state_fmt E) st = Inr b \<Longrightarrow> acc_data a = b \<Longrightarrow> stake_state_of E a st"
  by (simp add: stake_state_of_def borsh_codec.deserialize_to_vec_exact)

lemma stake_state_of_loaded:
  "deserialize (stake_state_fmt E) (acc_data a) = Inr st \<Longrightarrow> stake_state_of E a st"
  by (simp add: stake_state_of_def)

lemma step_save_state:
  assumes "borsh_codec (stake_state_fmt E)" and "save_state (stake_state_fmt E) i st' s = (Ok x, t)"
    and "stake_state_of E (snd (ctx_accounts s ! i)) st" and "stake_trans (signed_by s) epoch st st'"
  shows "stake_step E epoch s t"
proof (rule stake_step_one [OF _ assms(3) _ assms(4)])
  from assms(2) obtain d where "i < length (ctx_accounts s)" "to_vec (stake_state_fmt E) st' = Inr d"
    "t = s\<lparr>ctx_accounts := (ctx_accounts s)
       [i := (fst (ctx_accounts s ! i), (snd (ctx_accounts s ! i))\<lparr>acc_data := d\<rparr>)]\<rparr>"
    by (auto simp: ok_iff)
  then show "stake_state_of E (snd (ctx_accounts t ! i)) st'"
    and "\<And>j. j \<noteq> i \<Longrightarrow> acc_data (snd (ctx_accounts t ! j)) = acc_data (snd (ctx_accounts s ! j))"
    by (auto intro: stake_state_of_saved [OF assms(1)])
qed

lemma step_initialize:
  assumes "borsh_codec (stake_state_fmt E)"
    and "stake_initialize E accounts authorized lockup sysvars s = (Ok x, t)"
  shows "stake_step E epoch s t"
proof -
  let ?i = "unat (accounts ! 0)"
  from assms(2) obtain m where "save_state (stake_state_fmt E) ?i (StakeInitialized m) s = (Ok x, t)"
    and "stake_state_of E (snd (ctx_accounts s ! ?i)) StakeUninitialized"
    by (auto simp: stake_initialize_def require_stake_owned_def ok_iff Let_def stake_state_of_def
        simp del: save_state_Ok_iff split: if_splits)
  from step_save_state [OF assms(1) this stake_trans.initialize] show ?thesis .
qed

lemma step_delegate:
  assumes "borsh_codec (stake_state_fmt E)" and "stake_delegate E accounts sysvars s = (Ok x, t)"
  shows "stake_step E (clock_epoch (sv_clock sysvars)) s t"
proof -
  let ?i = "unat (accounts ! 0)"
  from assms(2) obtain m d where f: "save_state (stake_state_fmt E) ?i (StakeDelegated m d) s = (Ok x, t)"
    "stake_state_of E (snd (ctx_accounts s ! ?i)) (StakeInitialized m)"
    "signed_by s (staker (meta_authorized m))" "activation_epoch (stake_delegation d) = clock_epoch (sv_clock sysvars)"
    "deactivation_epoch (stake_delegation d) = - 1" "DEFAULT_MIN_DELEGATION \<le> delegation_stake (stake_delegation d)"
    by (auto simp: stake_delegate_def require_stake_owned_def ok_iff Let_def signed_byI stake_state_of_loaded
        simp del: save_state_Ok_iff)
  from step_save_state [OF assms(1) f(1,2) stake_trans.delegate [where auth = "signed_by s", OF f(3-)]] show ?thesis .
qed

lemma step_deactivate:
  assumes "borsh_codec (stake_state_fmt E)" and "stake_deactivate E accounts sysvars s = (Ok x, t)"
  shows "stake_step E (clock_epoch (sv_clock sysvars)) s t"
proof -
  let ?i = "unat (accounts ! 0)"
  from assms(2) obtain m d where f: "save_state (stake_state_fmt E) ?i (StakeDelegated m
        (d\<lparr>stake_delegation := (stake_delegation d)\<lparr>deactivation_epoch := clock_epoch (sv_clock sysvars)\<rparr>\<rparr>)) s = (Ok x, t)"
    "stake_state_of E (snd (ctx_accounts s ! ?i)) (StakeDelegated m d)"
    "signed_by s (staker (meta_authorized m))" "deactivation_epoch (stake_delegation d) = - 1"
    by (auto simp: stake_deactivate_def require_stake_owned_def ok_iff signed_byI stake_state_of_loaded
        simp del: save_state_Ok_iff)
  from step_save_state [OF assms(1) f(1,2) stake_trans.deactivate [where auth = "signed_by s", OF f(3-)]] show ?thesis .
qed

lemma debit_keeps_data:
  "with_account_mut i (debit n) s = (Ok x, t) \<Longrightarrow>
   acc_data (snd (ctx_accounts t ! j)) = acc_data (snd (ctx_accounts s ! j))"
  by (cases "i = j") (auto simp: ok_iff)

lemma credit_keeps_data:
  "with_account_mut i (credit n) s = (Ok x, t) \<Longrightarrow>
   acc_data (snd (ctx_accounts t ! j)) = acc_data (snd (ctx_accounts s ! j))"
  by (cases "i = j") (auto simp: ok_iff)

lemma step_withdraw:
  assumes "stake_withdraw E accounts n sysvars s = (Ok x, t)"
  shows "stake_step E epoch s t"
  using assms
proof (rule stake_withdraw_Ok)
  fix u
  assume u: "with_account_mut (unat (accounts ! 0)) (debit n) s = (Ok (), u)"
    and t: "with_account_mut (unat (accounts ! 1)) (credit n) u = (Ok x, t)"
  have "acc_data (snd (ctx_accounts t ! j)) = acc_data (snd (ctx_accounts s ! j))" for j
    by (simp add: debit_keeps_data [OF u] credit_keeps_data [OF t])
  then show ?thesis by (simp add: stake_step_def)
qed

lemma split_stake_amount_le:
  assumes "l \<le> tot"
  shows "unat (split_stake_amount n l tot) = unat n * unat l div unat tot"
    and "split_stake_amount n l tot \<le> n"
proof -
  have "unat n * unat l div unat tot \<le> unat n"
    using assms by (cases "unat tot = 0")
      (simp_all add: word_le_nat_alt div_le_mono mult_le_mono order.trans [OF div_le_mono [of _ "unat n * unat tot"]])
  moreover from this have "unat n * unat l div unat tot < 2 ^ LENGTH(64)"
    using unat_bound [of n] by simp
  ultimately show "unat (split_stake_amount n l tot) = unat n * unat l div unat tot"
    and "split_stake_amount n l tot \<le> n"
    by (auto simp: split_stake_amount_def unat_of_nat_small word_le_nat_alt word_gt_0)
qed

lemma split_source_delegated:
  assumes "split_source E i m (Some d) n tot s = (Ok x, u)" and "n \<le> tot"
  defines "k \<equiv> delegation_stake (stake_delegation d) - split_stake_amount (delegation_stake (stake_delegation d)) n tot"
  obtains b where "to_vec (stake_state_fmt E)
      (StakeDelegated m (d\<lparr>stake_delegation := (stake_delegation d)\<lparr>delegation_stake := k\<rparr>\<rparr>)) = Inr b"
    and "i < length (ctx_accounts s)" and "n \<le> acc_lamports (snd (ctx_accounts s ! i))"
    and "u = s\<lparr>ctx_accounts := (ctx_accounts s)[i := (fst (ctx_accounts s ! i), (snd (ctx_accounts s ! i))
           \<lparr>acc_lamports := acc_lamports (snd (ctx_accounts s ! i)) - n, acc_data := b\<rparr>)]\<rparr>"
  using assms(1) by (auto simp: split_source_def ok_iff Let_def checked_sub_Some k_def)

lemma split_source_initialized:
  "split_source E i m None n tot s = (Ok x, u) \<longleftrightarrow> with_account_mut i (debit n) s = (Ok x, u)"
  by (simp add: split_source_def)

lemma split_source_step:
  assumes "borsh_codec (stake_state_fmt E)" and "split_source E i m (Some d) n tot s = (Ok x, u)"
    and "n \<le> tot" and "deserialize (stake_state_fmt E) (acc_data (snd (ctx_accounts s ! i))) = Inr (StakeDelegated m d)"
    and "signed_by s (staker (meta_authorized m))"
  shows "acc_data (snd (ctx_accounts u ! l)) = acc_data (snd (ctx_accounts s ! l)) \<or>
      (\<exists>st st'. stake_state_of E (snd (ctx_accounts s ! l)) st \<and> stake_state_of E (snd (ctx_accounts u ! l)) st' \<and>
         stake_trans (signed_by s) epoch st st')"
proof (cases "l = i")
  case True
  let ?a = "delegation_stake (stake_delegation d)"
  have k: "?a - split_stake_amount ?a n tot \<le> ?a"
    by (rule word_sub_le) (rule split_stake_amount_le(2) [OF assms(3)])
  from assms(2,3) obtain b where "to_vec (stake_state_fmt E) (StakeDelegated m
      (d\<lparr>stake_delegation := (stake_delegation d)\<lparr>delegation_stake := ?a - split_stake_amount ?a n tot\<rparr>\<rparr>)) = Inr b"
    and "acc_data (snd (ctx_accounts u ! i)) = b"
    by (rule split_source_delegated) auto
  from stake_state_of_saved [OF assms(1) this] stake_state_of_loaded [OF assms(4)]
    stake_trans.split_from [where auth = "signed_by s", OF assms(5) k] True
  show ?thesis by blast
next
  case False
  from assms(2,3) show ?thesis by (rule split_source_delegated) (use False in auto)
qed

lemma step_split:
  assumes c: "borsh_codec (stake_state_fmt E)" and r: "stake_split E accounts n sysvars s = (Ok x, t)"
  shows "stake_step E epoch s t"
  using r
proof (rule stake_split_Ok)
  let ?i = "unat (accounts ! 0)" and ?j = "unat (accounts ! 1)" and ?k = "unat (accounts ! 2)"
  fix st and m :: stake_meta and d u sd rent
  let ?tot = "saturating_sub (acc_lamports (snd (ctx_accounts s ! ?i))) (rent_exempt_reserve m)"
  assume ij: "?i \<noteq> ?j" "?i < length (ctx_accounts s)" "?j < length (ctx_accounts s)"
    and k: "?k < length (ctx_accounts s)" "is_signer (ctx_message s) ?k" "staker (meta_authorized m) = fst (ctx_accounts s ! ?k)"
    and st: "deserialize (stake_state_fmt E) (acc_data (snd (ctx_accounts s ! ?i))) = Inr st" "stake_opt_of st = Some (m, d)"
    and e: "acc_data (snd (ctx_accounts s ! ?j)) = []" and n: "n \<le> ?tot"
    and sd: "to_vec (stake_state_fmt E) (split_state_of m d n ?tot rent) = Inr sd"
    and u: "split_source E ?i m d n ?tot s = (Ok (), u)"
    and t: "with_account_mut ?j (then_r (credit n)
      (modify (\<lambda>a. a\<lparr>acc_data := sd, acc_owner := STAKE_PROGRAM_ID E\<rparr>))) u = (Ok x, t)"
  have auth: "signed_by s (staker (meta_authorized m))" using k by (simp add: signed_byI)
  have dst: "stake_state_of E (snd (ctx_accounts t ! ?j)) (split_state_of m d n ?tot rent)"
    using t by (auto simp: ok_iff intro: stake_state_of_saved [OF c sd])
  have other: "snd (ctx_accounts t ! l) = snd (ctx_accounts u ! l)" if "l \<noteq> ?j" for l
    using t that by (auto simp: ok_iff)
  have into: "stake_trans (signed_by s) epoch StakeUninitialized (split_state_of m d n ?tot rent)"
    using auth by (cases d) (auto simp: split_state_of_def Let_def intro: stake_trans.intros)
  have src: "acc_data (snd (ctx_accounts u ! l)) = acc_data (snd (ctx_accounts s ! l)) \<or>
      (\<exists>st st'. stake_state_of E (snd (ctx_accounts s ! l)) st \<and> stake_state_of E (snd (ctx_accounts u ! l)) st' \<and>
         stake_trans (signed_by s) epoch st st')" for l
  proof (cases d)
    case None
    with u show ?thesis by (simp add: split_source_initialized debit_keeps_data)
  next
    case (Some dl)
    with st have "st = StakeDelegated m dl" by (simp add: stake_opt_of_def split: stake_state.splits)
    with split_source_step [OF c u [unfolded Some] n _ auth] st show ?thesis by simp
  qed
  show ?thesis
    unfolding stake_step_def Let_def
  proof (intro allI impI)
    fix l
    show "acc_data (snd (ctx_accounts t ! l)) = acc_data (snd (ctx_accounts s ! l)) \<or>
      (\<exists>st st'. stake_state_of E (snd (ctx_accounts s ! l)) st \<and> stake_state_of E (snd (ctx_accounts t ! l)) st' \<and>
         stake_trans (signed_by s) epoch st st')"
    proof (cases "l = ?j")
      case True
      have "stake_state_of E (snd (ctx_accounts s ! ?j)) StakeUninitialized" using e by (simp add: stake_state_of_def)
      with dst into True show ?thesis by blast
    next
      case False
      from src [of l] other [OF False] show ?thesis by simp
    qed
  qed
qed

section \<open>Properties\<close>

text \<open>C14: every successful stake instruction is a lifecycle step: the data of an account stays as it
  was, or its state makes one transition of \<open>stake_trans\<close>, which needs the signature of the staker for
  everything but the first initialization.\<close>

theorem process_stake_lifecycle:
  assumes "borsh_codec (stake_state_fmt E)"
    and "process_stake E accounts data sysvars s = (Ok x, t)"
  shows "stake_step E (clock_epoch (sv_clock sysvars)) s t"
proof -
  have charge: "stake_step E epoch (s\<lparr>ctx_meter := m\<rparr>) t \<longleftrightarrow> stake_step E epoch s t" for m epoch
    by (simp add: stake_step_def signed_by_charge)
  from assms(2) obtain ix where "try_from_slice (stake_ix_fmt E) data = Inr ix"
    by (auto simp: process_stake_def ok_iff)
  with assms(2) show ?thesis
    by (cases ix) (auto simp: process_stake_def bind_Ok_iff consume_compute_Ok_iff map_err_Ok_iff fail_Ok_iff charge
      dest!: step_initialize [OF assms(1)] step_delegate [OF assms(1)] step_deactivate [OF assms(1)]
        step_withdraw step_split [OF assms(1)])
qed

text \<open>C15: a split of a delegated account divides the delegation exactly, with the same authorities, and
  leaves both sides their rent reserve.\<close>

theorem stake_split_divides:
  assumes c: "borsh_codec (stake_state_fmt E)" and r: "stake_split E accounts n sysvars s = (Ok x, t)"
    and st: "deserialize (stake_state_fmt E) (acc_data (snd (ctx_accounts s ! unat (accounts ! 0)))) = Inr (StakeDelegated m d)"
    and n: "n \<noteq> 0"
  shows "\<exists>m' d1 d2.
      stake_state_of E (snd (ctx_accounts t ! unat (accounts ! 0))) (StakeDelegated m d1) \<and>
      stake_state_of E (snd (ctx_accounts t ! unat (accounts ! 1))) (StakeDelegated m' d2) \<and>
      unat (delegation_stake (stake_delegation d1)) + unat (delegation_stake (stake_delegation d2)) =
        unat (delegation_stake (stake_delegation d)) \<and>
      meta_authorized m' = meta_authorized m \<and> meta_lockup m' = meta_lockup m \<and>
      rent_exempt_reserve m \<le> acc_lamports (snd (ctx_accounts t ! unat (accounts ! 0))) \<and>
      rent_exempt_reserve m' \<le> acc_lamports (snd (ctx_accounts t ! unat (accounts ! 1)))"
  using r
proof (rule stake_split_Ok)
  let ?i = "unat (accounts ! 0)" and ?j = "unat (accounts ! 1)" and ?a = "delegation_stake (stake_delegation d)"
  fix st' and m' :: stake_meta and d' u sd rent
  let ?tot = "saturating_sub (acc_lamports (snd (ctx_accounts s ! ?i))) (rent_exempt_reserve m')"
  let ?k = "split_stake_amount ?a n ?tot"
  assume ij: "?i \<noteq> ?j" and rn: "rent \<le> n" "n \<le> ?tot"
    and st': "deserialize (stake_state_fmt E) (acc_data (snd (ctx_accounts s ! ?i))) = Inr st'" "stake_opt_of st' = Some (m', d')"
    and sd: "to_vec (stake_state_fmt E) (split_state_of m' d' n ?tot rent) = Inr sd"
    and u: "split_source E ?i m' d' n ?tot s = (Ok (), u)"
    and t: "with_account_mut ?j (then_r (credit n)
      (modify (\<lambda>a. a\<lparr>acc_data := sd, acc_owner := STAKE_PROGRAM_ID E\<rparr>))) u = (Ok x, t)"
  from st st' have md: "m' = m" "d' = Some d" by (auto simp: stake_opt_of_def)
  from u [unfolded md(2)] rn(2) obtain b where b: "to_vec (stake_state_fmt E) (StakeDelegated m'
        (d\<lparr>stake_delegation := (stake_delegation d)\<lparr>delegation_stake := ?a - ?k\<rparr>\<rparr>)) = Inr b"
      "n \<le> acc_lamports (snd (ctx_accounts s ! ?i))"
    and src: "acc_data (snd (ctx_accounts u ! ?i)) = b"
      "acc_lamports (snd (ctx_accounts u ! ?i)) = acc_lamports (snd (ctx_accounts s ! ?i)) - n"
    by (rule split_source_delegated) auto
  from t ij have dst: "acc_data (snd (ctx_accounts t ! ?j)) = sd" "n \<le> acc_lamports (snd (ctx_accounts t ! ?j))"
    and ut: "ctx_accounts t ! ?i = ctx_accounts u ! ?i"
    by (auto simp: ok_iff word_le_nat_alt dest!: unat_checked_add)
  have "unat (?a - ?k) + unat ?k = unat ?a"
    using split_stake_amount_le(2) [OF rn(2), of ?a] by (simp add: unat_sub_le word_le_nat_alt)
  moreover have "rent_exempt_reserve m \<le> acc_lamports (snd (ctx_accounts s ! ?i)) - n"
    using rn(2) n b(2) by (auto simp: md saturating_sub_def word_le_nat_alt unat_sub_le unsigned_eq_0_iff split: if_splits)
  ultimately show ?thesis
    using stake_state_of_saved [OF c b(1) src(1)] stake_state_of_saved [OF c sd dst(1)] rn(1) dst(2) src(2) ut
    by (intro exI [of _ "m\<lparr>rent_exempt_reserve := rent\<rparr>"]
        exI [of _ "d\<lparr>stake_delegation := (stake_delegation d)\<lparr>delegation_stake := ?a - ?k\<rparr>\<rparr>"]
        exI [of _ "d\<lparr>stake_delegation := (stake_delegation d)\<lparr>delegation_stake := ?k\<rparr>\<rparr>"])
      (auto simp: md split_state_of_def)
qed

text \<open>
  The part of a delegation that has not cooled down: its stake less \<open>rate\<close> basis points of it for each epoch since
  the deactivation, the product being taken modulo \<open>2 ^ 128\<close> as the code computes it.
\<close>

definition still_staked :: "delegation \<Rightarrow> u64 \<Rightarrow> nat" where
  "still_staked d epoch = unat (delegation_stake d) -
     unat (delegation_stake d) * unat (warmup_cooldown_rate_bps d) * unat (epoch - deactivation_epoch d) mod 2 ^ 128 div 10000"

lemma unat_still_staked:
  "unat (saturating_sub (delegation_stake d) (cooled_stake d (epoch - deactivation_epoch d))) = still_staked d epoch"
proof -
  have "min (unat (delegation_stake d) * unat (warmup_cooldown_rate_bps d) * unat (epoch - deactivation_epoch d) mod 2 ^ 128 div 10000)
      (unat (delegation_stake d)) < 2 ^ 64"
    using unat_bounds(3) [of "delegation_stake d"] by simp
  then show ?thesis by (simp add: unat_saturating_sub cooled_stake_def unat_of_nat_small still_staked_def min_def)
qed

lemma saturating_room: "n \<le> saturating_sub l r \<Longrightarrow> n \<noteq> 0 \<Longrightarrow> unat r + unat n \<le> unat l"
  by (auto simp: saturating_sub_def word_le_nat_alt unat_sub_le unsigned_eq_0_iff split: if_splits)

text \<open>C16: a withdrawal of some lamports to another account needs an initialised stake account, the withdrawer's
  signature and a lockup that is over by time and by epoch, and takes exactly the amount. What is left covers the rent
  reserve of an account that is not delegated. A delegated account must have been deactivated in an earlier epoch, and
  what is left covers the sum, modulo \<open>2 ^ 64\<close>, of the rent reserve and the stake that has not cooled down.\<close>

theorem stake_withdraw_leaves_reserve:
  assumes r: "stake_withdraw E accounts n sysvars s = (Ok x, t)" and n: "n \<noteq> 0" and to: "accounts ! 1 \<noteq> accounts ! 0"
  defines "before \<equiv> snd (ctx_accounts s ! unat (accounts ! 0))" and "left \<equiv> unat (acc_lamports (snd (ctx_accounts t ! unat (accounts ! 0))))"
    and "epoch \<equiv> clock_epoch (sv_clock sysvars)"
  shows "\<exists>st m. deserialize (stake_state_fmt E) (acc_data before) = Inr st \<and>
     signed_by s (withdrawer (meta_authorized m)) \<and>
     sint (lockup_unix_timestamp (meta_lockup m)) \<le> sint (unix_timestamp (sv_clock sysvars)) \<and>
     lockup_epoch (meta_lockup m) \<le> epoch \<and> left + unat n = unat (acc_lamports before) \<and>
     (st = StakeInitialized m \<and> unat (rent_exempt_reserve m) \<le> left \<or>
      (\<exists>d. st = StakeDelegated m d \<and> deactivation_epoch (stake_delegation d) < epoch \<and>
         (unat (rent_exempt_reserve m) + still_staked (stake_delegation d) epoch) mod 2 ^ 64 \<le> left))"
  using r
proof (rule stake_withdraw_Ok)
  let ?i = "unat (accounts ! 0)" and ?j = "unat (accounts ! 1)" and ?k = "unat (accounts ! 2)"
  fix st and m :: stake_meta and d u
  assume k: "?k < length (ctx_accounts s)" "is_signer (ctx_message s) ?k" "withdrawer (meta_authorized m) = fst (ctx_accounts s ! ?k)"
    and st: "deserialize (stake_state_fmt E) (acc_data (snd (ctx_accounts s ! ?i))) = Inr st" "stake_opt_of st = Some (m, d)"
    and lock: "sint (lockup_unix_timestamp (meta_lockup m)) \<le> sint (unix_timestamp (sv_clock sysvars))"
      "lockup_epoch (meta_lockup m) \<le> clock_epoch (sv_clock sysvars)"
    and av: "n \<le> withdraw_available st m (clock_epoch (sv_clock sysvars)) (acc_lamports (snd (ctx_accounts s ! ?i)))"
    and u: "with_account_mut ?i (debit n) s = (Ok (), u)" and t: "with_account_mut ?j (credit n) u = (Ok x, t)"
  have "?i \<noteq> ?j" using to by (auto simp: word_unat_eq_iff)
  with u t have "acc_lamports (snd (ctx_accounts t ! ?i)) = acc_lamports before - n" "n \<le> acc_lamports before"
    by (auto simp: ok_iff before_def)
  then have left: "left + unat n = unat (acc_lamports before)" by (simp add: left_def unat_sub_le word_le_nat_alt)
  have "st = StakeInitialized m \<and> unat (rent_exempt_reserve m) \<le> left \<or>
      (\<exists>d. st = StakeDelegated m d \<and> deactivation_epoch (stake_delegation d) < epoch \<and>
         (unat (rent_exempt_reserve m) + still_staked (stake_delegation d) epoch) mod 2 ^ 64 \<le> left)"
  proof (cases st)
    case (StakeInitialized m')
    with st(2) have "m' = m" by (simp add: stake_opt_of_def)
    then show ?thesis
      using saturating_room [OF _ n] av left StakeInitialized by (force simp: withdraw_available_def before_def)
  next
    case (StakeDelegated m' d')
    with st(2) have m': "m' = m" by (simp add: stake_opt_of_def)
    have e: "deactivation_epoch (stake_delegation d') < epoch"
      using av n StakeDelegated by (auto simp: withdraw_available_def not_le epoch_def split: if_splits)
    define still where "still = saturating_sub (delegation_stake (stake_delegation d'))
        (cooled_stake (stake_delegation d') (epoch - deactivation_epoch (stake_delegation d')))"
    have "n \<le> saturating_sub (acc_lamports before) (rent_exempt_reserve m + still)"
      using av e StakeDelegated by (simp add: withdraw_available_def still_def epoch_def before_def Let_def linorder_not_le [symmetric])
    from saturating_room [OF this n] left have "unat (rent_exempt_reserve m + still) \<le> left" by simp
    then show ?thesis
      using e StakeDelegated m' by (simp add: unat_word_ariths unat_still_staked [symmetric] still_def)
  qed (use st in \<open>simp_all add: stake_opt_of_def\<close>)
  with k st lock left show ?thesis by (auto simp: before_def epoch_def intro: signed_byI)
qed

section \<open>Witnesses\<close>

definition stake_bytes :: "stake_state \<Rightarrow> bytes" where
  "stake_bytes st = (case to_vec stake_state_codec st of Inr b \<Rightarrow> b | Inl _ \<Rightarrow> [])"

lemma to_vec_stake_bytes: "to_vec stake_state_codec st = Inr (stake_bytes st)"
  by (cases st) (simp_all add: stake_bytes_def codec_simps)

lemma deserialize_stake_bytes: "deserialize stake_state_codec (stake_bytes st) = Inr st"
  by (rule stake_state_format.deserialize_to_vec_exact) (rule to_vec_stake_bytes)

lemma length_stake_bytes:
  "length (stake_bytes (StakeInitialized m)) = 217" "length (stake_bytes (StakeDelegated m d)) = 321"
  by (simp_all add: stake_bytes_def codec_simps)

definition sample_meta :: stake_meta where
  "sample_meta = \<lparr>rent_exempt_reserve = 1000, meta_authorized = \<lparr>staker = 2, withdrawer = 2\<rparr>,
     meta_lockup = \<lparr>lockup_unix_timestamp = 0, lockup_epoch = 0, custodian = 0\<rparr>\<rparr>"

definition sample_stake :: "u64 \<Rightarrow> stake" where
  "sample_stake e = \<lparr>stake_delegation = \<lparr>voter_pubkey = 3, delegation_stake = 9000000, activation_epoch = 1,
     deactivation_epoch = e, warmup_cooldown_rate_bps = 2500\<rparr>, credits_observed = 0\<rparr>"

definition sample_stake_ctx :: "stake_state \<Rightarrow> tx_ctx" where
  "sample_stake_ctx st = sample_ctx [sample_account 9001000 (STAKE_PROGRAM_ID sample_env) (stake_bytes st),
     sample_account 0 0 [], sample_account 0 0 []]"

lemmas sample_stake_simps = run_simps sample_env_def sample_stake_ctx_def sample_stake_def sample_meta_def
  to_vec_stake_bytes deserialize_stake_bytes length_stake_bytes require_stake_owned_def minimum_balance_def
  rent_default_def saturating_mul_def saturating_sub_def Let_def

lemma sample_split_Ok:
  "fst (stake_split sample_env [0, 2, 1] 4000000 sample_sysvars
     (sample_stake_ctx (StakeDelegated sample_meta (sample_stake 3)))) = Ok ()"
  by (simp add: stake_split_def split_source_def split_state_of_def split_stake_amount_def sample_stake_simps)

lemma sample_codec: "borsh_codec (stake_state_fmt sample_env)"
  by (simp add: sample_env_def stake_state_format.borsh_codec_axioms)

theorem process_stake_lifecycle_witness:
  "\<exists>t. process_stake sample_env [0, 1] [5] sample_sysvars
         (sample_stake_ctx (StakeDelegated sample_meta (sample_stake (- 1)))) = (Ok (), t) \<and>
       stake_step sample_env 5 (sample_stake_ctx (StakeDelegated sample_meta (sample_stake (- 1)))) t"
proof (rule run_witness)
  let ?s = "sample_stake_ctx (StakeDelegated sample_meta (sample_stake (- 1)))"
  have ix: "try_from_slice (stake_ix_fmt sample_env) [5] = Inr StakeDeactivate"
    by (simp add: codec_simps)
  show "fst (process_stake sample_env [0, 1] [5] sample_sysvars ?s) = Ok ()"
    by (simp add: process_stake_def ix STAKE_BASE_COST_def run_simps)
      (simp add: stake_deactivate_def sample_stake_simps)
  show "stake_step sample_env 5 ?s t" if "process_stake sample_env [0, 1] [5] sample_sysvars ?s = (Ok (), t)" for t
    using process_stake_lifecycle [OF sample_codec that] by (simp add: sample_sysvars_def)
qed

theorem stake_split_divides_witness:
  "\<exists>t. stake_split sample_env [0, 2, 1] 4000000 sample_sysvars
         (sample_stake_ctx (StakeDelegated sample_meta (sample_stake 3))) = (Ok (), t) \<and>
       (\<exists>m' d1 d2.
      stake_state_of sample_env (snd (ctx_accounts t ! unat (0 :: u8))) (StakeDelegated sample_meta d1) \<and>
      stake_state_of sample_env (snd (ctx_accounts t ! unat (2 :: u8))) (StakeDelegated m' d2) \<and>
      unat (delegation_stake (stake_delegation d1)) + unat (delegation_stake (stake_delegation d2)) = 9000000)"
proof (rule run_witness [OF sample_split_Ok])
  fix t
  assume "stake_split sample_env [0, 2, 1] 4000000 sample_sysvars
         (sample_stake_ctx (StakeDelegated sample_meta (sample_stake 3))) = (Ok (), t)"
  from stake_split_divides [OF sample_codec this, of sample_meta "sample_stake 3"]
  show "\<exists>m' d1 d2.
      stake_state_of sample_env (snd (ctx_accounts t ! unat (0 :: u8))) (StakeDelegated sample_meta d1) \<and>
      stake_state_of sample_env (snd (ctx_accounts t ! unat (2 :: u8))) (StakeDelegated m' d2) \<and>
      unat (delegation_stake (stake_delegation d1)) + unat (delegation_stake (stake_delegation d2)) = 9000000"
    by (auto simp: sample_stake_simps)
qed

theorem stake_withdraw_leaves_reserve_witness:
  "\<exists>t. stake_withdraw sample_env [0, 2, 1] 2000000 sample_sysvars
         (sample_stake_ctx (StakeDelegated sample_meta (sample_stake 3))) = (Ok (), t) \<and>
       1000 + (9000000 - 9000000 * 2500 * 2 div 10000) \<le> unat (acc_lamports (snd (ctx_accounts t ! unat (0 :: u8))))"
proof (rule run_witness)
  show "fst (stake_withdraw sample_env [0, 2, 1] 2000000 sample_sysvars
         (sample_stake_ctx (StakeDelegated sample_meta (sample_stake 3)))) = Ok ()"
    by (simp add: stake_withdraw_def withdraw_available_def cooled_stake_def clock_default_def sample_stake_simps)
next
  fix t
  assume "stake_withdraw sample_env [0, 2, 1] 2000000 sample_sysvars
         (sample_stake_ctx (StakeDelegated sample_meta (sample_stake 3))) = (Ok (), t)"
  from stake_withdraw_leaves_reserve [OF this]
  show "1000 + (9000000 - 9000000 * 2500 * 2 div 10000) \<le> unat (acc_lamports (snd (ctx_accounts t ! unat (0 :: u8))))"
    by (auto simp: still_staked_def clock_default_def sample_stake_simps)
qed

end
