(* ===== verification/Vote.thy ===== *)
theory Vote
  imports Env Tx_Context
begin

text \<open>
  The vote program: \<open>runtime/src/processors/vote/\<close>, one definition per handler, and the lockouts of
  \<open>vote-program/src/lib.rs\<close>. The vote history of an account is shown to be a window of at most 31
  slots whose confirmation counts are determined by the position, and the root to be the newest slot
  that left the window.
\<close>

definition VOTE_BASE_COST :: u64 where "VOTE_BASE_COST = 2100"

definition lockout_of :: "vlockout \<Rightarrow> u64" where
  "lockout_of l = 2 ^ min (unat (confirmation_count l)) 63"

definition is_locked_out_at_slot :: "vlockout \<Rightarrow> u64 \<Rightarrow> bool" where
  "is_locked_out_at_slot l slot \<longleftrightarrow> slot \<le> saturating_add (lo_slot l) (lockout_of l)"

section \<open>Handlers\<close>

definition vote_error :: "string \<Rightarrow> runtime_error" where
  "vote_error m = ProgramError ''vote'' m"

definition vote_initialized :: "env \<Rightarrow> account \<Rightarrow> bool" where
  "vote_initialized E a \<longleftrightarrow> acc_data a \<noteq> [] \<and>
     (case try_from_slice (vote_state_fmt E) (acc_data a) of
        Inr state \<Rightarrow> votes state \<noteq> [] \<or> authorized_voter state \<noteq> hash_zero
      | Inl _ \<Rightarrow> False)"

definition vote_initialize :: "env \<Rightarrow> bytes \<Rightarrow> vote_init \<Rightarrow> sysvar_cache \<Rightarrow> unit rt" where
  "vote_initialize E accounts init sysvars =
    then_r (require_accounts accounts 1 ''InitializeAccount'')
    (bind_r (account_index accounts 0) (\<lambda>vote_idx.
    bind_r (get_account vote_idx) (\<lambda>acc.
    then_r (require (acc_owner (ar_account acc) = VOTE_PROGRAM_ID E) AccountOwnerMismatch)
    (bind_r (get_account vote_idx) (\<lambda>acc.
    then_r (require (\<not> vote_initialized E (ar_account acc))
              (InvalidAccountData ''vote account already initialized''))
    (bind_r (map_err (to_vec (vote_state_fmt E) (vote_state_new init)) InvalidAccountData) (\<lambda>state_data.
    bind_r (get_account vote_idx) (\<lambda>acc.
    let min_bal = minimum_balance (sv_rent sysvars) (length state_data) in
    then_r (require (min_bal \<le> acc_lamports (ar_account acc)) (RentNotMet min_bal (acc_lamports (ar_account acc))))
    (with_account_mut vote_idx (modify (\<lambda>a. a\<lparr>acc_data := state_data\<rparr>)))))))))))"

definition vote_authorize_voter :: "env \<Rightarrow> bytes \<Rightarrow> hash \<Rightarrow> vote_authorize \<Rightarrow> unit rt" where
  "vote_authorize_voter E accounts new_auth auth_type =
    then_r (require_accounts accounts 2 ''Authorize'')
    (bind_r (account_index accounts 0) (\<lambda>vote_idx.
    bind_r (account_index accounts 1) (\<lambda>auth_idx.
    bind_r (require_signer auth_idx) (\<lambda>auth_address.
    bind_r (load_state (vote_state_fmt E) vote_idx) (\<lambda>state.
    bind_r (case auth_type of
        AuthVoter \<Rightarrow>
          then_r (require (authorized_voter state = auth_address) (vote_error ''not authorized voter''))
          (return (state\<lparr>authorized_voter := new_auth\<rparr>))
      | AuthWithdrawer \<Rightarrow>
          then_r (require (authorized_withdrawer state = auth_address) (vote_error ''not authorized withdrawer''))
          (return (state\<lparr>authorized_withdrawer := new_auth\<rparr>))) (\<lambda>state.
    save_state (vote_state_fmt E) vote_idx state))))))"

definition vote_update_commission :: "env \<Rightarrow> bytes \<Rightarrow> u8 \<Rightarrow> unit rt" where
  "vote_update_commission E accounts com =
    then_r (require_accounts accounts 2 ''UpdateCommission'')
    (bind_r (account_index accounts 0) (\<lambda>vote_idx.
    bind_r (account_index accounts 1) (\<lambda>auth_idx.
    bind_r (require_signer auth_idx) (\<lambda>auth_address.
    then_r (require (com \<le> 100) (vote_error (''commission '' @ show_u64 com @ '' exceeds 100%'')))
    (bind_r (load_state (vote_state_fmt E) vote_idx) (\<lambda>state.
    then_r (require (authorized_withdrawer state = auth_address) (vote_error ''not authorized withdrawer''))
    (save_state (vote_state_fmt E) vote_idx (state\<lparr>commission := com\<rparr>))))))))"

text \<open>The slots of a vote are checked in order, each against the clock and its predecessor.\<close>

fun check_vote_slots :: "u64 \<Rightarrow> u64 option \<Rightarrow> u64 list \<Rightarrow> (tx_ctx, runtime_error, unit) rm" where
  "check_vote_slots current prev [] = return ()"
| "check_vote_slots current prev (slot # slots) =
    then_r (require (slot \<le> current)
       (vote_error (''vote slot '' @ show_u64 slot @ '' is in the future (current: '' @ show_u64 current @ '')'')))
    (then_r (require (case prev of None \<Rightarrow> True | Some p \<Rightarrow> p < slot)
       (vote_error ''vote slots must be strictly ascending''))
    (check_vote_slots current (Some slot) slots))"

definition push_vote :: "u64 \<Rightarrow> vote_state \<Rightarrow> vote_state" where
  "push_vote slot state =
    (let vs = map (\<lambda>l. l\<lparr>confirmation_count := confirmation_count l + 1\<rparr>) (votes state)
              @ [\<lparr>lo_slot = slot, confirmation_count = 1\<rparr>];
         excess = length vs - MAX_LOCKOUT_HISTORY
     in if 0 < excess
        then state\<lparr>votes := drop excess vs, root_slot := Some (lo_slot (last (take excess vs)))\<rparr>
        else state\<lparr>votes := vs\<rparr>)"

definition add_epoch_credits :: "u64 \<Rightarrow> u64 \<Rightarrow> (u64 \<times> u64 \<times> u64) list \<Rightarrow> (u64 \<times> u64 \<times> u64) list" where
  "add_epoch_credits epoch n credits =
    (if credits = [] then [(epoch, n, 0)]
     else (case last credits of (e, c, p) \<Rightarrow>
             if e = epoch then butlast credits @ [(e, c + n, p)]
             else credits @ [(epoch, c + n, c)]))"

definition vote_action :: "env \<Rightarrow> bytes \<Rightarrow> vote \<Rightarrow> sysvar_cache \<Rightarrow> unit rt" where
  "vote_action E accounts v sysvars =
    then_r (require_accounts accounts 2 ''Vote'')
    (bind_r (account_index accounts 0) (\<lambda>vote_idx.
    bind_r (account_index accounts 1) (\<lambda>voter_idx.
    bind_r (require_signer voter_idx) (\<lambda>voter_address.
    bind_r (load_state (vote_state_fmt E) vote_idx) (\<lambda>state.
    then_r (require (authorized_voter state = voter_address) (vote_error ''not authorized voter''))
    (then_r (require (vote_slots v \<noteq> []) (vote_error ''empty vote''))
    (then_r (check_vote_slots (clock_slot (sv_clock sysvars)) None (vote_slots v))
    (let state = fold push_vote (vote_slots v) state;
         state = state\<lparr>epoch_credits := add_epoch_credits (clock_epoch (sv_clock sysvars))
                    (of_nat (length (vote_slots v))) (epoch_credits state)\<rparr>;
         state = (case vote_timestamp v of
             Some ts \<Rightarrow> state\<lparr>last_timestamp := \<lparr>bt_slot = last (vote_slots v), bt_timestamp = ts\<rparr>\<rparr>
           | None \<Rightarrow> state) in
     save_state (vote_state_fmt E) vote_idx state))))))))"

definition vote_withdraw :: "env \<Rightarrow> bytes \<Rightarrow> u64 \<Rightarrow> sysvar_cache \<Rightarrow> unit rt" where
  "vote_withdraw E accounts lamports sysvars =
    then_r (require_accounts accounts 3 ''Withdraw'')
    (bind_r (account_index accounts 0) (\<lambda>vote_idx.
    bind_r (account_index accounts 1) (\<lambda>to_idx.
    bind_r (account_index accounts 2) (\<lambda>withdrawer_idx.
    bind_r (require_signer withdrawer_idx) (\<lambda>withdrawer_address.
    bind_r (load_state (vote_state_fmt E) vote_idx) (\<lambda>state.
    then_r (require (authorized_withdrawer state = withdrawer_address) (vote_error ''not authorized withdrawer''))
    (bind_r (get_account vote_idx) (\<lambda>acc.
    then_r (require (lamports \<le> acc_lamports (ar_account acc)) (InsufficientFunds lamports (acc_lamports (ar_account acc))))
    (then_r (with_account_mut vote_idx (then_r (debit lamports)
       (bind_r (gets acc_lamports) (\<lambda>l. bind_r (gets acc_data) (\<lambda>d.
        let min_bal = minimum_balance (sv_rent sysvars) (length d) in
        require (0 < l \<longrightarrow> min_bal \<le> l) (RentNotMet min_bal l))))))
    (with_account_mut to_idx (credit lamports)))))))))))"

definition process_vote :: "env \<Rightarrow> bytes \<Rightarrow> bytes \<Rightarrow> sysvar_cache \<Rightarrow> unit rt" where
  "process_vote E accounts data sysvars =
    then_r (consume_compute VOTE_BASE_COST)
    (bind_r (map_err (try_from_slice (vote_ix_fmt E) data) InvalidInstructionData) (\<lambda>instruction.
    (case instruction of
       VoteInitializeAccount init \<Rightarrow> vote_initialize E accounts init sysvars
     | VoteIx v \<Rightarrow> vote_action E accounts v sysvars
     | VoteAuthorizeIx new_auth auth_type \<Rightarrow> vote_authorize_voter E accounts new_auth auth_type
     | VoteWithdraw lamports \<Rightarrow> vote_withdraw E accounts lamports sysvars
     | UpdateCommission com \<Rightarrow> vote_update_commission E accounts com
     | SwitchVote v proof_hash \<Rightarrow> vote_action E accounts v sysvars
     | UpdateValidatorIdentity \<Rightarrow> fail (vote_error ''instruction not yet implemented''))))"

section \<open>Frame and conservation\<close>

lemma frame_vote_initialize [frame_intros]: "frame.keeps (vote_initialize E accounts init sysvars)"
  unfolding vote_initialize_def Let_def by (intro frame_intros) (simp add: exec_mono_def)

lemma frame_vote_authorize [frame_intros]: "frame.keeps (vote_authorize_voter E accounts new_auth auth_type)"
  unfolding vote_authorize_voter_def by (intro frame_intros) (cases auth_type; auto intro: frame_intros)

lemma frame_vote_commission [frame_intros]: "frame.keeps (vote_update_commission E accounts com)"
  unfolding vote_update_commission_def by (intro frame_intros)

lemma frame_check_vote_slots [frame_intros]: "frame.keeps (check_vote_slots current prev slots)"
  by (induction slots arbitrary: prev) (auto intro!: frame_intros)

lemma frame_vote_action [frame_intros]: "frame.keeps (vote_action E accounts v sysvars)"
  unfolding vote_action_def Let_def by (intro frame_intros)

lemma frame_vote_withdraw [frame_intros]: "frame.keeps (vote_withdraw E accounts lamports sysvars)"
  unfolding vote_withdraw_def Let_def by (intro frame_intros)

lemma frame_process_vote [frame_intros]: "frame.keeps (process_vote E accounts data sysvars)"
  unfolding process_vote_def
  by (intro frame_intros) (auto split: vote_instruction.split intro: frame_intros)

lemma total_vote_initialize [total_intros]: "total.keeps_ok (vote_initialize E accounts init sysvars)"
  unfolding vote_initialize_def Let_def
  by (intro total_intros total.keeps_ok_bind) (simp add: same_lamports_def)

lemma total_vote_authorize [total_intros]: "total.keeps_ok (vote_authorize_voter E accounts new_auth auth_type)"
  unfolding vote_authorize_voter_def
  by (intro total_intros total.keeps_ok_bind) (cases auth_type; auto intro: total_intros total.keeps_ok_bind)

lemma total_vote_commission [total_intros]: "total.keeps_ok (vote_update_commission E accounts com)"
  unfolding vote_update_commission_def by (intro total_intros total.keeps_ok_bind)

definition vote_slots_ok :: "u64 \<Rightarrow> u64 option \<Rightarrow> u64 list \<Rightarrow> bool" where
  "vote_slots_ok current prev slots \<longleftrightarrow>
     sorted_wrt (<) (case prev of None \<Rightarrow> slots | Some p \<Rightarrow> p # slots) \<and> (\<forall>v \<in> set slots. v \<le> current)"

lemma check_vote_slots_Ok_iff [ok_iff]:
  "check_vote_slots current prev slots s = (Ok (), t) \<longleftrightarrow> vote_slots_ok current prev slots \<and> t = s"
proof (induction slots arbitrary: prev)
  case Nil
  then show ?case by (cases prev) (auto simp: vote_slots_ok_def ok_iff)
next
  case (Cons v slots)
  show ?case
    by (cases prev) (auto simp: bind_Ok_iff require_Ok_iff Cons.IH vote_slots_ok_def intro: less_trans)
qed

lemma total_check_vote_slots [total_intros]: "total.keeps_ok (check_vote_slots current prev slots)"
  by (auto simp: total.keeps_ok_def same_total_def check_vote_slots_Ok_iff)

lemma total_vote_action [total_intros]: "total.keeps_ok (vote_action E accounts v sysvars)"
  unfolding vote_action_def Let_def by (intro total_intros total.keeps_ok_bind)

lemma shift_debit_check:
  "total_shift (with_account_mut i (then_r (debit n)
     (bind_r (gets acc_lamports) (\<lambda>l. bind_r (gets acc_data) (\<lambda>d. require (c l d) (e l d)))))) (unat n) 0"
  by (rule shift_account) (auto simp: bind_Ok_iff gets_Ok_iff require_Ok_iff dest!: debit_lamports)

lemma total_vote_withdraw_writes:
  "total.keeps_ok (then_r (with_account_mut i (then_r (debit n)
     (bind_r (gets acc_lamports) (\<lambda>l. bind_r (gets acc_data) (\<lambda>d. require (c l d) (e l d))))))
     (with_account_mut j (credit n)))"
  by (rule total_pair [OF shift_debit_check shift_credit])

lemma total_vote_withdraw [total_intros]: "total.keeps_ok (vote_withdraw E accounts lamports sysvars)"
  unfolding vote_withdraw_def Let_def
  by (intro total_vote_withdraw_writes total_intros total.keeps_ok_bind)

lemma total_process_vote [total_intros]: "total.keeps_ok (process_vote E accounts data sysvars)"
  unfolding process_vote_def
  by (intro total_intros total.keeps_ok_bind) (auto split: vote_instruction.split intro: total_intros)

interpretation vote_processor: conserving_processor "process_vote E" for E
  by unfold_locales (rule frame_process_vote total_process_vote)+

section \<open>The vote history\<close>

definition vote_window :: "u64 list \<Rightarrow> vlockout list" where
  "vote_window ss = (let w = drop (length ss - 31) ss in
     map (\<lambda>i. \<lparr>lo_slot = w ! i, confirmation_count = of_nat (length w - i)\<rparr>) [0..<length w])"

lemma length_vote_window [simp]: "length (vote_window ss) = min (length ss) 31"
  by (simp add: vote_window_def Let_def)

lemma map_slot_vote_window: "map lo_slot (vote_window ss) = drop (length ss - 31) ss"
  by (auto simp: vote_window_def Let_def intro!: nth_equalityI)

lemma bump_window:
  fixes w :: "u64 list"
  defines "f k v \<equiv> map (\<lambda>i. \<lparr>lo_slot = v ! i, confirmation_count = of_nat (k - i)\<rparr>) [0..<length v]"
  shows "map (\<lambda>l. l\<lparr>confirmation_count := confirmation_count l + 1\<rparr>) (f (length w) w)
           @ [\<lparr>lo_slot = s, confirmation_count = 1\<rparr>] = f (Suc (length w)) (w @ [s])"
  by (auto simp: f_def nth_append Suc_diff_le intro!: nth_equalityI)

lemma push_vote_window:
  assumes "votes st = vote_window ss"
  shows "votes (push_vote s st) = vote_window (ss @ [s])"
    and "root_slot (push_vote s st) = (if length ss < 31 then root_slot st else Some (ss ! (length ss - 31)))"
proof -
  let ?w = "drop (length ss - 31) ss"
  let ?f = "\<lambda>k v. map (\<lambda>i. \<lparr>lo_slot = (v :: u64 list) ! i, confirmation_count = of_nat (k - i)\<rparr>) [0..<length v]"
  let ?vs = "?f (Suc (length ?w)) (?w @ [s])"
  have vs: "map (\<lambda>l. l\<lparr>confirmation_count := confirmation_count l + 1\<rparr>) (votes st)
           @ [\<lparr>lo_slot = s, confirmation_count = 1\<rparr>] = ?vs"
    unfolding assms vote_window_def Let_def by (rule bump_window)
  have len: "length ?vs = Suc (min (length ss) 31)" by simp
  show "votes (push_vote s st) = vote_window (ss @ [s])"
  proof (cases "length ss < 31")
    case True
    then show ?thesis unfolding push_vote_def vs Let_def by (simp add: vote_window_def MAX_LOCKOUT_HISTORY_def del: upt_Suc)
  next
    case False
    then have "Suc (length ss + i - 31) = length ss + i - 30" for i by arith
    with False have "drop 1 ?vs = vote_window (ss @ [s])"
      by (auto simp: vote_window_def Let_def nth_append intro!: nth_equalityI)
    with False show ?thesis unfolding push_vote_def vs Let_def by (simp add: MAX_LOCKOUT_HISTORY_def)
  qed
  show "root_slot (push_vote s st) = (if length ss < 31 then root_slot st else Some (ss ! (length ss - 31)))"
    unfolding push_vote_def vs Let_def
    by (auto simp: MAX_LOCKOUT_HISTORY_def take_Suc nth_append min_def upt_conv_Cons simp del: upt_Suc)
qed

lemma fold_push_vote_window:
  assumes "votes st = vote_window ss"
  shows "votes (fold push_vote slots st) = vote_window (ss @ slots) \<and>
     root_slot (fold push_vote slots st) =
       (if slots = [] \<or> length ss + length slots \<le> 31 then root_slot st
        else Some ((ss @ slots) ! (length ss + length slots - 32)))"
  using assms
proof (induction slots arbitrary: st ss)
  case Nil
  then show ?case by simp
next
  case (Cons s slots)
  note p = push_vote_window [OF Cons.prems, of s]
  from Cons.IH [OF p(1)] p(2) show ?case by (auto simp: nth_append)
qed

text \<open>C19: after any number of votes on a fresh vote account, the history holds the last 31 slots in
  order, each with the confirmation count its position gives (so the newest is locked for 2 slots and
  the oldest of a full history for \<open>2 ^ 31\<close>), and the root is the newest slot that left the history.\<close>

theorem vote_history_window:
  "votes (fold push_vote slots (vote_state_new init)) =
     map (\<lambda>i. \<lparr>lo_slot = slots ! (length slots - min (length slots) 31 + i),
              confirmation_count = of_nat (min (length slots) 31 - i)\<rparr>) [0..<min (length slots) 31] \<and>
   root_slot (fold push_vote slots (vote_state_new init)) =
     (if length slots \<le> 31 then None else Some (slots ! (length slots - 32)))"
proof -
  have n: "length slots - (length slots - 31) = min (length slots) 31"
    "length slots - min (length slots) 31 = length slots - 31" by arith+
  have "votes (vote_state_new init) = vote_window []" by (simp add: vote_state_new_def vote_window_def)
  from fold_push_vote_window [OF this, of slots] show ?thesis
    by (auto simp: vote_window_def Let_def n vote_state_new_def)
qed

definition vote_tower_ok :: "vote_state \<Rightarrow> bool" where
  "vote_tower_ok st \<longleftrightarrow> length (votes st) \<le> 31 \<and>
     (\<forall>i < length (votes st). unat (confirmation_count (votes st ! i)) = length (votes st) - i)"

lemma vote_tower_ok_window:
  assumes "vote_tower_ok st"
  shows "votes st = vote_window (map lo_slot (votes st))"
proof (rule nth_equalityI)
  show "length (votes st) = length (vote_window (map lo_slot (votes st)))"
    using assms by (simp add: vote_tower_ok_def)
  fix i
  assume i: "i < length (votes st)"
  then have "unat (confirmation_count (votes st ! i)) = length (votes st) - i" "length (votes st) \<le> 31"
    using assms by (auto simp: vote_tower_ok_def)
  then have "confirmation_count (votes st ! i) = of_nat (length (votes st) - i)"
    by (simp add: word_unat_eq_iff unat_of_nat_small)
  with i assms show "votes st ! i = vote_window (map lo_slot (votes st)) ! i"
    by (cases "votes st ! i") (simp add: vote_window_def vote_tower_ok_def Let_def)
qed

lemma vote_window_tower_ok: "votes st = vote_window ss \<Longrightarrow> vote_tower_ok st"
  by (auto simp: vote_tower_ok_def vote_window_def Let_def unat_of_nat_small simp del: of_nat_diff)

definition vote_state_at :: "env \<Rightarrow> tx_ctx \<Rightarrow> nat \<Rightarrow> string + vote_state" where
  "vote_state_at E s i = deserialize (vote_state_fmt E) (acc_data (snd (ctx_accounts s ! i)))"

lemma save_state_vote_state_at:
  assumes "borsh_codec (vote_state_fmt E)" and "save_state (vote_state_fmt E) i st s = (Ok x, t)"
  shows "vote_state_at E t i = Inr st"
  using assms(2) by (auto simp: ok_iff vote_state_at_def borsh_codec.deserialize_to_vec_exact [OF assms(1)])

text \<open>The credits in the last entry, and the entries before the current epoch's.\<close>

definition credits_so_far :: "(u64 \<times> u64 \<times> u64) list \<Rightarrow> u64" where
  "credits_so_far cs = (if cs = [] then 0 else fst (snd (last cs)))"

lemma add_epoch_credits_spec:
  "add_epoch_credits epoch n cs =
    (if cs \<noteq> [] \<and> fst (last cs) = epoch then butlast cs @ [(epoch, credits_so_far cs + n, snd (snd (last cs)))]
     else cs @ [(epoch, credits_so_far cs + n, credits_so_far cs)])"
  by (auto simp: add_epoch_credits_def credits_so_far_def split: prod.splits)

lemma push_votes_keep:
  "node_pubkey (fold push_vote ss z) = node_pubkey z \<and> authorized_voter (fold push_vote ss z) = authorized_voter z \<and>
   authorized_withdrawer (fold push_vote ss z) = authorized_withdrawer z \<and> commission (fold push_vote ss z) = commission z \<and>
   epoch_credits (fold push_vote ss z) = epoch_credits z \<and> last_timestamp (fold push_vote ss z) = last_timestamp z"
  by (induction ss arbitrary: z) (simp_all add: push_vote_def Let_def)


text \<open>A withdrawal from a vote account needs the authorized withdrawer's signature and either empties
  the account or leaves it rent exempt.\<close>

theorem vote_withdraw_spec:
  assumes "vote_withdraw E accounts n sysvars s = (Ok x, t)" and "accounts ! 1 \<noteq> accounts ! 0"
    and "vote_state_at E s (unat (accounts ! 0)) = Inr st"
  shows "is_signer (ctx_message s) (unat (accounts ! 2)) \<and>
     fst (ctx_accounts s ! unat (accounts ! 2)) = authorized_withdrawer st \<and>
     (let a = snd (ctx_accounts s ! unat (accounts ! 0)); b = snd (ctx_accounts t ! unat (accounts ! 0)) in
      n \<le> acc_lamports a \<and> b = a\<lparr>acc_lamports := acc_lamports a - n\<rparr> \<and>
      (acc_lamports b = 0 \<or> minimum_balance (sv_rent sysvars) (length (acc_data a)) \<le> acc_lamports b))"
proof -
  have "unat (accounts ! 1) \<noteq> unat (accounts ! 0)" using assms(2) by (simp add: word_unat_eq_iff)
  with assms(1,3) show ?thesis
    by (auto simp: vote_withdraw_def ok_iff Let_def vote_state_at_def word_gt_0)
qed

section \<open>Witnesses\<close>

definition vote_bytes :: "vote_state \<Rightarrow> bytes" where
  "vote_bytes st = (case to_vec vote_state_codec st of Inr b \<Rightarrow> b | Inl _ \<Rightarrow> [])"

lemma enc_all_total: "(\<And>x. \<exists>b. to_vec c x = Inr b) \<Longrightarrow> \<exists>b. enc_all c xs = Inr b"
  by (induction xs) (auto split: sum.splits, metis sum.distinct(1))

lemma enc_all_lockouts: "\<exists>b. enc_all vlockout_codec vs = Inr b"
  by (rule enc_all_total) (simp add: codec_simps)

lemma enc_all_credits: "\<exists>b. enc_all (prod_codec u64_codec (prod_codec u64_codec u64_codec)) cs = Inr b"
  by (rule enc_all_total) (auto simp: codec_simps)

lemma to_vec_vote_bytes:
  assumes "length (votes st) < 2 ^ 32" "length (epoch_credits st) < 2 ^ 32"
  shows "to_vec vote_state_codec st = Inr (vote_bytes st)"
proof -
  obtain b b' where "enc_all vlockout_codec (votes st) = Inr b"
    "enc_all (prod_codec u64_codec (prod_codec u64_codec u64_codec)) (epoch_credits st) = Inr b'"
    using enc_all_lockouts enc_all_credits by blast
  then have "\<exists>b. to_vec vote_state_codec st = Inr b"
    using assms by (cases "root_slot st") (simp_all add: vote_state_codec_def iso_codec_def vec_codec_def prod_codec_def
      option_codec_def enum_codec_def hash_codec_def le_codec_def u8_codec_def u64_codec_def block_timestamp_codec_def unit_codec_def)
  then show ?thesis by (auto simp: vote_bytes_def)
qed

lemma deserialize_vote_bytes:
  "length (votes st) < 2 ^ 32 \<Longrightarrow> length (epoch_credits st) < 2 ^ 32 \<Longrightarrow>
   deserialize vote_state_codec (vote_bytes st) = Inr st"
  by (rule vote_state_format.deserialize_to_vec_exact) (rule to_vec_vote_bytes)

definition sample_vote_state :: "vlockout list \<Rightarrow> (u64 \<times> u64 \<times> u64) list \<Rightarrow> vote_state" where
  "sample_vote_state vs cs = \<lparr>node_pubkey = 9, authorized_voter = 2, authorized_withdrawer = 2, commission = 5,
     votes = vs, root_slot = None, epoch_credits = cs, last_timestamp = \<lparr>bt_slot = 0, bt_timestamp = 0\<rparr>\<rparr>"

definition sample_vote_ctx :: "vote_state \<Rightarrow> tx_ctx" where
  "sample_vote_ctx st = sample_ctx [sample_account 9000000 (VOTE_PROGRAM_ID sample_env) (vote_bytes st),
     sample_account 0 0 [], sample_account 0 0 []]"

lemmas sample_vote_simps = run_simps sample_env_def sample_vote_ctx_def sample_vote_state_def vote_state_at_def
  to_vec_vote_bytes deserialize_vote_bytes push_vote_def add_epoch_credits_def Let_def MAX_LOCKOUT_HISTORY_def clock_default_def

text \<open>Nothing compares a vote with the history: the same slot can be voted for again and again, and
  every repetition enters the history and earns a credit.\<close>

theorem vote_replay_earns_credits:
  "\<exists>t u. vote_action sample_env [0, 1] \<lparr>vote_slots = [0], vote_hash = 0, vote_timestamp = None\<rparr> sample_sysvars
           (sample_vote_ctx (sample_vote_state [] [])) = (Ok (), t) \<and>
         vote_action sample_env [0, 1] \<lparr>vote_slots = [0], vote_hash = 0, vote_timestamp = None\<rparr> sample_sysvars
           t = (Ok (), u) \<and>
         vote_state_at sample_env u 0 = Inr (sample_vote_state
           [\<lparr>lo_slot = 0, confirmation_count = 2\<rparr>, \<lparr>lo_slot = 0, confirmation_count = 1\<rparr>] [(5, 2, 0)])"
  by (simp add: vote_action_def sample_vote_simps)

lemma sample_vote_codec: "borsh_codec (vote_state_fmt sample_env)"
  by (simp add: sample_env_def vote_state_format.borsh_codec_axioms)


theorem vote_withdraw_spec_witness:
  "\<exists>t. vote_withdraw sample_env [0, 2, 1] 9000000 sample_sysvars (sample_vote_ctx (sample_vote_state [] [])) = (Ok (), t) \<and>
       acc_lamports (snd (ctx_accounts t ! 0)) = 0"
proof (rule run_witness)
  let ?s = "sample_vote_ctx (sample_vote_state [] [])"
  show "fst (vote_withdraw sample_env [0, 2, 1] 9000000 sample_sysvars ?s) = Ok ()"
    by (simp add: vote_withdraw_def sample_vote_simps)
  have st: "vote_state_at sample_env ?s (unat ([0, 2, 1 :: u8] ! 0)) = Inr (sample_vote_state [] [])"
    by (simp add: sample_vote_simps)
  show "acc_lamports (snd (ctx_accounts t ! 0)) = 0"
    if "vote_withdraw sample_env [0, 2, 1] 9000000 sample_sysvars ?s = (Ok (), t)" for t
    using vote_withdraw_spec [OF that _ st]
    by (simp add: sample_vote_ctx_def sample_ctx_def ctx_new_def sample_account_def Let_def)
qed

end
