(* ===== verification/Token.thy ===== *)
theory Token
  imports Env Tx_Context
begin

text \<open>
  The token program: \<open>runtime/src/processors/token/\<close>, one definition per handler. The shared steps of
  the handlers (signer check, ownership check, decoding and writing of mints and token accounts) are
  definitions of their own. Shown: the exact effect of a transfer, a mint and a burn on balances,
  supply and delegations, what freezing prevents, and that lamports are never created. The handlers
  that initialize do not ask for the signature of the account they claim; what follows from that for
  the lamports of an ordinary wallet is a theorem too.
\<close>

definition TOKEN_INIT_MINT_COST :: u64 where "TOKEN_INIT_MINT_COST = 1000"
definition TOKEN_INIT_ACCOUNT_COST :: u64 where "TOKEN_INIT_ACCOUNT_COST = 1000"
definition TOKEN_MINT_TO_COST :: u64 where "TOKEN_MINT_TO_COST = 500"
definition TOKEN_TRANSFER_COST :: u64 where "TOKEN_TRANSFER_COST = 300"
definition TOKEN_APPROVE_COST :: u64 where "TOKEN_APPROVE_COST = 300"
definition TOKEN_REVOKE_COST :: u64 where "TOKEN_REVOKE_COST = 300"
definition TOKEN_BURN_COST :: u64 where "TOKEN_BURN_COST = 500"
definition TOKEN_CLOSE_COST :: u64 where "TOKEN_CLOSE_COST = 500"
definition TOKEN_FREEZE_COST :: u64 where "TOKEN_FREEZE_COST = 300"
definition TOKEN_THAW_COST :: u64 where "TOKEN_THAW_COST = 300"

section \<open>Steps the handlers share\<close>

definition borsh_err :: "string \<Rightarrow> runtime_error" where
  "borsh_err e = ProgramError ''token'' e"

definition token_accounts :: "bytes \<Rightarrow> nat \<Rightarrow> unit rt" where
  "token_accounts accounts n = require (n \<le> length accounts) (token_err TE_MissingAccount)"

definition token_signer :: "nat \<Rightarrow> hash rt" where
  "token_signer i = bind_r (get_account i) (\<lambda>auth.
     then_r (require (ar_is_signer auth) (token_err TE_MissingSigner)) (return (ar_address auth)))"

definition require_token_owned :: "env \<Rightarrow> nat \<Rightarrow> unit rt" where
  "require_token_owned E i = bind_r (get_account i) (\<lambda>acc.
     require (acc_owner (ar_account acc) = TOKEN_PROGRAM_ID E) AccountOwnerMismatch)"

definition token_load :: "'a codec \<Rightarrow> nat \<Rightarrow> 'a rt" where
  "token_load c i = bind_r (get_account i) (\<lambda>acc.
     map_err (deserialize c (acc_data (ar_account acc))) (\<lambda>_. token_err TE_NotInitialized))"

definition token_load_exact :: "'a codec \<Rightarrow> nat \<Rightarrow> 'a rt" where
  "token_load_exact c i = bind_r (get_account i) (\<lambda>acc.
     map_err (try_from_slice c (acc_data (ar_account acc))) (\<lambda>_. token_err TE_NotInitialized))"

definition token_save :: "'a codec \<Rightarrow> nat \<Rightarrow> 'a \<Rightarrow> unit rt" where
  "token_save c i st = bind_r (map_err (to_vec c st) borsh_err) (\<lambda>d.
     with_account_mut i (modify (\<lambda>a. a\<lparr>acc_data := d\<rparr>)))"

definition token_claimable :: "env \<Rightarrow> account \<Rightarrow> bool" where
  "token_claimable E a \<longleftrightarrow>
     acc_owner a = SYSTEM_PROGRAM_ID E \<or> acc_owner a = hash_zero \<or> acc_owner a = TOKEN_PROGRAM_ID E"

text \<open>Writing a fresh state into an account and taking it over for the token program.\<close>

definition token_claim :: "env \<Rightarrow> 'a codec \<Rightarrow> nat \<Rightarrow> 'a \<Rightarrow> unit rt" where
  "token_claim E c i st = bind_r (map_err (to_vec c st) borsh_err) (\<lambda>d.
     with_account_mut i (modify (\<lambda>a. a\<lparr>acc_data := d, acc_owner := TOKEN_PROGRAM_ID E\<rparr>)))"

section \<open>Handlers\<close>

definition token_initialize_mint :: "env \<Rightarrow> bytes \<Rightarrow> u8 \<Rightarrow> hash \<Rightarrow> hash option \<Rightarrow> unit rt" where
  "token_initialize_mint E accounts dec mint_auth freeze_auth =
    then_r (token_accounts accounts 1)
    (bind_r (account_index accounts 0) (\<lambda>mint_idx.
    bind_r (get_account mint_idx) (\<lambda>existing.
    then_r (require (token_claimable E (ar_account existing)) AccountOwnerMismatch)
    (then_r (require (\<not> (acc_data (ar_account existing) \<noteq> [] \<and>
               (case deserialize (mint_fmt E) (acc_data (ar_account existing)) of
                  Inr m \<Rightarrow> is_initialized m | Inl _ \<Rightarrow> False))) (token_err TE_AlreadyInitialized))
    (token_claim E (mint_fmt E) mint_idx
       \<lparr>mint_authority = Some mint_auth, mint_supply = 0, decimals = dec, is_initialized = True,
        freeze_authority = freeze_auth\<rparr>)))))"

definition token_initialize_account :: "env \<Rightarrow> bytes \<Rightarrow> unit rt" where
  "token_initialize_account E accounts =
    then_r (token_accounts accounts 3)
    (bind_r (account_index accounts 0) (\<lambda>account_idx.
    bind_r (account_index accounts 1) (\<lambda>mint_idx.
    bind_r (account_index accounts 2) (\<lambda>owner_idx.
    bind_r (get_account mint_idx) (\<lambda>mint_acc.
    bind_r (token_load (mint_fmt E) mint_idx) (\<lambda>m.
    then_r (require (is_initialized m) (token_err TE_NotInitialized))
    (bind_r (get_account owner_idx) (\<lambda>owner.
    bind_r (get_account account_idx) (\<lambda>existing.
    then_r (require (token_claimable E (ar_account existing)) AccountOwnerMismatch)
    (bind_r (get_account account_idx) (\<lambda>existing.
    then_r (require (\<not> (acc_data (ar_account existing) \<noteq> [] \<and>
               (case deserialize (token_account_fmt E) (acc_data (ar_account existing)) of
                  Inr ta \<Rightarrow> tok_state ta \<noteq> TokUninitialized | Inl _ \<Rightarrow> False))) (token_err TE_AlreadyInitialized))
    (token_claim E (token_account_fmt E) account_idx
       \<lparr>tok_mint = ar_address mint_acc, tok_owner = ar_address owner, tok_amount = 0, tok_delegate = None,
        tok_state = TokInitialized, tok_delegated_amount = 0, tok_close_authority = None\<rparr>))))))))))))"

definition token_mint_to :: "env \<Rightarrow> bytes \<Rightarrow> u64 \<Rightarrow> unit rt" where
  "token_mint_to E accounts amount =
    then_r (token_accounts accounts 3)
    (bind_r (account_index accounts 0) (\<lambda>mint_idx.
    bind_r (account_index accounts 1) (\<lambda>dest_idx.
    bind_r (account_index accounts 2) (\<lambda>auth_idx.
    bind_r (token_signer auth_idx) (\<lambda>auth_address.
    bind_r (token_load (mint_fmt E) mint_idx) (\<lambda>m.
    then_r (require (is_initialized m) (token_err TE_NotInitialized))
    (then_r (require (mint_authority m = Some auth_address) (token_err TE_AuthorityMismatch))
    (bind_r (ok_or (checked_add (mint_supply m) amount) (token_err TE_SupplyOverflow)) (\<lambda>supply'.
    then_r (require_token_owned E dest_idx)
    (bind_r (token_load (token_account_fmt E) dest_idx) (\<lambda>ta.
    then_r (require (tok_state ta \<noteq> TokFrozen) (token_err TE_AccountFrozen))
    (bind_r (get_account mint_idx) (\<lambda>mint_acc.
    then_r (require (tok_mint ta = ar_address mint_acc) (token_err TE_MintMismatch))
    (bind_r (ok_or (checked_add (tok_amount ta) amount) (token_err TE_SupplyOverflow)) (\<lambda>amount'.
    then_r (token_save (mint_fmt E) mint_idx (m\<lparr>mint_supply := supply'\<rparr>))
    (token_save (token_account_fmt E) dest_idx (ta\<lparr>tok_amount := amount'\<rparr>)))))))))))))))))"

definition token_transfer :: "env \<Rightarrow> bytes \<Rightarrow> u64 \<Rightarrow> unit rt" where
  "token_transfer E accounts amount =
    then_r (token_accounts accounts 3)
    (bind_r (account_index accounts 0) (\<lambda>src_idx.
    bind_r (account_index accounts 1) (\<lambda>dest_idx.
    bind_r (account_index accounts 2) (\<lambda>auth_idx.
    then_r (require (src_idx \<noteq> dest_idx) (AccountIndexAliasing src_idx dest_idx))
    (bind_r (token_signer auth_idx) (\<lambda>auth_address.
    then_r (require_token_owned E src_idx)
    (then_r (require_token_owned E dest_idx)
    (bind_r (token_load (token_account_fmt E) src_idx) (\<lambda>src_token.
    then_r (require (tok_state src_token \<noteq> TokFrozen) (token_err TE_AccountFrozen))
    (let is_delegate = tok_delegate src_token = Some auth_address \<and> 0 < tok_delegated_amount src_token in
    then_r (require (tok_owner src_token = auth_address \<or> is_delegate) (token_err TE_OwnerMismatch))
    (then_r (require (amount \<le> tok_amount src_token)
               (token_err (TE_InsufficientBalance amount (tok_amount src_token))))
    (bind_r (if is_delegate
             then then_r (require (amount \<le> tok_delegated_amount src_token)
                    (token_err (TE_InsufficientDelegation amount (tok_delegated_amount src_token))))
                  (return (src_token\<lparr>tok_delegated_amount := tok_delegated_amount src_token - amount\<rparr>))
             else return src_token) (\<lambda>src_token.
    bind_r (token_load (token_account_fmt E) dest_idx) (\<lambda>dest_token.
    then_r (require (tok_state dest_token \<noteq> TokFrozen) (token_err TE_AccountFrozen))
    (then_r (require (tok_mint src_token = tok_mint dest_token) (token_err TE_MintMismatch))
    (bind_r (ok_or (checked_add (tok_amount dest_token) amount) (token_err TE_SupplyOverflow)) (\<lambda>amount'.
    then_r (token_save (token_account_fmt E) src_idx (src_token\<lparr>tok_amount := tok_amount src_token - amount\<rparr>))
    (token_save (token_account_fmt E) dest_idx (dest_token\<lparr>tok_amount := amount'\<rparr>)))))))))))))))))))"

definition token_approve :: "env \<Rightarrow> bytes \<Rightarrow> u64 \<Rightarrow> unit rt" where
  "token_approve E accounts amount =
    then_r (token_accounts accounts 3)
    (bind_r (account_index accounts 0) (\<lambda>src_idx.
    bind_r (account_index accounts 1) (\<lambda>delegate_idx.
    bind_r (account_index accounts 2) (\<lambda>owner_idx.
    bind_r (token_signer owner_idx) (\<lambda>owner_address.
    bind_r (get_account delegate_idx) (\<lambda>delegate.
    then_r (require_token_owned E src_idx)
    (bind_r (token_load (token_account_fmt E) src_idx) (\<lambda>ta.
    then_r (require (tok_state ta \<noteq> TokFrozen) (token_err TE_AccountFrozen))
    (then_r (require (tok_owner ta = owner_address) (token_err TE_OwnerMismatch))
    (token_save (token_account_fmt E) src_idx
       (ta\<lparr>tok_delegate := Some (ar_address delegate), tok_delegated_amount := amount\<rparr>)))))))))))"

definition token_revoke :: "env \<Rightarrow> bytes \<Rightarrow> unit rt" where
  "token_revoke E accounts =
    then_r (token_accounts accounts 2)
    (bind_r (account_index accounts 0) (\<lambda>src_idx.
    bind_r (account_index accounts 1) (\<lambda>owner_idx.
    bind_r (token_signer owner_idx) (\<lambda>owner_address.
    then_r (require_token_owned E src_idx)
    (bind_r (token_load (token_account_fmt E) src_idx) (\<lambda>ta.
    then_r (require (tok_state ta \<noteq> TokFrozen) (token_err TE_AccountFrozen))
    (then_r (require (tok_owner ta = owner_address) (token_err TE_OwnerMismatch))
    (token_save (token_account_fmt E) src_idx (ta\<lparr>tok_delegate := None, tok_delegated_amount := 0\<rparr>)))))))))"

definition token_burn :: "env \<Rightarrow> bytes \<Rightarrow> u64 \<Rightarrow> unit rt" where
  "token_burn E accounts amount =
    then_r (token_accounts accounts 3)
    (bind_r (account_index accounts 0) (\<lambda>src_idx.
    bind_r (account_index accounts 1) (\<lambda>mint_idx.
    bind_r (account_index accounts 2) (\<lambda>auth_idx.
    then_r (require (src_idx \<noteq> mint_idx) (AccountIndexAliasing src_idx mint_idx))
    (bind_r (token_signer auth_idx) (\<lambda>auth_address.
    then_r (require_token_owned E src_idx)
    (bind_r (token_load (token_account_fmt E) src_idx) (\<lambda>ta.
    then_r (require (tok_owner ta = auth_address \<or> tok_delegate ta = Some auth_address) (token_err TE_OwnerMismatch))
    (then_r (require (amount \<le> tok_amount ta) (token_err (TE_InsufficientBalance amount (tok_amount ta))))
    (bind_r (get_account mint_idx) (\<lambda>mint_acc.
    then_r (require (tok_mint ta = ar_address mint_acc) (token_err TE_MintMismatch))
    (bind_r (if tok_delegate ta = Some auth_address
             then then_r (require (amount \<le> tok_delegated_amount ta)
                    (token_err (TE_InsufficientDelegation amount (tok_delegated_amount ta))))
                  (return (ta\<lparr>tok_amount := tok_amount ta - amount,
                              tok_delegated_amount := tok_delegated_amount ta - amount\<rparr>))
             else return (ta\<lparr>tok_amount := tok_amount ta - amount\<rparr>)) (\<lambda>ta.
    bind_r (token_load (mint_fmt E) mint_idx) (\<lambda>m.
    bind_r (ok_or (checked_sub (mint_supply m) amount) (token_err TE_SupplyOverflow)) (\<lambda>supply'.
    then_r (token_save (token_account_fmt E) src_idx ta)
    (token_save (mint_fmt E) mint_idx (m\<lparr>mint_supply := supply'\<rparr>)))))))))))))))))"

definition token_close_account :: "env \<Rightarrow> bytes \<Rightarrow> unit rt" where
  "token_close_account E accounts =
    then_r (token_accounts accounts 3)
    (bind_r (account_index accounts 0) (\<lambda>account_idx.
    bind_r (account_index accounts 1) (\<lambda>dest_idx.
    bind_r (account_index accounts 2) (\<lambda>auth_idx.
    bind_r (token_signer auth_idx) (\<lambda>auth_address.
    bind_r (get_account account_idx) (\<lambda>acc.
    bind_r (token_load (token_account_fmt E) account_idx) (\<lambda>ta.
    then_r (require ((case tok_close_authority ta of Some h \<Rightarrow> h | None \<Rightarrow> tok_owner ta) = auth_address)
              (token_err TE_OwnerMismatch))
    (then_r (require (tok_amount ta = 0) (token_err TE_CloseNonEmpty))
    (then_r (with_account_mut dest_idx (credit (acc_lamports (ar_account acc))))
    (with_account_mut account_idx (modify (\<lambda>a. a\<lparr>acc_lamports := 0, acc_data := []\<rparr>))))))))))))"

definition token_freeze_account :: "env \<Rightarrow> bytes \<Rightarrow> unit rt" where
  "token_freeze_account E accounts =
    then_r (token_accounts accounts 3)
    (bind_r (account_index accounts 0) (\<lambda>account_idx.
    bind_r (account_index accounts 1) (\<lambda>mint_idx.
    bind_r (account_index accounts 2) (\<lambda>auth_idx.
    bind_r (token_signer auth_idx) (\<lambda>auth_address.
    then_r (require_token_owned E account_idx)
    (bind_r (token_load_exact (mint_fmt E) mint_idx) (\<lambda>m.
    then_r (require (freeze_authority m = Some auth_address) (token_err TE_NoFreezeAuthority))
    (bind_r (token_load_exact (token_account_fmt E) account_idx) (\<lambda>ta.
    bind_r (get_account mint_idx) (\<lambda>mint_acc.
    then_r (require (tok_mint ta = ar_address mint_acc) (token_err TE_MintMismatch))
    (token_save (token_account_fmt E) account_idx (ta\<lparr>tok_state := TokFrozen\<rparr>))))))))))))"

definition token_thaw_account :: "env \<Rightarrow> bytes \<Rightarrow> unit rt" where
  "token_thaw_account E accounts =
    then_r (token_accounts accounts 3)
    (bind_r (account_index accounts 0) (\<lambda>account_idx.
    bind_r (account_index accounts 1) (\<lambda>mint_idx.
    bind_r (account_index accounts 2) (\<lambda>auth_idx.
    bind_r (token_signer auth_idx) (\<lambda>auth_address.
    then_r (require_token_owned E account_idx)
    (bind_r (token_load_exact (mint_fmt E) mint_idx) (\<lambda>m.
    then_r (require (freeze_authority m = Some auth_address) (token_err TE_NoFreezeAuthority))
    (bind_r (token_load_exact (token_account_fmt E) account_idx) (\<lambda>ta.
    bind_r (get_account mint_idx) (\<lambda>mint_acc.
    then_r (require (tok_mint ta = ar_address mint_acc) (token_err TE_MintMismatch))
    (then_r (require (tok_state ta = TokFrozen) (token_err TE_NotInitialized))
    (token_save (token_account_fmt E) account_idx (ta\<lparr>tok_state := TokInitialized\<rparr>)))))))))))))"

definition process_token :: "env \<Rightarrow> bytes \<Rightarrow> bytes \<Rightarrow> sysvar_cache \<Rightarrow> unit rt" where
  "process_token E accounts data sysvars =
    bind_r (map_err (try_from_slice (token_ix_fmt E) data) InvalidInstructionData) (\<lambda>instruction.
    (case instruction of
       InitializeMint dec mint_auth freeze_auth \<Rightarrow>
         then_r (consume_compute TOKEN_INIT_MINT_COST) (token_initialize_mint E accounts dec mint_auth freeze_auth)
     | TokInitializeAccount \<Rightarrow> then_r (consume_compute TOKEN_INIT_ACCOUNT_COST) (token_initialize_account E accounts)
     | MintTo amount \<Rightarrow> then_r (consume_compute TOKEN_MINT_TO_COST) (token_mint_to E accounts amount)
     | TokTransfer amount \<Rightarrow> then_r (consume_compute TOKEN_TRANSFER_COST) (token_transfer E accounts amount)
     | Approve amount \<Rightarrow> then_r (consume_compute TOKEN_APPROVE_COST) (token_approve E accounts amount)
     | Revoke \<Rightarrow> then_r (consume_compute TOKEN_REVOKE_COST) (token_revoke E accounts)
     | Burn amount \<Rightarrow> then_r (consume_compute TOKEN_BURN_COST) (token_burn E accounts amount)
     | CloseAccount \<Rightarrow> then_r (consume_compute TOKEN_CLOSE_COST) (token_close_account E accounts)
     | FreezeAccount \<Rightarrow> then_r (consume_compute TOKEN_FREEZE_COST) (token_freeze_account E accounts)
     | ThawAccount \<Rightarrow> then_r (consume_compute TOKEN_THAW_COST) (token_thaw_account E accounts)))"

section \<open>Frame and lamports\<close>

lemmas token_step_defs = token_accounts_def token_signer_def require_token_owned_def token_load_def
  token_load_exact_def token_save_def token_claim_def

lemma frame_token_steps [frame_intros]:
  "frame.keeps (token_accounts accounts n)" "frame.keeps (token_signer i)" "frame.keeps (require_token_owned E i)"
  "frame.keeps (token_load c i)" "frame.keeps (token_load_exact c i)" "frame.keeps (token_save c i x)"
  "frame.keeps (token_claim E c i x)"
  unfolding token_step_defs by (intro frame_intros; simp add: exec_mono_def)+

lemma total_token_steps [total_intros]:
  "total.keeps_ok (token_accounts accounts n)" "total.keeps_ok (token_signer i)" "total.keeps_ok (require_token_owned E i)"
  "total.keeps_ok (token_load c i)" "total.keeps_ok (token_load_exact c i)" "total.keeps_ok (token_save c i x)"
  "total.keeps_ok (token_claim E c i x)"
  unfolding token_step_defs by (intro total_intros total.keeps_ok_bind; simp add: same_lamports_def)+

lemmas token_handler_defs = token_initialize_mint_def token_initialize_account_def token_mint_to_def token_transfer_def
  token_approve_def token_revoke_def token_burn_def token_freeze_account_def token_thaw_account_def

lemma frame_token_handlers [frame_intros]:
  "frame.keeps (token_initialize_mint E accounts dec h f)" "frame.keeps (token_initialize_account E accounts)"
  "frame.keeps (token_mint_to E accounts n)" "frame.keeps (token_transfer E accounts n)"
  "frame.keeps (token_approve E accounts n)" "frame.keeps (token_revoke E accounts)"
  "frame.keeps (token_burn E accounts n)" "frame.keeps (token_freeze_account E accounts)"
  "frame.keeps (token_thaw_account E accounts)"
  unfolding token_handler_defs Let_def by (intro frame_intros frame.keeps_if)+

lemma frame_token_close [frame_intros]: "frame.keeps (token_close_account E accounts)"
  unfolding token_close_account_def by (intro frame_intros) (simp add: exec_mono_def)

lemma frame_process_token [frame_intros]: "frame.keeps (process_token E accounts data sysvars)"
  unfolding process_token_def
  by (intro frame_intros) (auto split: token_instruction.split intro!: frame_intros)

lemma total_token_handlers [total_intros]:
  "total.keeps_ok (token_initialize_mint E accounts dec h f)" "total.keeps_ok (token_initialize_account E accounts)"
  "total.keeps_ok (token_mint_to E accounts n)" "total.keeps_ok (token_transfer E accounts n)"
  "total.keeps_ok (token_approve E accounts n)" "total.keeps_ok (token_revoke E accounts)"
  "total.keeps_ok (token_burn E accounts n)" "total.keeps_ok (token_freeze_account E accounts)"
  "total.keeps_ok (token_thaw_account E accounts)"
  unfolding token_handler_defs Let_def
  by (intro total_intros total.keeps_ok_if total.keeps_ok_bind)+

interpretation token_processor: framed_processor "process_token E" for E
  by unfold_locales (rule frame_process_token)

section \<open>Successful steps\<close>

lemma token_accounts_Ok_iff [ok_iff]: "token_accounts accounts n s = (Ok x, t) \<longleftrightarrow> n \<le> length accounts \<and> t = s"
  by (simp add: token_accounts_def ok_iff)

lemma token_signer_Ok_iff [ok_iff]:
  "token_signer i s = (Ok h, t) \<longleftrightarrow>
     t = s \<and> i < length (ctx_accounts s) \<and> is_signer (ctx_message s) i \<and> h = fst (ctx_accounts s ! i)"
  by (auto simp: token_signer_def ok_iff)

lemma require_token_owned_Ok_iff [ok_iff]:
  "require_token_owned E i s = (Ok x, t) \<longleftrightarrow>
     t = s \<and> i < length (ctx_accounts s) \<and> acc_owner (snd (ctx_accounts s ! i)) = TOKEN_PROGRAM_ID E"
  by (auto simp: require_token_owned_def ok_iff)

lemma token_load_Ok_iff [ok_iff]:
  "token_load c i s = (Ok x, t) \<longleftrightarrow>
     t = s \<and> i < length (ctx_accounts s) \<and> deserialize c (acc_data (snd (ctx_accounts s ! i))) = Inr x"
  by (auto simp: token_load_def ok_iff)

lemma token_save_Ok_iff [ok_iff]:
  "token_save c i x s = (Ok u, t) \<longleftrightarrow>
     i < length (ctx_accounts s) \<and> is_writable (ctx_message s) i \<and>
     (\<exists>d. to_vec c x = Inr d \<and>
        t = s\<lparr>ctx_accounts := (ctx_accounts s)
              [i := (fst (ctx_accounts s ! i), (snd (ctx_accounts s ! i))\<lparr>acc_data := d\<rparr>)]\<rparr>)"
  by (auto simp: token_save_def ok_iff)

definition tok_at :: "env \<Rightarrow> tx_ctx \<Rightarrow> nat \<Rightarrow> string + token_account" where
  "tok_at E s i = deserialize (token_account_fmt E) (acc_data (snd (ctx_accounts s ! i)))"

definition mint_at :: "env \<Rightarrow> tx_ctx \<Rightarrow> nat \<Rightarrow> string + mint" where
  "mint_at E s i = deserialize (mint_fmt E) (acc_data (snd (ctx_accounts s ! i)))"

text \<open>The effect of writing two states in a row to two different accounts.\<close>

lemma two_saves:
  assumes "token_save c i x s = (Ok u, t)" and "token_save d j y t = (Ok v, z)" and "i \<noteq> j"
    and "borsh_codec c" and "borsh_codec d"
  shows "deserialize c (acc_data (snd (ctx_accounts z ! i))) = Inr x"
    and "deserialize d (acc_data (snd (ctx_accounts z ! j))) = Inr y"
    and "l \<noteq> i \<Longrightarrow> l \<noteq> j \<Longrightarrow> ctx_accounts z ! l = ctx_accounts s ! l"
    and "acc_lamports (snd (ctx_accounts z ! l)) = acc_lamports (snd (ctx_accounts s ! l))"
  using assms(1-3)
  by (auto simp: ok_iff nth_list_update borsh_codec.deserialize_to_vec_exact [OF assms(4)]
      borsh_codec.deserialize_to_vec_exact [OF assms(5)])

section \<open>Properties\<close>

text \<open>What a transfer of \<open>n\<close> signed by \<open>h\<close> leaves of the delegation.\<close>

definition allowance_used :: "token_account \<Rightarrow> hash \<Rightarrow> u64 \<Rightarrow> token_account" where
  "allowance_used a h n = (if tok_delegate a = Some h \<and> 0 < tok_delegated_amount a
     then a\<lparr>tok_delegated_amount := tok_delegated_amount a - n\<rparr> else a)"

lemma allowance_used_simps [simp]:
  "tok_amount (allowance_used a h n) = tok_amount a" "tok_mint (allowance_used a h n) = tok_mint a"
  by (simp_all add: allowance_used_def)

lemma allowance_case_Ok [ok_iff]:
  "(if tok_delegate a = Some h \<and> 0 < tok_delegated_amount a
    then then_r (require c e) (return (a\<lparr>tok_delegated_amount := tok_delegated_amount a - n\<rparr>))
    else return a) s = (Ok x, t) \<longleftrightarrow>
   t = s \<and> x = allowance_used a h n \<and> (tok_delegate a = Some h \<longrightarrow> 0 < tok_delegated_amount a \<longrightarrow> c)"
  by (auto simp: ok_iff allowance_used_def)

lemma token_transfer_Ok:
  assumes "token_transfer E accounts n s = (Ok x, t)"
  defines "i \<equiv> unat (accounts ! 0)" and "j \<equiv> unat (accounts ! 1)" and "h \<equiv> fst (ctx_accounts s ! unat (accounts ! 2))"
  obtains a b d u where "tok_at E s i = Inr a" "tok_at E s j = Inr b" "i \<noteq> j" "tok_mint a = tok_mint b"
      "tok_state a \<noteq> TokFrozen" "tok_state b \<noteq> TokFrozen" "is_signer (ctx_message s) (unat (accounts ! 2))"
      "tok_owner a = h \<or> tok_delegate a = Some h \<and> 0 < tok_delegated_amount a"
      "tok_delegate a = Some h \<longrightarrow> 0 < tok_delegated_amount a \<longrightarrow> n \<le> tok_delegated_amount a"
      "n \<le> tok_amount a" "checked_add (tok_amount b) n = Some d"
      "token_save (token_account_fmt E) i ((allowance_used a h n)\<lparr>tok_amount := tok_amount a - n\<rparr>) s = (Ok (), u)"
      "token_save (token_account_fmt E) j (b\<lparr>tok_amount := d\<rparr>) u = (Ok x, t)"
  using assms(1)
  by (simp add: token_transfer_def bind_Ok_iff token_accounts_Ok_iff account_index_Ok_iff token_signer_Ok_iff
      require_token_owned_Ok_iff token_load_Ok_iff require_Ok_iff ok_or_Ok_iff allowance_case_Ok
      Let_def tok_at_def i_def j_def h_def) blast

text \<open>C21: a token transfer moves exactly the amount between two accounts of one mint, neither of them
  frozen, on the signature of the owner or of a delegate whose allowance covers and pays it; no other
  account and no lamports change.\<close>

theorem token_transfer_spec:
  assumes c: "borsh_codec (token_account_fmt E)" and r: "token_transfer E accounts n s = (Ok x, t)"
  defines "i \<equiv> unat (accounts ! 0)" and "j \<equiv> unat (accounts ! 1)" and "h \<equiv> fst (ctx_accounts s ! unat (accounts ! 2))"
  shows "\<exists>a b. tok_at E s i = Inr a \<and> tok_at E s j = Inr b \<and> i \<noteq> j \<and> tok_mint a = tok_mint b \<and>
     tok_state a \<noteq> TokFrozen \<and> tok_state b \<noteq> TokFrozen \<and> is_signer (ctx_message s) (unat (accounts ! 2)) \<and>
     (tok_owner a = h \<or> tok_delegate a = Some h \<and> n \<le> tok_delegated_amount a) \<and> n \<le> tok_amount a \<and>
     tok_at E t i = Inr ((allowance_used a h n)\<lparr>tok_amount := tok_amount a - n\<rparr>) \<and>
     tok_at E t j = Inr (b\<lparr>tok_amount := tok_amount b + n\<rparr>) \<and>
     unat (tok_amount b + n) = unat (tok_amount b) + unat n \<and>
     (\<forall>l. l \<noteq> i \<longrightarrow> l \<noteq> j \<longrightarrow> ctx_accounts t ! l = ctx_accounts s ! l) \<and>
     lamports_of (ctx_accounts t) = lamports_of (ctx_accounts s)"
  using r
proof (rule token_transfer_Ok)
  fix a b d u
  assume f: "tok_at E s (unat (accounts ! 0)) = Inr a" "tok_at E s (unat (accounts ! 1)) = Inr b"
      "unat (accounts ! 0) \<noteq> unat (accounts ! 1)" "tok_mint a = tok_mint b"
      "tok_state a \<noteq> TokFrozen" "tok_state b \<noteq> TokFrozen" "is_signer (ctx_message s) (unat (accounts ! 2))"
      "tok_owner a = fst (ctx_accounts s ! unat (accounts ! 2)) \<or>
         tok_delegate a = Some (fst (ctx_accounts s ! unat (accounts ! 2))) \<and> 0 < tok_delegated_amount a"
      "tok_delegate a = Some (fst (ctx_accounts s ! unat (accounts ! 2))) \<longrightarrow>
         0 < tok_delegated_amount a \<longrightarrow> n \<le> tok_delegated_amount a"
      "n \<le> tok_amount a"
    and d: "checked_add (tok_amount b) n = Some d"
    and w: "token_save (token_account_fmt E) (unat (accounts ! 0))
        ((allowance_used a (fst (ctx_accounts s ! unat (accounts ! 2))) n)\<lparr>tok_amount := tok_amount a - n\<rparr>) s = (Ok (), u)"
      "token_save (token_account_fmt E) (unat (accounts ! 1)) (b\<lparr>tok_amount := d\<rparr>) u = (Ok x, t)"
  note e = two_saves [OF w f(3) c c]
  have "lamports_of (ctx_accounts t) = lamports_of (ctx_accounts s)"
    using total.keeps_okD [OF total_token_handlers(4) r] by (simp add: same_total_def)
  with f d e(1,2,3) unat_checked_add [OF d] show ?thesis
    unfolding i_def j_def h_def
    by (intro exI [of _ a] exI [of _ b]) (auto simp: tok_at_def checked_add_Some)
qed

lemma token_mint_to_Ok:
  assumes "token_mint_to E accounts n s = (Ok x, t)"
  defines "i \<equiv> unat (accounts ! 0)" and "j \<equiv> unat (accounts ! 1)" and "h \<equiv> fst (ctx_accounts s ! unat (accounts ! 2))"
  obtains m a d d' u where "mint_at E s i = Inr m" "tok_at E s j = Inr a" "is_initialized m"
      "is_signer (ctx_message s) (unat (accounts ! 2))" "mint_authority m = Some h"
      "tok_state a \<noteq> TokFrozen" "tok_mint a = fst (ctx_accounts s ! i)"
      "checked_add (mint_supply m) n = Some d" "checked_add (tok_amount a) n = Some d'"
      "token_save (mint_fmt E) i (m\<lparr>mint_supply := d\<rparr>) s = (Ok (), u)"
      "token_save (token_account_fmt E) j (a\<lparr>tok_amount := d'\<rparr>) u = (Ok x, t)"
  using assms(1)
  by (simp add: token_mint_to_def bind_Ok_iff token_accounts_Ok_iff account_index_Ok_iff token_signer_Ok_iff
      require_token_owned_Ok_iff token_load_Ok_iff require_Ok_iff ok_or_Ok_iff get_account_Ok_iff
      tok_at_def mint_at_def i_def j_def h_def) blast

text \<open>C22: minting needs the signature of the mint authority and raises the supply and the balance of one
  unfrozen account of the mint by the same amount, without wrap-around.\<close>

theorem token_mint_to_spec:
  assumes c: "borsh_codec (token_account_fmt E)" "borsh_codec (mint_fmt E)"
    and r: "token_mint_to E accounts n s = (Ok x, t)" and ij: "accounts ! 0 \<noteq> accounts ! 1"
  shows "\<exists>m a m' a'. mint_at E s (unat (accounts ! 0)) = Inr m \<and> tok_at E s (unat (accounts ! 1)) = Inr a \<and>
     is_signer (ctx_message s) (unat (accounts ! 2)) \<and>
     mint_authority m = Some (fst (ctx_accounts s ! unat (accounts ! 2))) \<and>
     tok_mint a = fst (ctx_accounts s ! unat (accounts ! 0)) \<and> tok_state a \<noteq> TokFrozen \<and>
     mint_at E t (unat (accounts ! 0)) = Inr m' \<and> tok_at E t (unat (accounts ! 1)) = Inr a' \<and>
     m' = m\<lparr>mint_supply := mint_supply m'\<rparr> \<and> a' = a\<lparr>tok_amount := tok_amount a'\<rparr> \<and>
     unat (mint_supply m') = unat (mint_supply m) + unat n \<and> unat (tok_amount a') = unat (tok_amount a) + unat n"
  using r
proof (rule token_mint_to_Ok)
  fix m a d d' u
  assume f: "mint_at E s (unat (accounts ! 0)) = Inr m" "tok_at E s (unat (accounts ! 1)) = Inr a"
      "is_signer (ctx_message s) (unat (accounts ! 2))"
      "mint_authority m = Some (fst (ctx_accounts s ! unat (accounts ! 2)))"
      "tok_state a \<noteq> TokFrozen" "tok_mint a = fst (ctx_accounts s ! unat (accounts ! 0))"
    and d: "checked_add (mint_supply m) n = Some d" "checked_add (tok_amount a) n = Some d'"
    and w: "token_save (mint_fmt E) (unat (accounts ! 0)) (m\<lparr>mint_supply := d\<rparr>) s = (Ok (), u)"
      "token_save (token_account_fmt E) (unat (accounts ! 1)) (a\<lparr>tok_amount := d'\<rparr>) u = (Ok x, t)"
  have "unat (accounts ! 0) \<noteq> unat (accounts ! 1)" using ij by (simp add: word_unat_eq_iff)
  note e = two_saves [OF w this c(2,1)]
  from f e(1,2) d [THEN unat_checked_add] show ?thesis
    by (intro exI [of _ m] exI [of _ a] exI [of _ "m\<lparr>mint_supply := d\<rparr>"] exI [of _ "a\<lparr>tok_amount := d'\<rparr>"])
      (simp add: tok_at_def mint_at_def)
qed

definition burned :: "token_account \<Rightarrow> hash \<Rightarrow> u64 \<Rightarrow> token_account" where
  "burned a h n = (if tok_delegate a = Some h
     then a\<lparr>tok_amount := tok_amount a - n, tok_delegated_amount := tok_delegated_amount a - n\<rparr>
     else a\<lparr>tok_amount := tok_amount a - n\<rparr>)"

lemma burned_case_Ok [ok_iff]:
  "(if tok_delegate a = Some h
    then then_r (require c e) (return (a\<lparr>tok_amount := tok_amount a - n, tok_delegated_amount := tok_delegated_amount a - n\<rparr>))
    else return (a\<lparr>tok_amount := tok_amount a - n\<rparr>)) s = (Ok x, t) \<longleftrightarrow>
   t = s \<and> x = burned a h n \<and> (tok_delegate a = Some h \<longrightarrow> c)"
  by (auto simp: ok_iff burned_def)

lemma token_burn_Ok:
  assumes "token_burn E accounts n s = (Ok x, t)"
  defines "i \<equiv> unat (accounts ! 0)" and "j \<equiv> unat (accounts ! 1)" and "h \<equiv> fst (ctx_accounts s ! unat (accounts ! 2))"
  obtains a m d u where "tok_at E s i = Inr a" "mint_at E s j = Inr m" "i \<noteq> j"
      "is_signer (ctx_message s) (unat (accounts ! 2))" "tok_owner a = h \<or> tok_delegate a = Some h"
      "tok_delegate a = Some h \<longrightarrow> n \<le> tok_delegated_amount a" "n \<le> tok_amount a"
      "tok_mint a = fst (ctx_accounts s ! j)" "checked_sub (mint_supply m) n = Some d"
      "token_save (token_account_fmt E) i (burned a h n) s = (Ok (), u)"
      "token_save (mint_fmt E) j (m\<lparr>mint_supply := d\<rparr>) u = (Ok x, t)"
  using assms(1)
  by (simp add: token_burn_def bind_Ok_iff token_accounts_Ok_iff account_index_Ok_iff token_signer_Ok_iff
      require_token_owned_Ok_iff token_load_Ok_iff require_Ok_iff ok_or_Ok_iff get_account_Ok_iff burned_case_Ok
      tok_at_def mint_at_def i_def j_def h_def) blast

text \<open>Burning needs the signature of the owner or of a delegate with enough allowance and lowers the
  balance and the supply of the mint by the same amount, neither below zero.\<close>

theorem token_burn_spec:
  assumes c: "borsh_codec (token_account_fmt E)" "borsh_codec (mint_fmt E)"
    and r: "token_burn E accounts n s = (Ok x, t)"
  shows "\<exists>m a m' a'. tok_at E s (unat (accounts ! 0)) = Inr a \<and> mint_at E s (unat (accounts ! 1)) = Inr m \<and>
     is_signer (ctx_message s) (unat (accounts ! 2)) \<and> tok_mint a = fst (ctx_accounts s ! unat (accounts ! 1)) \<and>
     (let h = fst (ctx_accounts s ! unat (accounts ! 2)) in
        tok_owner a = h \<or> tok_delegate a = Some h \<and> n \<le> tok_delegated_amount a) \<and>
     tok_at E t (unat (accounts ! 0)) = Inr a' \<and> mint_at E t (unat (accounts ! 1)) = Inr m' \<and>
     unat (tok_amount a') + unat n = unat (tok_amount a) \<and> unat (mint_supply m') + unat n = unat (mint_supply m) \<and>
     m' = m\<lparr>mint_supply := mint_supply m'\<rparr> \<and> tok_owner a' = tok_owner a \<and> tok_state a' = tok_state a"
  using r
proof (rule token_burn_Ok)
  let ?h = "fst (ctx_accounts s ! unat (accounts ! 2))"
  fix a m d u
  assume f: "tok_at E s (unat (accounts ! 0)) = Inr a" "mint_at E s (unat (accounts ! 1)) = Inr m"
      "unat (accounts ! 0) \<noteq> unat (accounts ! 1)" "is_signer (ctx_message s) (unat (accounts ! 2))"
      "tok_owner a = ?h \<or> tok_delegate a = Some ?h" "tok_delegate a = Some ?h \<longrightarrow> n \<le> tok_delegated_amount a"
      "tok_mint a = fst (ctx_accounts s ! unat (accounts ! 1))"
    and n: "n \<le> tok_amount a" and d: "checked_sub (mint_supply m) n = Some d"
    and w: "token_save (token_account_fmt E) (unat (accounts ! 0)) (burned a ?h n) s = (Ok (), u)"
      "token_save (mint_fmt E) (unat (accounts ! 1)) (m\<lparr>mint_supply := d\<rparr>) u = (Ok x, t)"
  note e = two_saves [OF w f(3) c]
  have "unat (tok_amount (burned a ?h n)) + unat n = unat (tok_amount a)"
    using n by (simp add: burned_def unat_sub_le word_le_nat_alt)
  moreover have "unat d + unat n = unat (mint_supply m)"
    using d by (auto simp: checked_sub_Some unat_sub_le word_le_nat_alt)
  moreover have "tok_owner (burned a ?h n) = tok_owner a" "tok_state (burned a ?h n) = tok_state a"
    by (simp_all add: burned_def)
  ultimately show ?thesis using f e(1,2)
    by (intro exI [of _ m] exI [of _ a] exI [of _ "m\<lparr>mint_supply := d\<rparr>"] exI [of _ "burned a ?h n"])
      (auto simp: tok_at_def mint_at_def Let_def)
qed

lemma token_close_Ok:
  assumes "token_close_account E accounts s = (Ok x, t)"
  defines "i \<equiv> unat (accounts ! 0)" and "j \<equiv> unat (accounts ! 1)"
  obtains u where "i < length (ctx_accounts s)"
      "with_account_mut j (credit (acc_lamports (snd (ctx_accounts s ! i)))) s = (Ok (), u)"
      "with_account_mut i (modify (\<lambda>a. a\<lparr>acc_lamports := 0, acc_data := []\<rparr>)) u = (Ok x, t)"
  using assms(1)
  by (auto simp: token_close_account_def bind_Ok_iff token_accounts_Ok_iff account_index_Ok_iff token_signer_Ok_iff
      token_load_Ok_iff require_Ok_iff get_account_Ok_iff i_def j_def)

lemma token_close_total:
  assumes "token_close_account E accounts s = (Ok x, t)"
  shows "lamports_of (ctx_accounts t) \<le> lamports_of (ctx_accounts s)"
    and "accounts ! 0 \<noteq> accounts ! 1 \<Longrightarrow> lamports_of (ctx_accounts t) = lamports_of (ctx_accounts s)"
proof -
  let ?i = "unat (accounts ! 0)" and ?j = "unat (accounts ! 1)"
  let ?l = "\<lambda>s. unat (acc_lamports (snd (ctx_accounts s ! ?i)))"
  obtain u where i: "?i < length (ctx_accounts s)"
    and u: "with_account_mut ?j (credit (acc_lamports (snd (ctx_accounts s ! ?i)))) s = (Ok (), u)"
    and t: "with_account_mut ?i (modify (\<lambda>a. a\<lparr>acc_lamports := 0, acc_data := []\<rparr>)) u = (Ok x, t)"
    using assms by (rule token_close_Ok)
  have 1: "lamports_of (ctx_accounts u) = lamports_of (ctx_accounts s) + ?l s"
    using u shift_credit by (fastforce simp: total_shift_def)
  have 2: "lamports_of (ctx_accounts t) + ?l u = lamports_of (ctx_accounts u)"
    using t by (rule with_account_mut_total) (auto simp: modify_Ok_iff)
  have 4: "?l s = ?l u" if "accounts ! 0 \<noteq> accounts ! 1"
    using u i that by (cases "?i = ?j") (auto simp: ok_iff word_unat_eq_iff)
  have 3: "?l s \<le> ?l u"
    using u i by (cases "?i = ?j") (auto simp: ok_iff dest!: unat_checked_add)
  from 1 2 3 show "lamports_of (ctx_accounts t) \<le> lamports_of (ctx_accounts s)" by linarith
  from 1 2 4 show "lamports_of (ctx_accounts t) = lamports_of (ctx_accounts s)" if "accounts ! 0 \<noteq> accounts ! 1"
    using that by simp
qed

text \<open>C23: no successful token instruction creates lamports; only closing an account into itself lets the total of the
  transaction drop, and then the post-execution check rejects the transaction.\<close>

theorem process_token_lamports:
  assumes "process_token E accounts data sysvars s = (Ok x, t)"
  shows "lamports_of (ctx_accounts t) \<le> lamports_of (ctx_accounts s) \<and>
     (lamports_of (ctx_accounts t) < lamports_of (ctx_accounts s) \<longrightarrow>
        try_from_slice (token_ix_fmt E) data = Inr CloseAccount \<and> accounts ! 0 = accounts ! 1)"
proof -
  obtain ix where ix: "try_from_slice (token_ix_fmt E) data = Inr ix"
    using assms by (auto simp: process_token_def ok_iff)
  show ?thesis
  proof (cases "ix = CloseAccount")
    case True
    with assms ix obtain m where "token_close_account E accounts (s\<lparr>ctx_meter := m\<rparr>) = (Ok x, t)"
      by (auto simp: process_token_def bind_Ok_iff map_err_Ok_iff consume_compute_Ok_iff)
    note cl = token_close_total [OF this]
    from cl(1) cl(2) True ix show ?thesis by (cases "accounts ! 0 = accounts ! 1") auto
  next
    case False
    have "total.keeps_ok (process_token E accounts data sysvars)"
      unfolding process_token_def using ix False
      by (cases ix) (auto simp: map_err_def intro!: total_intros total.keeps_ok_bind)
    from total.keeps_okD [OF this assms] show ?thesis by (simp add: same_total_def)
  qed
qed

text \<open>C40: the initializing handler asks for no signature of the account it claims. An unsigned, writable
  wallet without data can therefore be turned into a token account of someone else, and closing that
  account moves all its lamports to whoever did it.\<close>

theorem wallet_takeover:
  assumes c: "borsh_codec (token_account_fmt E)" "\<And>a. \<exists>b. to_vec (token_account_fmt E) a = Inr b"
    and idx: "unat v < length (ctx_accounts s)" "unat m < length (ctx_accounts s)" "unat a < length (ctx_accounts s)" "v \<noteq> a"
    and victim: "\<not> is_signer (ctx_message s) (unat v)" "is_writable (ctx_message s) (unat v)"
      "acc_owner (snd (ctx_accounts s ! unat v)) = SYSTEM_PROGRAM_ID E" "acc_data (snd (ctx_accounts s ! unat v)) = []"
    and thief: "is_signer (ctx_message s) (unat a)" "is_writable (ctx_message s) (unat a)"
    and mint: "mint_at E s (unat m) = Inr mi" "is_initialized mi"
    and sum: "unat (acc_lamports (snd (ctx_accounts s ! unat a))) + unat (acc_lamports (snd (ctx_accounts s ! unat v))) < 2 ^ 64"
  shows "\<exists>t u. token_initialize_account E [v, m, a] s = (Ok (), t) \<and>
     token_close_account E [v, a, a] t = (Ok (), u) \<and>
     acc_lamports (snd (ctx_accounts u ! unat v)) = 0 \<and>
     acc_lamports (snd (ctx_accounts u ! unat a)) =
       acc_lamports (snd (ctx_accounts s ! unat a)) + acc_lamports (snd (ctx_accounts s ! unat v))"
proof -
  have va: "unat v \<noteq> unat a" using idx(4) by (simp add: word_unat_eq_iff)
  define ta where "ta = \<lparr>tok_mint = fst (ctx_accounts s ! unat m), tok_owner = fst (ctx_accounts s ! unat a),
     tok_amount = 0, tok_delegate = None, tok_state = TokInitialized, tok_delegated_amount = 0, tok_close_authority = None\<rparr>"
  obtain d where d: "to_vec (token_account_fmt E) ta = Inr d" using c(2) by blast
  define t where "t = s\<lparr>ctx_accounts := (ctx_accounts s)[unat v := (fst (ctx_accounts s ! unat v),
      (snd (ctx_accounts s ! unat v))\<lparr>acc_data := d, acc_owner := TOKEN_PROGRAM_ID E\<rparr>)]\<rparr>"
  have "token_initialize_account E [v, m, a] s = (Ok (), t)"
    using idx victim mint d
    by (simp add: token_initialize_account_def token_accounts_def token_load_def token_claim_def token_claimable_def
        run_simps mint_at_def t_def ta_def del: is_signer_def is_writable_def)
  moreover have "tok_at E t (unat v) = Inr ta"
    using idx(1) borsh_codec.deserialize_to_vec_exact [OF c(1) d] by (simp add: tok_at_def t_def)
  then have "\<exists>u. token_close_account E [v, a, a] t = (Ok (), u) \<and> acc_lamports (snd (ctx_accounts u ! unat v)) = 0 \<and>
     acc_lamports (snd (ctx_accounts u ! unat a)) =
       acc_lamports (snd (ctx_accounts s ! unat a)) + acc_lamports (snd (ctx_accounts s ! unat v))"
    using idx victim thief va sum
    by (simp add: token_close_account_def token_accounts_def token_load_def token_signer_def tok_at_def run_simps
        t_def ta_def del: is_signer_def is_writable_def)
  ultimately show ?thesis by blast
qed

text \<open>Nor does it ask for a signature to create a mint: on a writable token account whose bytes do not
  decode as an initialized mint it succeeds for anybody and replaces the account, whatever balance it
  holds.\<close>

theorem initialize_mint_overwrites:
  assumes c: "borsh_codec (mint_fmt E)" "\<And>m. \<exists>b. to_vec (mint_fmt E) m = Inr b"
    and i: "unat i < length (ctx_accounts s)" "is_writable (ctx_message s) (unat i)"
      "acc_owner (snd (ctx_accounts s ! unat i)) = TOKEN_PROGRAM_ID E"
    and a: "tok_at E s (unat i) = Inr a" and nm: "\<And>m. mint_at E s (unat i) = Inr m \<Longrightarrow> \<not> is_initialized m"
  shows "\<exists>t m. token_initialize_mint E [i] dec h f s = (Ok (), t) \<and> mint_at E t (unat i) = Inr m \<and>
     mint_authority m = Some h \<and> mint_supply m = 0"
proof -
  let ?m = "\<lparr>mint_authority = Some h, mint_supply = 0, decimals = dec, is_initialized = True, freeze_authority = f\<rparr>"
  obtain b where b: "to_vec (mint_fmt E) ?m = Inr b" using c(2) by blast
  have "\<not> (case mint_at E s (unat i) of Inr m \<Rightarrow> is_initialized m | Inl _ \<Rightarrow> False)"
    using nm by (simp split: sum.split)
  with i b borsh_codec.deserialize_to_vec_exact [OF c(1) b] show ?thesis
    by (simp add: token_initialize_mint_def token_accounts_def token_claim_def token_claimable_def run_simps
        mint_at_def del: is_signer_def is_writable_def)
qed

section \<open>Witnesses\<close>

definition mint_bytes :: "mint \<Rightarrow> bytes" where
  "mint_bytes m = (case to_vec mint_codec m of Inr b \<Rightarrow> b | Inl _ \<Rightarrow> [])"

definition token_bytes :: "token_account \<Rightarrow> bytes" where
  "token_bytes a = (case to_vec token_account_codec a of Inr b \<Rightarrow> b | Inl _ \<Rightarrow> [])"

lemma to_vec_mint_bytes: "to_vec mint_codec m = Inr (mint_bytes m)"
  by (cases "mint_authority m"; cases "freeze_authority m") (simp_all add: mint_bytes_def codec_simps)

lemma to_vec_token_bytes: "to_vec token_account_codec a = Inr (token_bytes a)"
  by (cases "tok_delegate a"; cases "tok_close_authority a"; cases "tok_state a")
    (simp_all add: token_bytes_def codec_simps)

lemma deserialize_mint_bytes: "deserialize mint_codec (mint_bytes m) = Inr m"
  by (rule mint_format.deserialize_to_vec_exact) (rule to_vec_mint_bytes)

lemma deserialize_token_bytes: "deserialize token_account_codec (token_bytes a) = Inr a"
  by (rule token_account_format.deserialize_to_vec_exact) (rule to_vec_token_bytes)

lemma sample_token_codecs:
  "borsh_codec (mint_fmt sample_env)" "borsh_codec (token_account_fmt sample_env)"
  by (simp_all add: sample_env_def mint_format.borsh_codec_axioms token_account_format.borsh_codec_axioms)

definition sample_mint :: mint where
  "sample_mint = \<lparr>mint_authority = Some 1, mint_supply = 700, decimals = 2, is_initialized = True, freeze_authority = None\<rparr>"

definition sample_token :: "hash \<Rightarrow> u64 \<Rightarrow> token_account" where
  "sample_token h n = \<lparr>tok_mint = 3, tok_owner = h, tok_amount = n, tok_delegate = None, tok_state = TokInitialized,
     tok_delegated_amount = 0, tok_close_authority = None\<rparr>"

text \<open>A payer with tokens, a second token account, the mint, all owned by the token program.\<close>

definition sample_token_ctx :: tx_ctx where
  "sample_token_ctx = sample_ctx
     [sample_account 50 (TOKEN_PROGRAM_ID sample_env) (token_bytes (sample_token 1 500)),
      sample_account 60 (TOKEN_PROGRAM_ID sample_env) (token_bytes (sample_token 2 200)),
      sample_account 70 (TOKEN_PROGRAM_ID sample_env) (mint_bytes sample_mint)]"

lemmas sample_token_simps = run_simps sample_env_def sample_token_ctx_def sample_token_def sample_mint_def
  to_vec_mint_bytes to_vec_token_bytes deserialize_mint_bytes deserialize_token_bytes token_step_defs Let_def

theorem token_transfer_spec_witness:
  "\<exists>t. token_transfer sample_env [0, 1, 0] 30 sample_token_ctx = (Ok (), t) \<and>
       tok_at sample_env t 1 = Inr (sample_token 2 230)"
proof (rule run_witness)
  show "fst (token_transfer sample_env [0, 1, 0] 30 sample_token_ctx) = Ok ()"
    by (simp add: token_transfer_def sample_token_simps)
  have "tok_at sample_env sample_token_ctx 1 = Inr (sample_token 2 200)"
    by (simp add: tok_at_def sample_token_simps)
  then show "tok_at sample_env t 1 = Inr (sample_token 2 230)"
    if "token_transfer sample_env [0, 1, 0] 30 sample_token_ctx = (Ok (), t)" for t
    using token_transfer_spec [OF sample_token_codecs(2) that] by (auto simp: sample_token_def)
qed

theorem token_mint_to_spec_witness:
  "\<exists>t. token_mint_to sample_env [2, 1, 0] 30 sample_token_ctx = (Ok (), t) \<and>
       (\<exists>m. mint_at sample_env t 2 = Inr m \<and> unat (mint_supply m) = 730)"
proof (rule run_witness)
  show "fst (token_mint_to sample_env [2, 1, 0] 30 sample_token_ctx) = Ok ()"
    by (simp add: token_mint_to_def sample_token_simps)
  have "mint_at sample_env sample_token_ctx 2 = Inr sample_mint"
    by (simp add: mint_at_def sample_token_simps)
  then show "\<exists>m. mint_at sample_env t 2 = Inr m \<and> unat (mint_supply m) = 730"
    if "token_mint_to sample_env [2, 1, 0] 30 sample_token_ctx = (Ok (), t)" for t
    using token_mint_to_spec [OF sample_token_codecs(2,1) that] by (auto simp: sample_mint_def)
qed

theorem token_burn_spec_witness:
  "\<exists>t. token_burn sample_env [0, 2, 0] 30 sample_token_ctx = (Ok (), t) \<and>
       (\<exists>m. mint_at sample_env t 2 = Inr m \<and> unat (mint_supply m) + 30 = 700)"
proof (rule run_witness)
  show "fst (token_burn sample_env [0, 2, 0] 30 sample_token_ctx) = Ok ()"
    by (simp add: token_burn_def sample_token_simps)
  have "mint_at sample_env sample_token_ctx 2 = Inr sample_mint"
    by (simp add: mint_at_def sample_token_simps)
  then show "\<exists>m. mint_at sample_env t 2 = Inr m \<and> unat (mint_supply m) + 30 = 700"
    if "token_burn sample_env [0, 2, 0] 30 sample_token_ctx = (Ok (), t)" for t
    using token_burn_spec [OF sample_token_codecs(2,1) that] by (auto simp: sample_mint_def)
qed

theorem process_token_lamports_witness:
  "\<exists>t. process_token sample_env [1, 1, 0] [7] sample_sysvars
         (sample_ctx [sample_account 50 0 [], sample_account 60 (TOKEN_PROGRAM_ID sample_env) (token_bytes (sample_token 1 0))])
         = (Ok (), t) \<and>
       lamports_of (ctx_accounts t) \<le> 110"
proof (rule run_witness)
  let ?s = "sample_ctx [sample_account 50 0 [], sample_account 60 (TOKEN_PROGRAM_ID sample_env) (token_bytes (sample_token 1 0))]"
  have ix: "try_from_slice token_instruction_codec [7] = Inr CloseAccount" by (simp add: codec_simps)
  show "fst (process_token sample_env [1, 1, 0] [7] sample_sysvars ?s) = Ok ()"
    by (simp add: process_token_def ix TOKEN_CLOSE_COST_def token_close_account_def sample_token_simps)
  show "lamports_of (ctx_accounts t) \<le> 110" if "process_token sample_env [1, 1, 0] [7] sample_sysvars ?s = (Ok (), t)" for t
    using process_token_lamports [OF that] by (auto simp: run_simps lamports_of_def)
qed

theorem wallet_takeover_witness:
  "\<exists>t u. token_initialize_account sample_env [2, 1, 0]
           (sample_ctx [sample_account 5 0 [], sample_account 7 (TOKEN_PROGRAM_ID sample_env) (mint_bytes sample_mint),
                        sample_account 1000 (SYSTEM_PROGRAM_ID sample_env) []]) = (Ok (), t) \<and>
         token_close_account sample_env [2, 0, 0] t = (Ok (), u) \<and>
         acc_lamports (snd (ctx_accounts u ! 2)) = 0 \<and> acc_lamports (snd (ctx_accounts u ! 0)) = 1005"
proof -
  let ?s = "sample_ctx [sample_account 5 0 [], sample_account 7 (TOKEN_PROGRAM_ID sample_env) (mint_bytes sample_mint),
                        sample_account 1000 (SYSTEM_PROGRAM_ID sample_env) []]"
  have v: "\<exists>b. to_vec (token_account_fmt sample_env) a = Inr b" for a
    by (simp add: sample_env_def to_vec_token_bytes)
  have m: "mint_at sample_env ?s (unat (1 :: u8)) = Inr sample_mint" "is_initialized sample_mint"
    by (simp_all add: mint_at_def sample_token_simps)
  have "unat (2 :: u8) < length (ctx_accounts ?s)" "unat (1 :: u8) < length (ctx_accounts ?s)"
    "unat (0 :: u8) < length (ctx_accounts ?s)" "(2 :: u8) \<noteq> 0"
    "\<not> is_signer (ctx_message ?s) (unat (2 :: u8))" "is_writable (ctx_message ?s) (unat (2 :: u8))"
    "acc_owner (snd (ctx_accounts ?s ! unat (2 :: u8))) = SYSTEM_PROGRAM_ID sample_env"
    "acc_data (snd (ctx_accounts ?s ! unat (2 :: u8))) = []"
    "is_signer (ctx_message ?s) (unat (0 :: u8))" "is_writable (ctx_message ?s) (unat (0 :: u8))"
    by (simp_all add: run_simps)
  note wallet_takeover [OF sample_token_codecs(2) v this m]
  then show ?thesis by (simp add: run_simps)
qed

text \<open>A mint key whose first byte is neither 0 nor 1 keeps a token account from decoding as a mint.\<close>

lemma le_enc_last: "le_enc (Suc n) v = le_enc n v @ [of_nat (v div 256 ^ n mod 256)]"
  by (induction n arbitrary: v) (simp_all add: div_mult2_eq)

lemma token_not_mint:
  fixes h :: hash
  assumes "2 \<le> unat h div 256 ^ 63"
  shows "\<exists>e. deserialize mint_codec (token_bytes (a\<lparr>tok_mint := h\<rparr>)) = Inl e"
proof -
  let ?t = "of_nat (unat h div 256 ^ 63 mod 256) :: u8"
  have "unat h < 256 ^ 64" using unat_bound [of h] by simp
  then have "unat h div 256 ^ 63 < 256" by (simp add: less_mult_imp_div_less)
  with assms have t: "2 \<le> unat ?t" by (simp add: unat_of_nat_small)
  have "\<exists>r. ?t # r = token_bytes (a\<lparr>tok_mint := h\<rparr>)"
    using to_vec_token_bytes [of "a\<lparr>tok_mint := h\<rparr>"] le_enc_last [of 63 "unat h"]
    by (auto simp: token_account_codec_def iso_codec_def prod_codec_def hash_codec_def split: sum.splits)
  then obtain r where "token_bytes (a\<lparr>tok_mint := h\<rparr>) = ?t # r" by metis
  with t show ?thesis
    by (auto simp: deserialize_def mint_codec_def iso_codec_def prod_codec_def option_codec_def enum_codec_def)
qed

theorem initialize_mint_overwrites_witness:
  "\<exists>t m. token_initialize_mint sample_env [1] 0 9 None
           (sample_ctx [sample_account 5 0 [], sample_account 60 (TOKEN_PROGRAM_ID sample_env)
              (token_bytes (sample_token 2 200\<lparr>tok_mint := - 1\<rparr>))]) = (Ok (), t) \<and>
     mint_at sample_env t 1 = Inr m \<and> mint_authority m = Some 9 \<and> mint_supply m = 0"
proof -
  let ?s = "sample_ctx [sample_account 5 0 [], sample_account 60 (TOKEN_PROGRAM_ID sample_env)
              (token_bytes (sample_token 2 200\<lparr>tok_mint := - 1\<rparr>))]"
  have v: "\<exists>b. to_vec (mint_fmt sample_env) m = Inr b" for m
    by (simp add: sample_env_def to_vec_mint_bytes)
  have a: "tok_at sample_env ?s (unat (1 :: u8)) = Inr (sample_token 2 200\<lparr>tok_mint := - 1\<rparr>)"
    by (simp add: tok_at_def sample_token_simps)
  have "unat (- 1 :: hash) div 256 ^ 63 \<ge> 2" by (simp add: unat_minus_1)
  from token_not_mint [OF this, of "sample_token 2 200"] have m: "\<not> is_initialized mi" if "mint_at sample_env ?s (unat (1 :: u8)) = Inr mi" for mi
    using that by (auto simp: mint_at_def sample_env_def run_simps)
  show ?thesis
    using initialize_mint_overwrites [OF sample_token_codecs(1) v _ _ _ a m] by (simp add: run_simps)
qed

end
