(* ===== verification/Loader.thy ===== *)
theory Loader
  imports Env Tx_Context
begin

text \<open>
  The program loader: \<open>loader-program/src/state.rs\<close> and the handlers of
  \<open>runtime/src/processors/loader/\<close>. A buffer collects bytecode by writes at offsets, a deployment
  moves it into a program-data account behind an executable program account, an upgrade replaces it
  within the space reserved at deployment. The theorems follow the bytecode: what was written is what
  is deployed, and what was deployed or upgraded is what \<open>extract_bytecode\<close> hands to the engine.
\<close>

definition LOADER_INITIALIZE_BUFFER_COST :: u64 where "LOADER_INITIALIZE_BUFFER_COST = 500"
definition LOADER_WRITE_COST :: u64 where "LOADER_WRITE_COST = 200"
definition LOADER_DEPLOY_COST :: u64 where "LOADER_DEPLOY_COST = 5000"
definition LOADER_UPGRADE_COST :: u64 where "LOADER_UPGRADE_COST = 5000"
definition LOADER_SET_AUTHORITY_COST :: u64 where "LOADER_SET_AUTHORITY_COST = 500"
definition LOADER_CLOSE_COST :: u64 where "LOADER_CLOSE_COST = 500"

section \<open>State of loader accounts\<close>

definition from_account_data :: "env \<Rightarrow> bytes \<Rightarrow> string + loader_state" where
  "from_account_data E d = (if d = [] then Inr LsUninitialized else deserialize (loader_state_fmt E) d)"

fun loader_authority :: "loader_state \<Rightarrow> hash option" where
  "loader_authority (LsBuffer a) = a"
| "loader_authority (LsProgramData _ a _) = a"
| "loader_authority _ = None"

text \<open>\<open>Vec::resize(n, 0)\<close>, \<open>xs[n..]\<close> and \<open>xs[a..b].copy_from_slice(d)\<close> for \<open>b = a + d.len()\<close>\<close>

definition resize :: "nat \<Rightarrow> bytes \<Rightarrow> bytes" where
  "resize n d = take n d @ replicate (n - length d) 0"

definition slice_from :: "nat \<Rightarrow> bytes \<Rightarrow> ('s, 'e, bytes) rm" where
  "slice_from n d = (if n \<le> length d then return (drop n d) else panic)"

definition copy_at :: "nat \<Rightarrow> bytes \<Rightarrow> bytes \<Rightarrow> bytes" where
  "copy_at a x d = take a d @ x @ drop (a + length x) d"

text \<open>The end of the bytecode is a \<open>usize\<close> sum with a length read from the account, so it may wrap.\<close>

definition extract_bytecode :: "env \<Rightarrow> bytes \<Rightarrow> (string, bytes) outcome" where
  "extract_bytecode E d =
    (case deserialize (loader_state_fmt E) d of
       Inl e \<Rightarrow> Err e
     | Inr st \<Rightarrow>
         (case st of
            LsProgramData sl auth bytecode_len \<Rightarrow>
              (case to_vec (loader_state_fmt E) st of
                 Inl e \<Rightarrow> Err e
               | Inr h \<Rightarrow>
                   if length d < length h then Err ''account data too short for ProgramData header''
                   else let end' = unat (of_nat (length h) + bytecode_len) in
                     if length d < end' then Err ''account data too short for bytecode''
                     else if end' < length h then Panic
                     else Ok (take (end' - length h) (drop (length h) d)))
          | _ \<Rightarrow> Err ''not a ProgramData account''))"

section \<open>Handlers\<close>

definition loader_state_of :: "env \<Rightarrow> account \<Rightarrow> ('s, runtime_error, loader_state) rm" where
  "loader_state_of E a = map_err (from_account_data E (acc_data a)) InvalidAccountData"

definition loader_header :: "env \<Rightarrow> loader_state \<Rightarrow> ('s, runtime_error, bytes) rm" where
  "loader_header E st = map_err (to_vec (loader_state_fmt E) st) InvalidAccountData"

definition require_buffer :: "loader_state \<Rightarrow> hash \<Rightarrow> nat \<Rightarrow> string \<Rightarrow> ('s, runtime_error, unit) rm" where
  "require_buffer st authority_address authority_idx msg =
    (case st of
       LsBuffer authority \<Rightarrow> require (authority = Some authority_address) (AccountNotSigner authority_idx)
     | _ \<Rightarrow> fail (InvalidAccountData msg))"

definition loader_initialize_buffer :: "env \<Rightarrow> bytes \<Rightarrow> unit rt" where
  "loader_initialize_buffer E accounts =
    then_r (require_accounts accounts 2 ''InitializeBuffer'')
    (bind_r (account_index accounts 0) (\<lambda>buffer_idx.
    bind_r (account_index accounts 1) (\<lambda>authority_idx.
    bind_r (require_signer authority_idx) (\<lambda>authority_address.
    then_r (require_signer buffer_idx)
    (bind_r (loader_header E (LsBuffer (Some authority_address))) (\<lambda>state_bytes.
    with_account_mut buffer_idx (modify (\<lambda>a. a\<lparr>acc_owner := LOADER_PROGRAM_ID E, acc_data := state_bytes\<rparr>))))))))"

text \<open>
  The write through the mutable reference to the buffer. Lengths of vectors fit a \<open>usize\<close>, and the
  offset is 32 bits wide, so the sums do not wrap.
\<close>

definition buffer_write :: "env \<Rightarrow> hash \<Rightarrow> u32 \<Rightarrow> bytes \<Rightarrow> (account, runtime_error, unit) rm" where
  "buffer_write E authority_address offset d =
    bind_r (loader_header E (LsBuffer (Some authority_address))) (\<lambda>h.
    let write_start = length h + unat offset; write_end = write_start + length d in
    then_r (require (write_end \<le> unat MAX_ACCOUNT_DATA_SIZE) (AccountDataTooLarge (of_nat write_end) MAX_ACCOUNT_DATA_SIZE))
    (modify (\<lambda>a. a\<lparr>acc_data := copy_at write_start d
       (if length (acc_data a) < write_end then resize write_end (acc_data a) else acc_data a)\<rparr>)))"

definition loader_write :: "env \<Rightarrow> bytes \<Rightarrow> u32 \<Rightarrow> bytes \<Rightarrow> unit rt" where
  "loader_write E accounts offset d =
    then_r (require_accounts accounts 2 ''Write'')
    (bind_r (account_index accounts 0) (\<lambda>buffer_idx.
    bind_r (account_index accounts 1) (\<lambda>authority_idx.
    bind_r (require_signer authority_idx) (\<lambda>authority_address.
    bind_r (get_account buffer_idx) (\<lambda>buffer.
    then_r (require (acc_owner (ar_account buffer) = LOADER_PROGRAM_ID E) AccountOwnerMismatch)
    (bind_r (loader_state_of E (ar_account buffer)) (\<lambda>state.
    then_r (require_buffer state authority_address authority_idx ''account is not a buffer'')
    (with_account_mut buffer_idx (buffer_write E authority_address offset d)))))))))"

definition loader_fresh :: "env \<Rightarrow> account \<Rightarrow> bool" where
  "loader_fresh E a \<longleftrightarrow> acc_data a = [] \<and> \<not> acc_executable a \<and> acc_lamports a = 0 \<and>
     (acc_owner a = SYSTEM_PROGRAM_ID E \<or> acc_owner a = hash_zero)"

definition loader_deploy :: "env \<Rightarrow> bytes \<Rightarrow> u64 \<Rightarrow> sysvar_cache \<Rightarrow> unit rt" where
  "loader_deploy E accounts max_data_len sysvars =
    then_r (require_accounts accounts 5 ''Deploy'')
    (bind_r (account_index accounts 0) (\<lambda>payer_idx.
    bind_r (account_index accounts 1) (\<lambda>program_idx.
    bind_r (account_index accounts 2) (\<lambda>program_data_idx.
    bind_r (account_index accounts 3) (\<lambda>buffer_idx.
    bind_r (account_index accounts 4) (\<lambda>authority_idx.
    then_r (require_signer payer_idx)
    (then_r (require_signer program_idx)
    (bind_r (require_signer authority_idx) (\<lambda>authority_address.
    bind_r (get_account program_idx) (\<lambda>program.
    then_r (require (loader_fresh E (ar_account program)) AccountAlreadyExists)
    (bind_r (get_account program_data_idx) (\<lambda>pd.
    then_r (require (loader_fresh E (ar_account pd)) AccountAlreadyExists)
    (bind_r (get_account buffer_idx) (\<lambda>buffer.
    then_r (require (acc_owner (ar_account buffer) = LOADER_PROGRAM_ID E) AccountOwnerMismatch)
    (bind_r (loader_state_of E (ar_account buffer)) (\<lambda>state.
    then_r (require_buffer state authority_address authority_idx ''account is not a buffer'')
    (bind_r (loader_header E state) (\<lambda>header_bytes.
    bind_r (slice_from (length header_bytes) (acc_data (ar_account buffer))) (\<lambda>bytecode.
    let buffer_lamports = acc_lamports (ar_account buffer) in
    then_r (map_err (wasm_validate E bytecode) WasmError)
    (bind_r (get_account program_data_idx) (\<lambda>pd.
    bind_r (loader_header E (LsProgram (ar_address pd))) (\<lambda>program_state_bytes.
    then_r (with_account_mut program_idx (modify (\<lambda>a.
       a\<lparr>acc_owner := LOADER_PROGRAM_ID E, acc_executable := True, acc_data := program_state_bytes\<rparr>)))
    (bind_r (gets ctx_slot) (\<lambda>slot.
    bind_r (loader_header E (LsProgramData slot (Some authority_address) (of_nat (length bytecode)))) (\<lambda>pd_header_bytes.
    then_r (require (max_data_len \<le> MAX_ACCOUNT_DATA_SIZE) (AccountDataTooLarge max_data_len MAX_ACCOUNT_DATA_SIZE))
    (let bytecode_space = max (unat max_data_len) (length bytecode);
         pd_rent = minimum_balance (sv_rent sysvars) (length pd_header_bytes + bytecode_space) in
    then_r (with_account_mut payer_idx (debit pd_rent))
    (then_r (with_account_mut program_data_idx
       (then_r (modify (\<lambda>a. a\<lparr>acc_owner := LOADER_PROGRAM_ID E\<rparr>))
       (then_r (credit pd_rent)
       (modify (\<lambda>a. a\<lparr>acc_data := resize (length pd_header_bytes + bytecode_space) (pd_header_bytes @ bytecode)\<rparr>)))))
    (then_r (with_account_mut buffer_idx (modify (\<lambda>a. a\<lparr>acc_data := [], acc_lamports := 0\<rparr>)))
    (with_account_mut payer_idx (credit buffer_lamports))))))))))))))))))))))))))))))"

text \<open>The replacement of the bytecode through the mutable reference to the program-data account.\<close>

definition replace_bytecode :: "nat \<Rightarrow> bytes \<Rightarrow> bytes \<Rightarrow> (account, runtime_error, unit) rm" where
  "replace_bytecode old_header_len new_header new_bytecode =
    bind_r (gets acc_data) (\<lambda>d.
    then_r (require (old_header_len \<le> length d)
       (InvalidAccountData ''program data account too small for its own header''))
    (let old_bytecode_space = length d - old_header_len in
    then_r (require (length new_bytecode \<le> old_bytecode_space)
       (AccountDataTooLarge (of_nat (length new_bytecode)) (of_nat old_bytecode_space)))
    (modify (\<lambda>a. a\<lparr>acc_data := resize (length (new_header @ new_bytecode) + (old_bytecode_space - length new_bytecode))
                                (new_header @ new_bytecode)\<rparr>))))"

definition loader_upgrade :: "env \<Rightarrow> bytes \<Rightarrow> unit rt" where
  "loader_upgrade E accounts =
    then_r (require_accounts accounts 4 ''Upgrade'')
    (bind_r (account_index accounts 0) (\<lambda>program_idx.
    bind_r (account_index accounts 1) (\<lambda>program_data_idx.
    bind_r (account_index accounts 2) (\<lambda>buffer_idx.
    bind_r (account_index accounts 3) (\<lambda>authority_idx.
    bind_r (require_signer authority_idx) (\<lambda>authority_address.
    bind_r (get_account program_data_idx) (\<lambda>pd.
    bind_r (get_account program_idx) (\<lambda>program.
    bind_r (loader_state_of E (ar_account program)) (\<lambda>state.
    then_r (case state of
        LsProgram pda \<Rightarrow> require (pda = ar_address pd) (InvalidAccountData ''program data address mismatch'')
      | _ \<Rightarrow> fail (InvalidAccountData ''not a program account''))
    (bind_r (get_account program_data_idx) (\<lambda>pd.
    bind_r (loader_state_of E (ar_account pd)) (\<lambda>pd_state.
    then_r (case pd_state of
        LsProgramData _ upgrade_authority _ \<Rightarrow>
          then_r (require (upgrade_authority \<noteq> None) (ProgramError ''loader'' ''program is immutable''))
          (require (upgrade_authority = Some authority_address) (AccountNotSigner authority_idx))
      | _ \<Rightarrow> fail (InvalidAccountData ''not a program data account''))
    (bind_r (loader_header E pd_state) (\<lambda>old_pd_header.
    bind_r (get_account buffer_idx) (\<lambda>buffer.
    bind_r (loader_state_of E (ar_account buffer)) (\<lambda>state.
    then_r (require_buffer state authority_address authority_idx ''not a buffer account'')
    (bind_r (loader_header E state) (\<lambda>header_bytes.
    bind_r (slice_from (length header_bytes) (acc_data (ar_account buffer))) (\<lambda>new_bytecode.
    let buffer_lamports = acc_lamports (ar_account buffer) in
    then_r (map_err (wasm_validate E new_bytecode) WasmError)
    (bind_r (gets ctx_slot) (\<lambda>slot.
    bind_r (loader_header E (LsProgramData slot (Some authority_address) (of_nat (length new_bytecode)))) (\<lambda>new_header_bytes.
    then_r (with_account_mut program_data_idx (replace_bytecode (length old_pd_header) new_header_bytes new_bytecode))
    (then_r (with_account_mut buffer_idx (modify (\<lambda>a. a\<lparr>acc_data := [], acc_lamports := 0\<rparr>)))
    (with_account_mut authority_idx (credit buffer_lamports)))))))))))))))))))))))))"

definition loader_set_authority :: "env \<Rightarrow> bytes \<Rightarrow> hash option \<Rightarrow> unit rt" where
  "loader_set_authority E accounts new_authority =
    then_r (require_accounts accounts 2 ''SetAuthority'')
    (bind_r (account_index accounts 0) (\<lambda>account_idx.
    bind_r (account_index accounts 1) (\<lambda>current_authority_idx.
    bind_r (require_signer current_authority_idx) (\<lambda>current_authority_address.
    bind_r (get_account account_idx) (\<lambda>acc.
    bind_r (loader_state_of E (ar_account acc)) (\<lambda>current_state.
    bind_r (case current_state of
        LsBuffer authority \<Rightarrow>
          then_r (require (authority = Some current_authority_address) (AccountNotSigner current_authority_idx))
          (return (LsBuffer new_authority))
      | LsProgramData slot upgrade_authority bytecode_len \<Rightarrow>
          then_r (require (upgrade_authority = Some current_authority_address) (AccountNotSigner current_authority_idx))
          (return (LsProgramData slot new_authority bytecode_len))
      | _ \<Rightarrow> fail (InvalidAccountData ''cannot set authority on this account type'')) (\<lambda>new_state.
    bind_r (loader_header E new_state) (\<lambda>new_state_bytes.
    with_account_mut account_idx
      (case current_state of
         LsProgramData _ _ _ \<Rightarrow>
           bind_r (loader_header E current_state) (\<lambda>old_header_bytes.
           bind_r (gets acc_data) (\<lambda>d.
           bind_r (slice_from (length old_header_bytes) d) (\<lambda>bytecode.
           modify (\<lambda>a. a\<lparr>acc_data := new_state_bytes @ bytecode\<rparr>))))
       | _ \<Rightarrow> modify (\<lambda>a. a\<lparr>acc_data := new_state_bytes\<rparr>))))))))))"

definition loader_close :: "env \<Rightarrow> bytes \<Rightarrow> unit rt" where
  "loader_close E accounts =
    then_r (require_accounts accounts 3 ''Close'')
    (bind_r (account_index accounts 0) (\<lambda>close_idx.
    bind_r (account_index accounts 1) (\<lambda>recipient_idx.
    bind_r (account_index accounts 2) (\<lambda>authority_idx.
    bind_r (require_signer authority_idx) (\<lambda>authority_address.
    bind_r (get_account close_idx) (\<lambda>acc.
    bind_r (loader_state_of E (ar_account acc)) (\<lambda>state.
    then_r (require (loader_authority state = Some authority_address) (AccountNotSigner authority_idx))
    (then_r (with_account_mut recipient_idx (credit (acc_lamports (ar_account acc))))
    (with_account_mut close_idx (modify (\<lambda>a. a\<lparr>acc_lamports := 0, acc_data := []\<rparr>)))))))))))"

definition process_loader :: "env \<Rightarrow> bytes \<Rightarrow> bytes \<Rightarrow> sysvar_cache \<Rightarrow> unit rt" where
  "process_loader E accounts data sysvars =
    bind_r (map_err (try_from_slice (loader_ix_fmt E) data) InvalidInstructionData) (\<lambda>instruction.
    (case instruction of
       InitializeBuffer \<Rightarrow> then_r (consume_compute LOADER_INITIALIZE_BUFFER_COST) (loader_initialize_buffer E accounts)
     | LoaderWrite offset d \<Rightarrow>
         then_r (consume_compute (LOADER_WRITE_COST + of_nat (length d))) (loader_write E accounts offset d)
     | Deploy max_data_len \<Rightarrow>
         then_r (consume_compute LOADER_DEPLOY_COST) (loader_deploy E accounts max_data_len sysvars)
     | Upgrade \<Rightarrow> then_r (consume_compute LOADER_UPGRADE_COST) (loader_upgrade E accounts)
     | SetAuthority new_authority \<Rightarrow>
         then_r (consume_compute LOADER_SET_AUTHORITY_COST) (loader_set_authority E accounts new_authority)
     | LoaderClose \<Rightarrow> then_r (consume_compute LOADER_CLOSE_COST) (loader_close E accounts)))"

section \<open>Frame\<close>

lemmas loader_step_defs = loader_state_of_def loader_header_def require_buffer_def slice_from_def

lemma frame_loader_steps [frame_intros]:
  "frame.keeps (loader_state_of E a)" "frame.keeps (loader_header E st)" "exec.keeps (loader_header E st)"
  "frame.keeps (slice_from n d)" "exec.keeps (slice_from n d)"
  unfolding loader_step_defs by (auto intro: frame_intros)

lemma frame_require_buffer [frame_intros]: "frame.keeps (require_buffer st h i msg)"
  unfolding require_buffer_def by (cases st) (auto intro: frame_intros)

lemma exec_buffer_write [frame_intros]: "exec.keeps (buffer_write E h off d)"
  unfolding buffer_write_def Let_def by (intro frame_intros) (simp add: exec_mono_def)

lemma exec_replace_bytecode [frame_intros]: "exec.keeps (replace_bytecode n h d)"
  unfolding replace_bytecode_def Let_def by (intro frame_intros) (simp add: exec_mono_def)

lemma frame_loader_handlers [frame_intros]:
  "frame.keeps (loader_initialize_buffer E accounts)" "frame.keeps (loader_write E accounts off d)"
  "frame.keeps (loader_close E accounts)"
  unfolding loader_initialize_buffer_def loader_write_def loader_close_def
  by (auto intro!: frame_intros simp: exec_mono_def)

lemma frame_loader_deploy [frame_intros]: "frame.keeps (loader_deploy E accounts n sysvars)"
  unfolding loader_deploy_def Let_def by (intro frame_intros) (simp_all add: exec_mono_def)

lemma frame_loader_upgrade [frame_intros]: "frame.keeps (loader_upgrade E accounts)"
  unfolding loader_upgrade_def Let_def
  by (intro frame_intros) (auto simp: exec_mono_def intro!: frame_intros split: loader_state.split)

lemma frame_loader_set_authority [frame_intros]: "frame.keeps (loader_set_authority E accounts h)"
  unfolding loader_set_authority_def
  by (intro frame_intros) (auto simp: exec_mono_def intro!: frame_intros split: loader_state.split)

lemma frame_process_loader [frame_intros]: "frame.keeps (process_loader E accounts data sysvars)"
  unfolding process_loader_def by (intro frame_intros) (auto split: loader_instruction.split intro: frame_intros)

interpretation loader_processor: framed_processor "process_loader E" for E
  by unfold_locales (rule frame_process_loader)


section \<open>Successful runs\<close>

abbreviation acc_at :: "tx_ctx \<Rightarrow> nat \<Rightarrow> account" where
  "acc_at s i \<equiv> snd (ctx_accounts s ! i)"

text \<open>The account stores the state \<open>st\<close>, followed by \<open>code\<close>.\<close>

definition holds_code :: "env \<Rightarrow> loader_state \<Rightarrow> bytes \<Rightarrow> account \<Rightarrow> bool" where
  "holds_code E st code a \<longleftrightarrow> (\<exists>h. to_vec (loader_state_fmt E) st = Inr h \<and> acc_data a = h @ code)"

lemma loader_state_of_Ok_iff [ok_iff]:
  "loader_state_of E a s = (Ok st, t) \<longleftrightarrow> from_account_data E (acc_data a) = Inr st \<and> t = s"
  by (simp add: loader_state_of_def ok_iff)

lemma loader_header_Ok_iff [ok_iff]:
  "loader_header E st s = (Ok h, t) \<longleftrightarrow> to_vec (loader_state_fmt E) st = Inr h \<and> t = s"
  by (simp add: loader_header_def ok_iff)

lemma slice_from_Ok_iff [ok_iff]: "slice_from n d s = (Ok x, t) \<longleftrightarrow> n \<le> length d \<and> x = drop n d \<and> t = s"
  by (auto simp: slice_from_def ok_iff)

lemma require_buffer_Ok_iff [ok_iff]:
  "require_buffer st h i msg s = (Ok x, t) \<longleftrightarrow> st = LsBuffer (Some h) \<and> t = s"
  by (cases st) (auto simp: require_buffer_def ok_iff)

lemma from_account_data_holds:
  assumes "borsh_codec (loader_state_fmt E)" and "from_account_data E (acc_data a) = Inr st" and "st \<noteq> LsUninitialized"
  shows "acc_data a \<noteq> [] \<and> (\<exists>code. holds_code E st code a)"
  using assms by (auto simp: from_account_data_def holds_code_def elim: borsh_codec.deserialize_prefix split: if_splits)

lemma holds_code_state:
  assumes "borsh_codec (loader_state_fmt E)" and "holds_code E st code a" and "acc_data a \<noteq> []"
  shows "from_account_data E (acc_data a) = Inr st"
  using assms by (auto simp: holds_code_def from_account_data_def borsh_codec.deserialize_to_vec)

lemma holds_code_unique:
  assumes "borsh_codec (loader_state_fmt E)" and "holds_code E st code a" and "holds_code E st' code' a"
  shows "st' = st \<and> code' = code"
proof -
  from assms obtain h h' where h: "to_vec (loader_state_fmt E) st = Inr h" "to_vec (loader_state_fmt E) st' = Inr h'"
    and a: "acc_data a = h @ code" "acc_data a = h' @ code'" by (auto simp: holds_code_def)
  from borsh_codec.deserialize_to_vec [OF assms(1) h(1), of code] borsh_codec.deserialize_to_vec [OF assms(1) h(2), of code'] a
  have "st' = st" by simp
  with h a show ?thesis by simp
qed

lemma drop_header:
  "holds_code E st code a \<Longrightarrow> to_vec (loader_state_fmt E) st = Inr h \<Longrightarrow> drop (length h) (acc_data a) = code"
  by (auto simp: holds_code_def)

text \<open>What is stored behind a program-data header is what the engine gets.\<close>

lemma extract_bytecode_holds:
  assumes c: "borsh_codec (loader_state_fmt E)"
    and d: "holds_code E (LsProgramData sl auth (of_nat (length code))) (code @ pad) a" "length (acc_data a) < 2 ^ 64"
  shows "extract_bytecode E (acc_data a) = Ok code"
proof -
  obtain h where h: "to_vec (loader_state_fmt E) (LsProgramData sl auth (of_nat (length code))) = Inr h"
    and a: "acc_data a = h @ code @ pad" using d(1) by (auto simp: holds_code_def)
  have "unat (of_nat (length h) + of_nat (length code) :: u64) = length h + length code"
    using d(2) a unat_of_nat_small [of "length h + length code", where 'a = 64] by simp
  then show ?thesis
    using h a by (simp add: extract_bytecode_def Let_def borsh_codec.deserialize_to_vec [OF c h])
qed

subsection \<open>Writing a buffer\<close>

definition patch :: "nat \<Rightarrow> bytes \<Rightarrow> bytes \<Rightarrow> bytes" where
  "patch off d code = copy_at off d (if length code < off + length d then resize (off + length d) code else code)"

lemma patch_nth:
  "i < length (patch off d code) \<Longrightarrow> patch off d code ! i =
     (if off \<le> i \<and> i < off + length d then d ! (i - off) else if i < length code then code ! i else 0)"
  by (auto simp: patch_def copy_at_def resize_def nth_append split: if_splits)

lemma length_patch: "length (patch off d code) = max (length code) (off + length d)"
  by (auto simp: patch_def copy_at_def resize_def)

lemma patch_eq_iff:
  "code' = patch off d code \<longleftrightarrow> length code' = max (length code) (off + length d) \<and>
     (\<forall>k < length code'. code' ! k =
        (if off \<le> k \<and> k < off + length d then d ! (k - off) else if k < length code then code ! k else 0))"
  by (auto simp: list_eq_iff_nth_eq length_patch patch_nth)

lemma copy_resize_header:
  "copy_at (length h + off) d (if length (h @ code) < length h + off + length d
     then resize (length h + off + length d) (h @ code) else h @ code) = h @ patch off d code"
  by (simp add: patch_def copy_at_def resize_def add.assoc)

lemma loader_write_Ok:
  assumes "loader_write E accounts off d s = (Ok x, t)"
  defines "i \<equiv> unat (accounts ! 0)" and "h \<equiv> fst (ctx_accounts s ! unat (accounts ! 1))"
  obtains "i < length (ctx_accounts s)" "is_signer (ctx_message s) (unat (accounts ! 1))"
    "acc_owner (acc_at s i) = LOADER_PROGRAM_ID E" "from_account_data E (acc_data (acc_at s i)) = Inr (LsBuffer (Some h))"
    "with_account_mut i (buffer_write E h off d) s = (Ok x, t)"
  using assms by (auto simp: loader_write_def bind_Ok_iff require_accounts_Ok_iff account_index_Ok_iff
      require_signer_Ok_iff get_account_Ok_iff require_Ok_iff loader_state_of_Ok_iff require_buffer_Ok_iff)

lemma loader_write_Ok_iff:
  fixes accounts :: bytes
  assumes c: "borsh_codec (loader_state_fmt E)"
  defines "i \<equiv> unat (accounts ! 0)" and "j \<equiv> unat (accounts ! 1)"
  shows "loader_write E accounts off d s = (Ok (), t) \<longleftrightarrow>
    (2 \<le> length accounts \<and> i < length (ctx_accounts s) \<and> j < length (ctx_accounts s) \<and>
    is_signer (ctx_message s) j \<and> is_writable (ctx_message s) i \<and> acc_owner (acc_at s i) = LOADER_PROGRAM_ID E) \<and>
    (\<exists>h code. to_vec (loader_state_fmt E) (LsBuffer (Some (fst (ctx_accounts s ! j)))) = Inr h \<and>
       acc_data (acc_at s i) = h @ code \<and> h @ code \<noteq> [] \<and> length h + unat off + length d \<le> 10485760 \<and>
       t = s\<lparr>ctx_accounts := (ctx_accounts s)[i := (fst (ctx_accounts s ! i), (acc_at s i)\<lparr>acc_data := h @ patch (unat off) d code\<rparr>)]\<rparr>)"
    (is "?run \<longleftrightarrow> ?guards \<and> (\<exists>h code. ?st h \<and> ?rest h code)")
proof -
  let ?B = "LsBuffer (Some (fst (ctx_accounts s ! j)))" and ?d = "acc_data (acc_at s i)"
  have run: "?run \<longleftrightarrow> ?guards \<and> from_account_data E ?d = Inr ?B \<and>
     with_account_mut i (buffer_write E (fst (ctx_accounts s ! j)) off d) s = (Ok (), t)"
    unfolding i_def j_def by (auto simp: loader_write_def ok_iff)
  have st: "from_account_data E ?d = Inr ?B \<longleftrightarrow> (\<exists>h code. ?st h \<and> ?d = h @ code \<and> h @ code \<noteq> [])"
    using from_account_data_holds [OF c, of "acc_at s i" ?B] holds_code_state [OF c, of ?B _ "acc_at s i"]
    unfolding holds_code_def by fastforce
  have w: "buffer_write E (fst (ctx_accounts s ! j)) off d (acc_at s i) = (Ok (), b) \<longleftrightarrow>
      length h + unat off + length d \<le> 10485760 \<and> b = (acc_at s i)\<lparr>acc_data := h @ patch (unat off) d code\<rparr>"
    if "?st h" "?d = h @ code" for h code b
    using that copy_resize_header [of h "unat off" d code]
    by (auto simp: buffer_write_def Let_def ok_iff MAX_ACCOUNT_DATA_SIZE_def simp del: length_append)
  show ?thesis unfolding run st by (auto simp: with_account_mut_Ok_iff w)
qed

text \<open>C25: a write to a buffer succeeds exactly when the authority signed, the account is a writable buffer of that
  authority owned by the loader, and the written range ends within the account size limit. It then changes nothing but the
  buffer's bytecode: the bytes are put at the offset, every other byte is kept (zero where the buffer had none).\<close>

theorem loader_write_spec:
  fixes accounts :: bytes
  assumes c: "borsh_codec (loader_state_fmt E)"
  defines "i \<equiv> unat (accounts ! 0)" and "j \<equiv> unat (accounts ! 1)"
  shows "loader_write E accounts off d s = (Ok (), t) \<longleftrightarrow>
    2 \<le> length accounts \<and> i < length (ctx_accounts s) \<and> j < length (ctx_accounts s) \<and>
    is_signer (ctx_message s) j \<and> is_writable (ctx_message s) i \<and> acc_owner (acc_at s i) = LOADER_PROGRAM_ID E \<and>
    (\<exists>h code code'. to_vec (loader_state_fmt E) (LsBuffer (Some (fst (ctx_accounts s ! j)))) = Inr h \<and>
       acc_data (acc_at s i) = h @ code \<and> h @ code \<noteq> [] \<and> length h + unat off + length d \<le> 10485760 \<and>
       t = s\<lparr>ctx_accounts := (ctx_accounts s)[i := (fst (ctx_accounts s ! i), (acc_at s i)\<lparr>acc_data := h @ code'\<rparr>)]\<rparr> \<and>
       length code' = max (length code) (unat off + length d) \<and>
       (\<forall>k < length code'. code' ! k =
          (if unat off \<le> k \<and> k < unat off + length d then d ! (k - unat off)
           else if k < length code then code ! k else 0)))"
  unfolding loader_write_Ok_iff [OF c] i_def j_def patch_eq_iff [symmetric] by auto

subsection \<open>Deploying and upgrading\<close>

lemma account_after:
  "with_account_mut j f s = (Ok x, t) \<Longrightarrow> i < length (ctx_accounts s) \<Longrightarrow>
   (i \<noteq> j \<longrightarrow> ctx_accounts t ! i = ctx_accounts s ! i) \<and> fst (ctx_accounts t ! i) = fst (ctx_accounts s ! i) \<and>
   (i = j \<longrightarrow> f (acc_at s i) = (Ok x, acc_at t i)) \<and> length (ctx_accounts t) = length (ctx_accounts s)"
  by (auto simp: with_account_mut_Ok_iff nth_list_update)

text \<open>A balance operation leaves everything but the lamports.\<close>

lemma lamports_only:
  assumes "with_account_mut j f s = (Ok x, t)" and "f = debit n \<or> f = credit n" and "i < length (ctx_accounts s)"
  shows "acc_data (acc_at t i) = acc_data (acc_at s i) \<and> acc_owner (acc_at t i) = acc_owner (acc_at s i) \<and>
     acc_executable (acc_at t i) = acc_executable (acc_at s i)"
  using account_after [OF assms(1,3)] assms(2)
  by (cases "i = j") (auto simp: debit_def credit_def ok_iff)

lemma loader_deploy_Ok:
  assumes "loader_deploy E accounts n v s = (Ok x, t)"
  defines "prog \<equiv> unat (accounts ! 1)" and "pd \<equiv> unat (accounts ! 2)" and "buf \<equiv> unat (accounts ! 3)"
    and "auth \<equiv> fst (ctx_accounts s ! unat (accounts ! 4))"
  obtains hb pb ph s1 s2 s3 s4 rent where "prog < length (ctx_accounts s)" "pd < length (ctx_accounts s)" "buf < length (ctx_accounts s)"
    "is_signer (ctx_message s) (unat (accounts ! 0))" "is_signer (ctx_message s) prog" "is_signer (ctx_message s) (unat (accounts ! 4))"
    "loader_fresh E (acc_at s prog)" "loader_fresh E (acc_at s pd)" "acc_owner (acc_at s buf) = LOADER_PROGRAM_ID E"
    "from_account_data E (acc_data (acc_at s buf)) = Inr (LsBuffer (Some auth))"
    "to_vec (loader_state_fmt E) (LsBuffer (Some auth)) = Inr hb"
    "wasm_validate E (drop (length hb) (acc_data (acc_at s buf))) = Inr ()"
    "to_vec (loader_state_fmt E) (LsProgram (fst (ctx_accounts s ! pd))) = Inr pb"
    "to_vec (loader_state_fmt E) (LsProgramData (ctx_slot s1) (Some auth)
       (of_nat (length (drop (length hb) (acc_data (acc_at s buf)))))) = Inr ph"
    "with_account_mut prog (modify (\<lambda>a. a\<lparr>acc_owner := LOADER_PROGRAM_ID E, acc_executable := True, acc_data := pb\<rparr>)) s = (Ok (), s1)"
    "with_account_mut (unat (accounts ! 0)) (debit rent) s1 = (Ok (), s2)"
    "with_account_mut pd (then_r (modify (\<lambda>a. a\<lparr>acc_owner := LOADER_PROGRAM_ID E\<rparr>)) (then_r (credit rent)
       (modify (\<lambda>a. a\<lparr>acc_data := resize (length ph + max (unat n) (length (drop (length hb) (acc_data (acc_at s buf)))))
          (ph @ drop (length hb) (acc_data (acc_at s buf)))\<rparr>)))) s2 = (Ok (), s3)"
    "with_account_mut buf (modify (\<lambda>a. a\<lparr>acc_data := [], acc_lamports := 0\<rparr>)) s3 = (Ok (), s4)"
    "with_account_mut (unat (accounts ! 0)) (credit (acc_lamports (acc_at s buf))) s4 = (Ok x, t)"
  using assms(1)
  by (auto simp: loader_deploy_def Let_def bind_Ok_iff require_accounts_Ok_iff account_index_Ok_iff
      require_signer_Ok_iff get_account_Ok_iff require_Ok_iff loader_state_of_Ok_iff require_buffer_Ok_iff
      loader_header_Ok_iff slice_from_Ok_iff map_err_Ok_iff gets_Ok_iff prog_def pd_def buf_def auth_def)

lemma resize_grow: "length d \<le> n \<Longrightarrow> resize n d = d @ replicate (n - length d) 0"
  by (simp add: resize_def)

lemma program_data_written:
  assumes "with_account_mut i (then_r (modify (\<lambda>a. a\<lparr>acc_owner := own\<rparr>)) (then_r (credit r)
       (modify (\<lambda>a. a\<lparr>acc_data := d\<rparr>)))) s = (Ok x, t)"
  shows "acc_data (acc_at t i) = d \<and> acc_owner (acc_at t i) = own \<and> i < length (ctx_accounts t)"
  using assms by (auto simp: ok_iff)

text \<open>C24: a successful deployment turns the contents of the authority's buffer into a program: the module
  passed validation, the program account is executable and points to the program-data account, the
  bytecode found there is the buffer's, and the buffer is emptied.\<close>

theorem loader_deploy_spec:
  assumes c: "borsh_codec (loader_state_fmt E)" and run: "loader_deploy E accounts n v s = (Ok x, t)"
    and ne: "accounts ! 1 \<noteq> accounts ! 2" and len: "length (acc_data (acc_at t (unat (accounts ! 2)))) < 2 ^ 64"
  defines "prog \<equiv> unat (accounts ! 1)" and "pd \<equiv> unat (accounts ! 2)" and "buf \<equiv> unat (accounts ! 3)"
    and "auth \<equiv> unat (accounts ! 4)"
  shows "is_signer (ctx_message s) prog \<and> is_signer (ctx_message s) auth \<and> (\<exists>code.
     holds_code E (LsBuffer (Some (fst (ctx_accounts s ! auth)))) code (acc_at s buf) \<and>
     wasm_validate E code = Inr () \<and>
     extract_bytecode E (acc_data (acc_at t pd)) = Ok code \<and>
     acc_executable (acc_at t prog) \<and> acc_owner (acc_at t prog) = LOADER_PROGRAM_ID E \<and>
     holds_code E (LsProgram (fst (ctx_accounts s ! pd))) [] (acc_at t prog) \<and>
     acc_owner (acc_at t pd) = LOADER_PROGRAM_ID E \<and> acc_data (acc_at t buf) = [])"
  using run
proof (rule loader_deploy_Ok, fold prog_def pd_def buf_def auth_def)
  let ?auth = "fst (ctx_accounts s ! auth)"
  fix hb pb ph :: bytes and s1 s2 s3 s4 rent
  let ?code = "drop (length hb) (acc_data (acc_at s buf))"
  assume idx: "prog < length (ctx_accounts s)" "pd < length (ctx_accounts s)" "buf < length (ctx_accounts s)"
    and sg: "is_signer (ctx_message s) prog" "is_signer (ctx_message s) auth"
    and fresh: "loader_fresh E (acc_at s prog)" "loader_fresh E (acc_at s pd)"
    and st: "from_account_data E (acc_data (acc_at s buf)) = Inr (LsBuffer (Some ?auth))"
      "to_vec (loader_state_fmt E) (LsBuffer (Some ?auth)) = Inr hb" "wasm_validate E ?code = Inr ()"
    and pb: "to_vec (loader_state_fmt E) (LsProgram (fst (ctx_accounts s ! pd))) = Inr pb"
    and ph: "to_vec (loader_state_fmt E) (LsProgramData (ctx_slot s1) (Some ?auth) (of_nat (length ?code))) = Inr ph"
    and w1: "with_account_mut prog (modify (\<lambda>a. a\<lparr>acc_owner := LOADER_PROGRAM_ID E, acc_executable := True, acc_data := pb\<rparr>)) s = (Ok (), s1)"
    and w2: "with_account_mut (unat (accounts ! 0)) (debit rent) s1 = (Ok (), s2)"
    and w3: "with_account_mut pd (then_r (modify (\<lambda>a. a\<lparr>acc_owner := LOADER_PROGRAM_ID E\<rparr>)) (then_r (credit rent)
       (modify (\<lambda>a. a\<lparr>acc_data := resize (length ph + max (unat n) (length ?code)) (ph @ ?code)\<rparr>)))) s2 = (Ok (), s3)"
    and w4: "with_account_mut buf (modify (\<lambda>a. a\<lparr>acc_data := [], acc_lamports := 0\<rparr>)) s3 = (Ok (), s4)"
    and w5: "with_account_mut (unat (accounts ! 0)) (credit (acc_lamports (acc_at s buf))) s4 = (Ok x, t)"
  from from_account_data_holds [OF c st(1)] st(2) have code: "holds_code E (LsBuffer (Some ?auth)) ?code (acc_at s buf)"
    and nd: "acc_data (acc_at s buf) \<noteq> []" by (auto simp: holds_code_def)
  have dist: "prog \<noteq> pd" "buf \<noteq> prog" "buf \<noteq> pd"
    using ne nd fresh by (auto simp: prog_def pd_def loader_fresh_def word_unat_eq_iff)
  have l: "length (ctx_accounts s1) = length (ctx_accounts s)" "length (ctx_accounts s2) = length (ctx_accounts s)"
    "length (ctx_accounts s3) = length (ctx_accounts s)" "length (ctx_accounts s4) = length (ctx_accounts s)"
    using w1 w2 w3 w4 by (auto simp: with_account_mut_Ok_iff)
  have p: "acc_executable (acc_at t prog) \<and> acc_data (acc_at t prog) = pb \<and> acc_owner (acc_at t prog) = LOADER_PROGRAM_ID E"
    using account_after [OF w1, of prog] lamports_only [OF w2, of rent prog] account_after [OF w3, of prog]
      account_after [OF w4, of prog] lamports_only [OF w5, of _ prog] idx dist l by (auto simp: modify_Ok_iff)
  have q: "acc_data (acc_at t pd) = resize (length ph + max (unat n) (length ?code)) (ph @ ?code) \<and>
      acc_owner (acc_at t pd) = LOADER_PROGRAM_ID E"
    using program_data_written [OF w3] account_after [OF w4, of pd] lamports_only [OF w5, of _ pd] idx dist l by auto
  have r: "acc_data (acc_at t buf) = []"
    using account_after [OF w4, of buf] lamports_only [OF w5, of _ buf] idx l by (auto simp: modify_Ok_iff)
  have "extract_bytecode E (acc_data (acc_at t pd)) = Ok ?code"
    by (rule extract_bytecode_holds [OF c]) (use ph q len in \<open>auto simp: holds_code_def resize_grow pd_def\<close>)
  with sg code st(3) p q r pb show ?thesis by (auto simp: holds_code_def)
qed

lemma program_case_Ok [ok_iff]:
  "(case st of LsProgram pda \<Rightarrow> require (pda = a) e | _ \<Rightarrow> fail e') s = (Ok x, t) \<longleftrightarrow> st = LsProgram a \<and> t = s"
  by (cases st) (auto simp: ok_iff)

lemma program_data_case_Ok [ok_iff]:
  "(case st of LsProgramData _ ua _ \<Rightarrow> then_r (require (ua \<noteq> None) e) (require (ua = Some h) e')
    | _ \<Rightarrow> fail e'') s = (Ok x, t) \<longleftrightarrow> (\<exists>sl m. st = LsProgramData sl (Some h) m) \<and> t = s"
  by (cases st) (auto simp: ok_iff)

lemma loader_upgrade_Ok:
  assumes "loader_upgrade E accounts s = (Ok x, t)"
  defines "pd \<equiv> unat (accounts ! 1)" and "buf \<equiv> unat (accounts ! 2)" and "j \<equiv> unat (accounts ! 3)"
  obtains hb oh nh sl m s1 s2 where "pd < length (ctx_accounts s)" "buf < length (ctx_accounts s)"
    "is_signer (ctx_message s) j"
    "from_account_data E (acc_data (acc_at s (unat (accounts ! 0)))) = Inr (LsProgram (fst (ctx_accounts s ! pd)))"
    "from_account_data E (acc_data (acc_at s pd)) = Inr (LsProgramData sl (Some (fst (ctx_accounts s ! j))) m)"
    "to_vec (loader_state_fmt E) (LsProgramData sl (Some (fst (ctx_accounts s ! j))) m) = Inr oh"
    "from_account_data E (acc_data (acc_at s buf)) = Inr (LsBuffer (Some (fst (ctx_accounts s ! j))))"
    "to_vec (loader_state_fmt E) (LsBuffer (Some (fst (ctx_accounts s ! j)))) = Inr hb"
    "wasm_validate E (drop (length hb) (acc_data (acc_at s buf))) = Inr ()"
    "to_vec (loader_state_fmt E) (LsProgramData (ctx_slot s) (Some (fst (ctx_accounts s ! j)))
       (of_nat (length (drop (length hb) (acc_data (acc_at s buf)))))) = Inr nh"
    "with_account_mut pd (replace_bytecode (length oh) nh (drop (length hb) (acc_data (acc_at s buf)))) s = (Ok (), s1)"
    "with_account_mut buf (modify (\<lambda>a. a\<lparr>acc_data := [], acc_lamports := 0\<rparr>)) s1 = (Ok (), s2)"
    "with_account_mut j (credit (acc_lamports (acc_at s buf))) s2 = (Ok x, t)"
  using assms(1)
  by (auto simp: loader_upgrade_def Let_def bind_Ok_iff require_accounts_Ok_iff account_index_Ok_iff
      require_signer_Ok_iff get_account_Ok_iff require_Ok_iff loader_state_of_Ok_iff require_buffer_Ok_iff
      loader_header_Ok_iff slice_from_Ok_iff map_err_Ok_iff gets_Ok_iff program_case_Ok program_data_case_Ok pd_def buf_def j_def
      simp del: of_nat_diff length_drop)

lemma replace_bytecode_Ok:
  assumes "replace_bytecode (length oh) nh code a = (Ok x, b)" and "acc_data a = oh @ old"
  shows "length code \<le> length old \<and> b = a\<lparr>acc_data := nh @ code @ replicate (length old - length code) 0\<rparr>"
  using assms by (auto simp: replace_bytecode_def Let_def ok_iff resize_grow)

text \<open>An upgrade is signed by the upgrade authority and needs a buffer of the same authority; afterwards
  the engine gets the buffer's bytecode, and the space reserved for bytecode has not changed.\<close>

theorem loader_upgrade_spec:
  assumes c: "borsh_codec (loader_state_fmt E)" and run: "loader_upgrade E accounts s = (Ok x, t)"
    and len: "length (acc_data (acc_at t (unat (accounts ! 1)))) < 2 ^ 64"
  defines "pd \<equiv> unat (accounts ! 1)" and "buf \<equiv> unat (accounts ! 2)" and "j \<equiv> unat (accounts ! 3)"
  shows "is_signer (ctx_message s) j \<and> (\<exists>code old new sl m.
     holds_code E (LsBuffer (Some (fst (ctx_accounts s ! j)))) code (acc_at s buf) \<and>
     wasm_validate E code = Inr () \<and>
     extract_bytecode E (acc_data (acc_at t pd)) = Ok code \<and>
     holds_code E (LsProgramData sl (Some (fst (ctx_accounts s ! j))) m) old (acc_at s pd) \<and>
     holds_code E (LsProgramData (ctx_slot s) (Some (fst (ctx_accounts s ! j))) (of_nat (length code))) new (acc_at t pd) \<and>
     length new = length old)"
  using run
proof (rule loader_upgrade_Ok, fold pd_def buf_def j_def)
  let ?a = "fst (ctx_accounts s ! j)"
  fix hb oh nh :: bytes and sl m s1 s2
  let ?code = "drop (length hb) (acc_data (acc_at s buf))"
  assume idx: "pd < length (ctx_accounts s)" "buf < length (ctx_accounts s)" and sg: "is_signer (ctx_message s) j"
    and p: "from_account_data E (acc_data (acc_at s pd)) = Inr (LsProgramData sl (Some ?a) m)"
      "to_vec (loader_state_fmt E) (LsProgramData sl (Some ?a) m) = Inr oh"
    and b: "from_account_data E (acc_data (acc_at s buf)) = Inr (LsBuffer (Some ?a))"
      "to_vec (loader_state_fmt E) (LsBuffer (Some ?a)) = Inr hb" "wasm_validate E ?code = Inr ()"
    and nh: "to_vec (loader_state_fmt E) (LsProgramData (ctx_slot s) (Some ?a) (of_nat (length ?code))) = Inr nh"
    and w1: "with_account_mut pd (replace_bytecode (length oh) nh ?code) s = (Ok (), s1)"
    and w2: "with_account_mut buf (modify (\<lambda>a. a\<lparr>acc_data := [], acc_lamports := 0\<rparr>)) s1 = (Ok (), s2)"
    and w3: "with_account_mut j (credit (acc_lamports (acc_at s buf))) s2 = (Ok x, t)"
  have code: "holds_code E (LsBuffer (Some ?a)) ?code (acc_at s buf)"
    using from_account_data_holds [OF c b(1)] b(2) by (auto simp: holds_code_def)
  obtain old where old: "acc_data (acc_at s pd) = oh @ old"
    using from_account_data_holds [OF c p(1)] p(2) by (auto simp: holds_code_def)
  have ne: "pd \<noteq> buf" using p(1) b(1) by auto
  have l: "length (ctx_accounts s1) = length (ctx_accounts s)" "length (ctx_accounts s2) = length (ctx_accounts s)"
    using w1 w2 by (auto simp: with_account_mut_Ok_iff)
  have r: "replace_bytecode (length oh) nh ?code (acc_at s pd) = (Ok (), acc_at s1 pd)"
    using account_after [OF w1 idx(1)] by simp
  have d: "acc_data (acc_at t pd) = nh @ ?code @ replicate (length old - length ?code) 0" and le: "length ?code \<le> length old"
    using replace_bytecode_Ok [OF r old] account_after [OF w2, of pd] lamports_only [OF w3, of _ pd] ne idx l by auto
  have "extract_bytecode E (acc_data (acc_at t pd)) = Ok ?code"
    by (rule extract_bytecode_holds [OF c]) (use nh d len in \<open>auto simp: holds_code_def pd_def\<close>)
  moreover have "holds_code E (LsProgramData sl (Some ?a) m) old (acc_at s pd)" using p(2) old by (simp add: holds_code_def)
  moreover have "holds_code E (LsProgramData (ctx_slot s) (Some ?a) (of_nat (length ?code)))
      (?code @ replicate (length old - length ?code) 0) (acc_at t pd)" using nh d by (simp add: holds_code_def)
  moreover have "length (?code @ replicate (length old - length ?code) 0) = length old" using le by simp
  ultimately show ?thesis using sg code b(3) by blast
qed

lemma set_authority_Ok:
  assumes "loader_set_authority E accounts new s = (Ok x, t)"
  defines "i \<equiv> unat (accounts ! 0)" and "h \<equiv> fst (ctx_accounts s ! unat (accounts ! 1))"
  obtains (buffer) nb where "i < length (ctx_accounts s)" "is_signer (ctx_message s) (unat (accounts ! 1))"
      "from_account_data E (acc_data (acc_at s i)) = Inr (LsBuffer (Some h))" "to_vec (loader_state_fmt E) (LsBuffer new) = Inr nb"
      "with_account_mut i (modify (\<lambda>a. a\<lparr>acc_data := nb\<rparr>)) s = (Ok x, t)"
    | (data) sl m nb ob where "i < length (ctx_accounts s)" "is_signer (ctx_message s) (unat (accounts ! 1))"
      "from_account_data E (acc_data (acc_at s i)) = Inr (LsProgramData sl (Some h) m)"
      "to_vec (loader_state_fmt E) (LsProgramData sl new m) = Inr nb"
      "to_vec (loader_state_fmt E) (LsProgramData sl (Some h) m) = Inr ob"
      "with_account_mut i (modify (\<lambda>a. a\<lparr>acc_data := nb @ drop (length ob) (acc_data a)\<rparr>)) s = (Ok x, t)"
proof -
  from assms(1) obtain st where sg: "i < length (ctx_accounts s)" "is_signer (ctx_message s) (unat (accounts ! 1))"
    and st: "from_account_data E (acc_data (acc_at s i)) = Inr st"
    by (auto simp: loader_set_authority_def bind_Ok_iff require_accounts_Ok_iff account_index_Ok_iff
      require_signer_Ok_iff get_account_Ok_iff loader_state_of_Ok_iff i_def)
  with assms(1) buffer data show thesis
    by (cases st)
      (auto simp: loader_set_authority_def bind_Ok_iff require_accounts_Ok_iff account_index_Ok_iff
        require_signer_Ok_iff get_account_Ok_iff loader_state_of_Ok_iff i_def h_def require_Ok_iff return_Ok_iff
        loader_header_Ok_iff fail_Ok_iff with_account_mut_Ok_iff gets_Ok_iff slice_from_Ok_iff modify_Ok_iff)
qed

text \<open>Changing the authority of a program keeps the bytecode the engine gets; changing the authority of a
  buffer, on the other hand, throws away everything written to it.\<close>

theorem loader_set_authority_spec:
  assumes c: "borsh_codec (loader_state_fmt E)" and run: "loader_set_authority E accounts new s = (Ok x, t)"
  defines "i \<equiv> unat (accounts ! 0)" and "h \<equiv> fst (ctx_accounts s ! unat (accounts ! 1))"
  shows "is_signer (ctx_message s) (unat (accounts ! 1)) \<and>
    ((\<exists>sl m code. holds_code E (LsProgramData sl (Some h) m) code (acc_at s i) \<and>
                  holds_code E (LsProgramData sl new m) code (acc_at t i)) \<or>
     (\<exists>code. holds_code E (LsBuffer (Some h)) code (acc_at s i) \<and> holds_code E (LsBuffer new) [] (acc_at t i)))"
  using run
proof (cases rule: set_authority_Ok)
  case (buffer nb)
  then have "holds_code E (LsBuffer new) [] (acc_at t i)"
    using account_after [OF buffer(5,1)] by (auto simp: holds_code_def i_def modify_Ok_iff)
  then show ?thesis using from_account_data_holds [OF c buffer(3)] buffer(2) by (auto simp: i_def h_def)
next
  case (data sl m nb ob)
  obtain code where code: "acc_data (acc_at s i) = ob @ code"
    using from_account_data_holds [OF c data(3)] data(5) by (auto simp: holds_code_def i_def h_def)
  have "acc_data (acc_at t i) = nb @ code"
    using account_after [OF data(6,1)] code by (auto simp: i_def modify_Ok_iff)
  then have "holds_code E (LsProgramData sl new m) code (acc_at t i)" using data(4) by (simp add: holds_code_def)
  moreover have "holds_code E (LsProgramData sl (Some h) m) code (acc_at s i)" using data(5) code by (simp add: holds_code_def h_def)
  ultimately show ?thesis using data(2) by blast
qed

subsection \<open>Immutable programs\<close>

definition untouched :: "nat \<Rightarrow> tx_ctx \<Rightarrow> tx_ctx \<Rightarrow> bool" where
  "untouched i s t \<longleftrightarrow> length (ctx_accounts t) = length (ctx_accounts s) \<and>
     acc_data (acc_at t i) = acc_data (acc_at s i) \<and> acc_owner (acc_at t i) = acc_owner (acc_at s i) \<and>
     acc_lamports (acc_at s i) \<le> acc_lamports (acc_at t i)"

lemma untouched_trans: "untouched i s t \<Longrightarrow> untouched i t u \<Longrightarrow> untouched i s u"
  by (auto simp: untouched_def)

lemma untouched_other: "with_account_mut j f s = (Ok x, t) \<Longrightarrow> i \<noteq> j \<Longrightarrow> untouched i s t"
  by (auto simp: with_account_mut_Ok_iff untouched_def)

lemma untouched_credit:
  assumes "with_account_mut j (credit n) s = (Ok x, t)"
  shows "untouched i s t"
proof (cases "i = j")
  case True
  from assms obtain a where a: "credit n (acc_at s j) = (Ok x, a)" "ctx_accounts t = (ctx_accounts s)[j := (fst (ctx_accounts s ! j), a)]"
    and j: "j < length (ctx_accounts s)" by (auto simp: with_account_mut_Ok_iff)
  from credit_lamports [OF a(1)] have "acc_lamports (acc_at s j) \<le> acc_lamports a" by (simp add: word_le_nat_alt)
  with a j True show ?thesis by (auto simp: untouched_def credit_Ok_iff)
qed (use untouched_other [OF assms] in simp)

lemmas untouched_intros = untouched_trans [OF untouched_other] untouched_trans [OF untouched_credit]
  untouched_other untouched_credit

definition immutable_at :: "env \<Rightarrow> nat \<Rightarrow> tx_ctx \<Rightarrow> bool" where
  "immutable_at E i s \<longleftrightarrow> i < length (ctx_accounts s) \<and> \<not> is_signer (ctx_message s) i \<and>
     (\<exists>sl m. from_account_data E (acc_data (acc_at s i)) = Inr (LsProgramData sl None m))"

lemma immutable_initialize:
  "immutable_at E i s \<Longrightarrow> loader_initialize_buffer E accounts s = (Ok x, t) \<Longrightarrow> untouched i s t"
  by (auto simp: loader_initialize_buffer_def bind_Ok_iff require_accounts_Ok_iff account_index_Ok_iff
      require_signer_Ok_iff loader_header_Ok_iff immutable_at_def elim!: untouched_other)

lemma immutable_write:
  "immutable_at E i s \<Longrightarrow> loader_write E accounts off d s = (Ok x, t) \<Longrightarrow> untouched i s t"
  by (elim loader_write_Ok untouched_other) (auto simp: immutable_at_def)

lemma immutable_deploy:
  assumes i: "immutable_at E i s" and run: "loader_deploy E accounts n v s = (Ok x, t)"
  shows "untouched i s t"
  using run
proof (rule loader_deploy_Ok, goal_cases)
  case (1 hb pb ph s1 s2 s3 s4 rent)
  have ne: "i \<noteq> unat (accounts ! 0)" "i \<noteq> unat (accounts ! 1)" "i \<noteq> unat (accounts ! 2)" "i \<noteq> unat (accounts ! 3)"
    using i 1(4,7,8,10) by (auto simp: immutable_at_def loader_fresh_def from_account_data_def)
  show ?case
    by (rule untouched_trans [OF untouched_other [OF 1(15) ne(2)] untouched_trans [OF untouched_other [OF 1(16) ne(1)]
          untouched_trans [OF untouched_other [OF 1(17) ne(3)] untouched_trans [OF untouched_other [OF 1(18) ne(4)]
          untouched_credit [OF 1(19)]]]]])
qed

lemma immutable_upgrade:
  assumes i: "immutable_at E i s" and run: "loader_upgrade E accounts s = (Ok x, t)"
  shows "untouched i s t"
  using run
proof (rule loader_upgrade_Ok, goal_cases)
  case (1 hb oh nh sl m s1 s2)
  have ne: "i \<noteq> unat (accounts ! 1)" "i \<noteq> unat (accounts ! 2)"
    using i 1(5,7) by (auto simp: immutable_at_def)
  show ?case
    by (rule untouched_trans [OF untouched_other [OF 1(11) ne(1)] untouched_trans [OF untouched_other [OF 1(12) ne(2)]
          untouched_credit [OF 1(13)]]])
qed

lemma immutable_set_authority:
  assumes i: "immutable_at E i s" and run: "loader_set_authority E accounts new s = (Ok x, t)"
  shows "untouched i s t"
  using run
proof (cases rule: set_authority_Ok)
  case (buffer nb)
  then show ?thesis using i by (intro untouched_other [OF buffer(5)]) (auto simp: immutable_at_def)
next
  case (data sl m nb ob)
  then show ?thesis using i by (intro untouched_other [OF data(6)]) (auto simp: immutable_at_def)
qed

lemma loader_close_Ok:
  assumes "loader_close E accounts s = (Ok x, t)"
  obtains st u where "is_signer (ctx_message s) (unat (accounts ! 2))"
    "from_account_data E (acc_data (acc_at s (unat (accounts ! 0)))) = Inr st"
    "loader_authority st = Some (fst (ctx_accounts s ! unat (accounts ! 2)))"
    "with_account_mut (unat (accounts ! 1)) (credit (acc_lamports (acc_at s (unat (accounts ! 0))))) s = (Ok (), u)"
    "with_account_mut (unat (accounts ! 0)) (modify (\<lambda>a. a\<lparr>acc_lamports := 0, acc_data := []\<rparr>)) u = (Ok x, t)"
  using assms by (auto simp: loader_close_def bind_Ok_iff require_accounts_Ok_iff account_index_Ok_iff
      require_signer_Ok_iff get_account_Ok_iff require_Ok_iff loader_state_of_Ok_iff)

lemma immutable_close:
  assumes i: "immutable_at E i s" and run: "loader_close E accounts s = (Ok x, t)"
  shows "untouched i s t"
  using run
proof (rule loader_close_Ok, goal_cases)
  case (1 st u)
  have ne: "i \<noteq> unat (accounts ! 0)" using i 1(2,3) by (auto simp: immutable_at_def)
  show ?case by (rule untouched_trans [OF untouched_credit [OF 1(4)] untouched_other [OF 1(5) ne]])
qed

text \<open>C26: once the upgrade authority is revoked, no loader instruction changes the program-data account (unless
  the account itself signs): its contents and owner stay, and no lamports are taken from it.\<close>

theorem immutable_program:
  assumes i: "immutable_at E i s" and run: "process_loader E accounts data sysvars s = (Ok x, t)"
  shows "acc_data (acc_at t i) = acc_data (acc_at s i) \<and> acc_owner (acc_at t i) = acc_owner (acc_at s i) \<and>
     acc_lamports (acc_at s i) \<le> acc_lamports (acc_at t i)"
proof -
  obtain ix where ix: "try_from_slice (loader_ix_fmt E) data = Inr ix"
    using run by (auto simp: process_loader_def bind_Ok_iff map_err_Ok_iff)
  have im: "immutable_at E i (s\<lparr>ctx_meter := m\<rparr>)" for m using i by (simp add: immutable_at_def)
  from run ix obtain m where "untouched i (s\<lparr>ctx_meter := m\<rparr>) t"
    by (cases ix) (auto simp: process_loader_def bind_Ok_iff map_err_Ok_iff consume_compute_Ok_iff
        dest!: immutable_initialize [OF im] immutable_write [OF im] immutable_deploy [OF im]
          immutable_upgrade [OF im] immutable_set_authority [OF im] immutable_close [OF im])
  then show ?thesis by (simp add: untouched_def)
qed

section \<open>Witnesses\<close>

text \<open>An engine that accepts every module, and a message in which all four accounts are writable.\<close>

definition vm_env :: env where
  "vm_env = sample_env\<lparr>wasm_validate := (\<lambda>_. Inr ())\<rparr>"

definition loader_bytes :: "loader_state \<Rightarrow> bytes" where
  "loader_bytes st = (case to_vec loader_state_codec st of Inr b \<Rightarrow> b | Inl _ \<Rightarrow> [])"

lemma loader_fmt [simp]: "loader_state_fmt vm_env = loader_state_codec"
  by (simp add: vm_env_def sample_env_def)

lemma wasm_validate_vm [simp]: "wasm_validate vm_env code = Inr ()"
  by (simp add: vm_env_def)

lemma to_vec_loader_bytes [simp]: "to_vec loader_state_codec st = Inr (loader_bytes st)"
proof (cases st)
  case (LsBuffer a)
  then show ?thesis by (cases a) (simp_all add: loader_bytes_def codec_simps)
next
  case (LsProgramData sl a n)
  then show ?thesis by (cases a) (simp_all add: loader_bytes_def codec_simps)
qed (simp_all add: loader_bytes_def codec_simps)

lemma loader_bytes_Buffer: "length (loader_bytes (LsBuffer (Some h))) = 66"
  by (simp add: loader_bytes_def codec_simps)

lemma loader_bytes_ProgramData: "length (loader_bytes (LsProgramData sl (Some h) n)) = 82"
  by (simp add: loader_bytes_def codec_simps)

lemma loader_bytes_nonempty: "loader_bytes st \<noteq> []"
proof (cases st)
  case (LsBuffer a)
  then show ?thesis by (cases a) (simp_all add: loader_bytes_def codec_simps)
next
  case (LsProgramData sl a n)
  then show ?thesis by (cases a) (simp_all add: loader_bytes_def codec_simps)
qed (simp_all add: loader_bytes_def codec_simps)

lemma from_loader_bytes [simp]: "from_account_data vm_env (loader_bytes st @ r) = Inr st"
  using loader_state_format.deserialize_to_vec [OF to_vec_loader_bytes]
  by (simp add: from_account_data_def loader_bytes_nonempty)

lemma from_loader_bytes_exact [simp]: "from_account_data vm_env (loader_bytes st) = Inr st"
  using from_loader_bytes [of st "[]"] by simp

definition loader_ctx :: "account list \<Rightarrow> tx_ctx" where
  "loader_ctx as = ctx_new (zip [1, 2, 3, 4] as) (sample_message\<lparr>num_readonly_unsigned := 0\<rparr>) 7 200000"

lemmas loader_run_simps = run_simps loader_ctx_def loader_step_defs hash_zero_def

lemmas deploy_rent_simps = Let_def loader_bytes_ProgramData minimum_balance_def rent_default_def saturating_mul_def
  MAX_ACCOUNT_DATA_SIZE_def

lemma loader_codec: "borsh_codec (loader_state_fmt vm_env)"
  by (simp add: loader_state_format.borsh_codec_axioms)

definition deploy_ctx :: tx_ctx where
  "deploy_ctx = loader_ctx [sample_account 90000000 0 [], sample_account 0 0 [], sample_account 0 0 [],
     sample_account 5 (LOADER_PROGRAM_ID vm_env) (loader_bytes (LsBuffer (Some 1)) @ [11, 12, 13])]"

theorem loader_write_spec_witness:
  "\<exists>t. loader_write vm_env [3, 0] 2 [21, 22] deploy_ctx = (Ok (), t) \<and>
       holds_code vm_env (LsBuffer (Some 1)) [11, 12, 21, 22] (acc_at t 3)"
proof -
  let ?h = "loader_bytes (LsBuffer (Some 1))" and ?c = "[11, 12, 21, 22] :: bytes"
  let ?t = "deploy_ctx\<lparr>ctx_accounts := (ctx_accounts deploy_ctx)[3 := (fst (ctx_accounts deploy_ctx ! 3),
     (acc_at deploy_ctx 3)\<lparr>acc_data := ?h @ ?c\<rparr>)]\<rparr>"
  have "?c = patch (unat (2 :: u32)) [21, 22] [11, 12, 13]" by (simp add: patch_def copy_at_def resize_def)
  note code = this [unfolded patch_eq_iff]
  have "loader_write vm_env [3, 0] 2 [21, 22] deploy_ctx = (Ok (), ?t)"
    unfolding loader_write_spec [OF loader_codec, of "[3, 0]"]
    using code by (auto simp: deploy_ctx_def loader_run_simps loader_bytes_Buffer intro!: exI [where x = ?c])
  then show ?thesis by (simp add: holds_code_def deploy_ctx_def loader_run_simps)
qed

theorem loader_deploy_spec_witness:
  "\<exists>t. loader_deploy vm_env [0, 1, 2, 3, 0] 6 sample_sysvars deploy_ctx = (Ok (), t) \<and>
       (\<exists>code. holds_code vm_env (LsBuffer (Some 1)) code (acc_at deploy_ctx 3) \<and>
          extract_bytecode vm_env (acc_data (acc_at t 2)) = Ok code \<and> acc_executable (acc_at t 1))"
proof (rule run_witness)
  let ?r = "loader_deploy vm_env [0, 1, 2, 3, 0] 6 sample_sysvars deploy_ctx"
  show ok: "fst ?r = Ok ()"
    by (simp add: loader_deploy_def loader_fresh_def loader_run_simps deploy_ctx_def deploy_rent_simps)
  have len: "length (acc_data (acc_at (snd ?r) 2)) < 2 ^ 64"
    by (simp add: loader_deploy_def loader_fresh_def loader_run_simps deploy_ctx_def deploy_rent_simps resize_def)
  show "\<exists>code. holds_code vm_env (LsBuffer (Some 1)) code (acc_at deploy_ctx 3) \<and>
          extract_bytecode vm_env (acc_data (acc_at t 2)) = Ok code \<and> acc_executable (acc_at t 1)"
    if "?r = (Ok (), t)" for t
    using loader_deploy_spec [OF loader_codec that] that len by (auto simp: deploy_ctx_def loader_run_simps)
qed

theorem loader_set_authority_spec_witness:
  "\<exists>t. loader_set_authority vm_env [3, 0] (Some 2) deploy_ctx = (Ok (), t) \<and>
       holds_code vm_env (LsBuffer (Some 2)) [] (acc_at t 3)"
proof (rule run_witness)
  let ?r = "loader_set_authority vm_env [3, 0] (Some 2) deploy_ctx"
  show "fst ?r = Ok ()"
    by (simp add: loader_set_authority_def loader_run_simps deploy_ctx_def)
  have st: "holds_code vm_env (LsBuffer (Some 1)) [11, 12, 13] (acc_at deploy_ctx 3)"
    by (simp add: holds_code_def deploy_ctx_def loader_run_simps)
  have h: "fst (ctx_accounts deploy_ctx ! 0) = 1" by (simp add: deploy_ctx_def loader_run_simps)
  show "holds_code vm_env (LsBuffer (Some 2)) [] (acc_at t 3)" if "?r = (Ok (), t)" for t
    using loader_set_authority_spec [OF loader_codec that] holds_code_unique [OF loader_codec st] by (auto simp: h)
qed

theorem immutable_program_witness:
  "\<exists>t. process_loader vm_env [0, 1] [0] sample_sysvars
         (loader_ctx [sample_account 9 0 [], sample_account 9 0 [],
            sample_account 5 (LOADER_PROGRAM_ID vm_env) (loader_bytes (LsProgramData 3 None 1) @ [7])]) = (Ok (), t) \<and>
       acc_data (acc_at t 2) = loader_bytes (LsProgramData 3 None 1) @ [7]"
proof (rule run_witness)
  let ?s = "loader_ctx [sample_account 9 0 [], sample_account 9 0 [],
            sample_account 5 (LOADER_PROGRAM_ID vm_env) (loader_bytes (LsProgramData 3 None 1) @ [7])]"
  have ix: "try_from_slice (loader_ix_fmt vm_env) [0] = Inr InitializeBuffer" by (simp add: vm_env_def codec_simps)
  show "fst (process_loader vm_env [0, 1] [0] sample_sysvars ?s) = Ok ()"
    by (simp add: process_loader_def ix loader_initialize_buffer_def loader_run_simps LOADER_INITIALIZE_BUFFER_COST_def)
  have im: "immutable_at vm_env 2 ?s" by (simp add: immutable_at_def loader_run_simps)
  show "acc_data (acc_at t 2) = loader_bytes (LsProgramData 3 None 1) @ [7]"
    if "process_loader vm_env [0, 1] [0] sample_sysvars ?s = (Ok (), t)" for t
    using immutable_program [OF im that] by (simp add: loader_run_simps)
qed

end
