(* ===== verification/Transaction.thy ===== *)
theory Transaction
  imports Env Message
begin

text \<open>
  Signed transactions, \<open>core/src/transaction.rs\<close>: signing, verification with given keys, verification with
  the keys the transaction carries, and the transaction identifier. Signing and the check of a single
  signature are those of Dilithium3: a key pair is its public key and its signing function.
\<close>

record keypair =
  kp_public :: bytes
  kp_sign :: "bytes \<Rightarrow> bytes"

definition transaction_new :: "message \<Rightarrow> transaction" where
  "transaction_new m = \<lparr>signatures = [], signer_pubkeys = [], tx_message = m\<rparr>"

text \<open>\<open>borsh::to_vec(&self.message).expect(..)\<close>\<close>

definition message_data :: "env \<Rightarrow> transaction \<Rightarrow> ('e, bytes) outcome" where
  "message_data E tx = (case to_vec (message_fmt E) (tx_message tx) of Inr b \<Rightarrow> Ok b | Inl _ \<Rightarrow> Panic)"

definition tx_sign :: "env \<Rightarrow> keypair list \<Rightarrow> transaction \<Rightarrow> ('e, transaction) outcome" where
  "tx_sign E keypairs tx =
    (case message_data E tx of
       Ok message_bytes \<Rightarrow> Ok (tx\<lparr>signatures := map (\<lambda>kp. kp_sign kp message_bytes) keypairs,
                                 signer_pubkeys := map kp_public keypairs\<rparr>)
     | Err e \<Rightarrow> Err e | Panic \<Rightarrow> Panic)"

fun verify_each :: "env \<Rightarrow> bytes \<Rightarrow> nat \<Rightarrow> (bytes \<times> bytes) list \<Rightarrow> (core_error, unit) outcome" where
  "verify_each E message_bytes i [] = Ok ()"
| "verify_each E message_bytes i ((sig, pk) # rest) =
    (if dilithium_verify E pk message_bytes sig then verify_each E message_bytes (Suc i) rest
     else Err (CE_InvalidTransaction (''signature '' @ show_nat i @ '' verification failed'')))"

definition tx_verify :: "env \<Rightarrow> bytes list \<Rightarrow> transaction \<Rightarrow> (core_error, unit) outcome" where
  "tx_verify E pubkeys tx =
    (if length (signatures tx) \<noteq> length pubkeys
     then Err (CE_InvalidTransaction (''signature count '' @ show_nat (length (signatures tx)) @
            '' != pubkey count '' @ show_nat (length pubkeys)))
     else (case message_data E tx of
             Ok message_bytes \<Rightarrow> verify_each E message_bytes 0 (zip (signatures tx) pubkeys)
           | Err e \<Rightarrow> Err e | Panic \<Rightarrow> Panic))"

text \<open>\<open>for i in 0..required\<close>: the key of signer \<open>i\<close> hashes to \<open>account_keys[i]\<close>.\<close>

fun bind_signers :: "env \<Rightarrow> transaction \<Rightarrow> nat list \<Rightarrow> (core_error, unit) outcome" where
  "bind_signers E tx [] = Ok ()"
| "bind_signers E tx (i # is) =
    (if i < length (account_keys (tx_message tx)) \<and> i < length (signer_pubkeys tx)
     then if account_keys (tx_message tx) ! i \<noteq> sha3_512 E (signer_pubkeys tx ! i)
          then Err (CE_InvalidTransaction (''signer '' @ show_nat i @
                 '' pubkey hash does not match account_keys['' @ show_nat i @ '']''))
          else bind_signers E tx is
     else Panic)"

definition verify_signatures :: "env \<Rightarrow> transaction \<Rightarrow> (core_error, unit) outcome" where
  "verify_signatures E tx =
    (let required = unat (num_required_signatures (tx_message tx)) in
     if length (signatures tx) \<noteq> required
     then Err (CE_InvalidTransaction (''expected '' @ show_nat required @ '' signatures, got '' @
            show_nat (length (signatures tx))))
     else if length (signer_pubkeys tx) \<noteq> length (signatures tx)
     then Err (CE_InvalidTransaction (''signer_pubkeys count '' @ show_nat (length (signer_pubkeys tx)) @
            '' != signature count '' @ show_nat (length (signatures tx))))
     else (case tx_verify E (signer_pubkeys tx) tx of
             Ok _ \<Rightarrow>
               (if length (account_keys (tx_message tx)) < required
                then Err (CE_InvalidTransaction (''num_required_signatures '' @ show_nat required @
                       '' exceeds account_keys count '' @ show_nat (length (account_keys (tx_message tx)))))
                else bind_signers E tx [0..<required])
           | Err e \<Rightarrow> Err e | Panic \<Rightarrow> Panic))"

text \<open>The identifier commits to the message only; the cache in front of it holds nothing else.\<close>

definition tx_hash :: "env \<Rightarrow> transaction \<Rightarrow> ('e, hash) outcome" where
  "tx_hash E tx = (case message_data E tx of Ok b \<Rightarrow> Ok (sha3_512 E b) | Err e \<Rightarrow> Err e | Panic \<Rightarrow> Panic)"

section \<open>What verification establishes\<close>

lemma verify_each_Ok:
  "verify_each E m i sps = Ok () \<longleftrightarrow> (\<forall>(sig, pk) \<in> set sps. dilithium_verify E pk m sig)"
  by (induction sps arbitrary: i) (auto split: if_splits)

lemma bind_signers_Ok:
  "bind_signers E tx is = Ok () \<longleftrightarrow> (\<forall>i \<in> set is. i < length (account_keys (tx_message tx)) \<and>
     i < length (signer_pubkeys tx) \<and> account_keys (tx_message tx) ! i = sha3_512 E (signer_pubkeys tx ! i))"
  by (induction "is") (auto split: if_splits)

lemma verify_signatures_Ok:
  "verify_signatures E tx = Ok () \<longleftrightarrow>
     (\<exists>m. to_vec (message_fmt E) (tx_message tx) = Inr m \<and>
       length (signatures tx) = unat (num_required_signatures (tx_message tx)) \<and>
       length (signer_pubkeys tx) = length (signatures tx) \<and>
       length (signatures tx) \<le> length (account_keys (tx_message tx)) \<and>
       (\<forall>i < length (signatures tx). dilithium_verify E (signer_pubkeys tx ! i) m (signatures tx ! i) \<and>
          account_keys (tx_message tx) ! i = sha3_512 E (signer_pubkeys tx ! i)))"
proof (cases "to_vec (message_fmt E) (tx_message tx)")
  case (Inl e)
  then show ?thesis by (simp add: verify_signatures_def tx_verify_def message_data_def Let_def)
next
  case (Inr m)
  show ?thesis
  proof (cases "verify_each E m 0 (zip (signatures tx) (signer_pubkeys tx)) = Ok ()")
    case True
    then have "\<And>i. i < length (signatures tx) \<Longrightarrow> i < length (signer_pubkeys tx) \<Longrightarrow>
        dilithium_verify E (signer_pubkeys tx ! i) m (signatures tx ! i)"
      by (auto simp: verify_each_Ok set_zip)
    with True Inr show ?thesis
      by (auto simp: verify_signatures_def tx_verify_def message_data_def Let_def bind_signers_Ok)
  next
    case False
    then have "verify_signatures E tx \<noteq> Ok ()"
      using Inr by (auto simp: verify_signatures_def tx_verify_def message_data_def Let_def split: outcome.splits)
    moreover have "\<exists>i < min (length (signatures tx)) (length (signer_pubkeys tx)).
        \<not> dilithium_verify E (signer_pubkeys tx ! i) m (signatures tx ! i)"
      using False by (auto simp: verify_each_Ok set_zip)
    ultimately show ?thesis using Inr by (auto simp: min_def split: if_splits)
  qed
qed

text \<open>C10: verification succeeds exactly when the message can be serialised, the transaction carries as many
  signatures and signer keys as its message requires, the message has that many account keys, and for every account
  the message marks as a signer the signature at its index is valid for the message bytes under the carried key at
  its index, whose hash is the account's address.\<close>

theorem verified_signers:
  "verify_signatures E tx = Ok () \<longleftrightarrow>
     (\<exists>m. to_vec (message_fmt E) (tx_message tx) = Inr m \<and>
       length (signatures tx) = unat (num_required_signatures (tx_message tx)) \<and>
       length (signer_pubkeys tx) = length (signatures tx) \<and>
       length (signatures tx) \<le> length (account_keys (tx_message tx)) \<and>
       (\<forall>i. is_signer (tx_message tx) i \<longrightarrow> dilithium_verify E (signer_pubkeys tx ! i) m (signatures tx ! i) \<and>
          sha3_512 E (signer_pubkeys tx ! i) = account_keys (tx_message tx) ! i))"
  unfolding verify_signatures_Ok is_signer_def by metis

text \<open>C11: signing with the key pairs of the signers, in the order of the account keys, makes the transaction
  verify, whatever it carried before; correctness of the signature scheme is the hypothesis.\<close>

theorem sign_verifies:
  assumes kp: "\<And>kp m. kp \<in> set kps \<Longrightarrow> dilithium_verify E (kp_public kp) m (kp_sign kp m)"
    and n: "length kps = unat (num_required_signatures (tx_message tx))"
    and keys: "map (\<lambda>kp. sha3_512 E (kp_public kp)) kps = take (length kps) (account_keys (tx_message tx))"
    and ser: "to_vec (message_fmt E) (tx_message tx) = Inr b"
  shows "\<exists>tx'. tx_sign E kps tx = (Ok tx' :: ('e, transaction) outcome) \<and> verify_signatures E tx' = Ok () \<and>
     (tx_hash E tx' :: ('e, hash) outcome) = tx_hash E tx"
proof -
  let ?tx = "tx\<lparr>signatures := map (\<lambda>kp. kp_sign kp b) kps, signer_pubkeys := map kp_public kps\<rparr>"
  have len: "length kps \<le> length (account_keys (tx_message tx))"
    using arg_cong [OF keys, of length] by simp
  have "account_keys (tx_message tx) ! i = sha3_512 E (kp_public (kps ! i))" if "i < length kps" for i
    using arg_cong [OF keys, of "\<lambda>xs. xs ! i"] that len by simp
  then have "verify_signatures E ?tx = Ok ()"
    using n ser kp len by (auto simp: verify_signatures_Ok)
  then show ?thesis using ser by (auto simp: tx_sign_def message_data_def tx_hash_def)
qed

section \<open>Witnesses\<close>

definition sample_keypair :: "bytes \<Rightarrow> keypair" where
  "sample_keypair pk = \<lparr>kp_public = pk, kp_sign = (\<lambda>m. pk @ m)\<rparr>"

definition sample_tx :: transaction where
  "sample_tx = transaction_new \<lparr>num_required_signatures = 1, num_readonly_signed = 0, num_readonly_unsigned = 0,
     account_keys = [sample_hash [7]], recent_blockhash = 0, instructions = []\<rparr>"

definition sample_tx_bytes :: bytes where
  "sample_tx_bytes = (case to_vec message_codec (tx_message sample_tx) of Inr b \<Rightarrow> b | Inl _ \<Rightarrow> [])"

lemma sample_tx_to_vec: "to_vec (message_fmt sample_env) (tx_message sample_tx) = Inr sample_tx_bytes"
  by (simp add: sample_tx_bytes_def sample_tx_def transaction_new_def sample_env_def message_codec_def iso_codec_def
      prod_codec_def vec_codec_def u8_codec_def le_codec_def hash_codec_def)

theorem sign_verifies_witness:
  "\<exists>tx'. tx_sign sample_env [sample_keypair [7]] sample_tx = (Ok tx' :: (nat, transaction) outcome) \<and>
     verify_signatures sample_env tx' = Ok () \<and> (tx_hash sample_env tx' :: (nat, hash) outcome) = tx_hash sample_env sample_tx"
  by (rule sign_verifies [OF _ _ _ sample_tx_to_vec])
    (auto simp: sample_keypair_def sample_env_def sample_tx_def transaction_new_def)

theorem verified_signers_witness:
  "verify_signatures sample_env (sample_tx\<lparr>signatures := [7 # sample_tx_bytes], signer_pubkeys := [[7]]\<rparr>) = Ok () \<and>
   dilithium_verify sample_env [7] sample_tx_bytes (7 # sample_tx_bytes) \<and> sha3_512 sample_env [7] = sample_hash [7] \<and>
   verify_signatures sample_env (sample_tx\<lparr>signatures := [8 # sample_tx_bytes], signer_pubkeys := [[7]]\<rparr>) \<noteq> Ok ()"
proof -
  let ?tx = "\<lambda>k. sample_tx\<lparr>signatures := [k # sample_tx_bytes], signer_pubkeys := [[7]]\<rparr>"
  have ser: "to_vec (message_fmt sample_env) (tx_message (?tx k)) = Inr sample_tx_bytes" for k
    using sample_tx_to_vec by simp
  have sgn: "is_signer (tx_message (?tx k)) i \<longleftrightarrow> i = 0" for k i by (auto simp: is_signer_def sample_tx_def transaction_new_def)
  have v: "verify_signatures sample_env (?tx k) = Ok () \<longleftrightarrow> k = 7" for k
    unfolding verified_signers ser sgn by (simp add: sample_tx_def transaction_new_def sample_env_def)
  have "\<exists>m. to_vec (message_fmt sample_env) (tx_message (?tx 7)) = Inr m \<and>
      (\<forall>i. is_signer (tx_message (?tx 7)) i \<longrightarrow> dilithium_verify sample_env (signer_pubkeys (?tx 7) ! i) m (signatures (?tx 7) ! i) \<and>
         sha3_512 sample_env (signer_pubkeys (?tx 7) ! i) = account_keys (tx_message (?tx 7)) ! i)"
    using iffD1 [OF verified_signers, of sample_env "?tx 7"] v by blast
  then have "dilithium_verify sample_env [7] sample_tx_bytes (7 # sample_tx_bytes) \<and> sha3_512 sample_env [7] = sample_hash [7]"
    unfolding ser sgn by (simp add: sample_tx_def transaction_new_def)
  with v show ?thesis by simp
qed

end
