(* ===== verification/Compute_Budget.thy ===== *)
theory Compute_Budget
  imports Env Message
begin

text \<open>
  The compute budget of a transaction: \<open>runtime/src/compute_budget_parser.rs\<close> and the defaults of
  \<open>compute-budget-program/src/lib.rs\<close>. The instructions are scanned once; each setting may be given
  at most once and is clamped or rejected against its maximum.
\<close>

record budget_scan =
  bs_limit :: "u64 option"
  bs_price :: "u64 option"
  bs_heap :: "u32 option"
  bs_data :: "u32 option"

definition compute_budget_default :: compute_budget where
  "compute_budget_default = \<lparr>compute_unit_limit = DEFAULT_COMPUTE_UNIT_LIMIT, compute_unit_price = DEFAULT_COMPUTE_UNIT_PRICE,
     heap_size = ucast DEFAULT_HEAP_SIZE, loaded_accounts_data_size_limit = ucast DEFAULT_LOADED_ACCOUNTS_DATA_SIZE_LIMIT\<rparr>"

definition is_power_of_two :: "u32 \<Rightarrow> bool" where
  "is_power_of_two w \<longleftrightarrow> w \<in> set (map (\<lambda>k. 2 ^ k) [0..<32])"

definition scan_budget_ix :: "compute_budget_instruction \<Rightarrow> (budget_scan, runtime_error, unit) rm" where
  "scan_budget_ix instruction =
    (case instruction of
       RequestUnitsDeprecated _ _ \<Rightarrow> fail (InvalidComputeBudget ''RequestUnitsDeprecated is no longer supported'')
     | SetComputeUnitLimit units \<Rightarrow>
         bind_r (gets bs_limit) (\<lambda>v.
         then_r (require (v = None) (InvalidComputeBudget ''duplicate SetComputeUnitLimit''))
         (modify (\<lambda>b. b\<lparr>bs_limit := Some (min (ucast units) MAX_COMPUTE_UNIT_LIMIT)\<rparr>)))
     | SetComputeUnitPrice price \<Rightarrow>
         bind_r (gets bs_price) (\<lambda>v.
         then_r (require (v = None) (InvalidComputeBudget ''duplicate SetComputeUnitPrice''))
         (modify (\<lambda>b. b\<lparr>bs_price := Some price\<rparr>)))
     | RequestHeapFrame n \<Rightarrow>
         bind_r (gets bs_heap) (\<lambda>v.
         then_r (require (v = None) (InvalidComputeBudget ''duplicate RequestHeapFrame''))
         (then_r (require (ucast n \<le> MAX_HEAP_SIZE \<and> is_power_of_two n)
            (InvalidComputeBudget (''invalid heap frame size: '' @ show_u64 n @ '' (max: '' @ show_u64 MAX_HEAP_SIZE @
               '', must be power of 2)'')))
         (modify (\<lambda>b. b\<lparr>bs_heap := Some n\<rparr>))))
     | SetLoadedAccountsDataSizeLimit l \<Rightarrow>
         bind_r (gets bs_data) (\<lambda>v.
         then_r (require (v = None) (InvalidComputeBudget ''duplicate SetLoadedAccountsDataSizeLimit''))
         (modify (\<lambda>b. b\<lparr>bs_data := Some (ucast (min (ucast l) MAX_LOADED_ACCOUNTS_DATA_SIZE_LIMIT))\<rparr>))))"

fun scan_budget :: "env \<Rightarrow> message \<Rightarrow> nat \<Rightarrow> compiled_instruction list \<Rightarrow> (budget_scan, runtime_error, unit) rm" where
  "scan_budget E m ix_index [] = return ()"
| "scan_budget E m ix_index (ix # ixs) =
    (let idx = unat (ci_program_id_index ix) in
     if length (account_keys m) \<le> idx
     then fail (InvalidInstructionData (''instruction '' @ show_nat ix_index @ '': program_id_index '' @ show_nat idx @
            '' out of bounds (account_keys len '' @ show_nat (length (account_keys m)) @ '')''))
     else if account_keys m ! idx \<noteq> COMPUTE_BUDGET_PROGRAM_ID E then scan_budget E m (Suc ix_index) ixs
     else bind_r (map_err (try_from_slice (compute_budget_ix_fmt E) (ci_data ix))
                   (\<lambda>e. InvalidComputeBudget (''instruction '' @ show_nat ix_index @ '': failed to deserialize: '' @ e)))
           (\<lambda>instruction. then_r (scan_budget_ix instruction) (scan_budget E m (Suc ix_index) ixs)))"

definition scan_result :: "budget_scan \<Rightarrow> compute_budget" where
  "scan_result b =
    \<lparr>compute_unit_limit = (case bs_limit b of Some v \<Rightarrow> v | None \<Rightarrow> DEFAULT_COMPUTE_UNIT_LIMIT),
     compute_unit_price = (case bs_price b of Some v \<Rightarrow> v | None \<Rightarrow> DEFAULT_COMPUTE_UNIT_PRICE),
     heap_size = (case bs_heap b of Some v \<Rightarrow> v | None \<Rightarrow> ucast DEFAULT_HEAP_SIZE),
     loaded_accounts_data_size_limit =
       (case bs_data b of Some v \<Rightarrow> v | None \<Rightarrow> ucast DEFAULT_LOADED_ACCOUNTS_DATA_SIZE_LIMIT)\<rparr>"

definition parse_compute_budget :: "env \<Rightarrow> message \<Rightarrow> (runtime_error, compute_budget) outcome" where
  "parse_compute_budget E m =
    fst (bind_r (scan_budget E m 0 (instructions m)) (\<lambda>_. gets scan_result)
           \<lparr>bs_limit = None, bs_price = None, bs_heap = None, bs_data = None\<rparr>)"

section \<open>Bounds of the parsed budget\<close>

definition scan_ok :: "budget_scan \<Rightarrow> bool" where
  "scan_ok b \<longleftrightarrow> (\<forall>v. bs_limit b = Some v \<longrightarrow> v \<le> MAX_COMPUTE_UNIT_LIMIT) \<and>
     (\<forall>v. bs_heap b = Some v \<longrightarrow> ucast v \<le> MAX_HEAP_SIZE \<and> is_power_of_two v) \<and>
     (\<forall>v. bs_data b = Some v \<longrightarrow> ucast v \<le> MAX_LOADED_ACCOUNTS_DATA_SIZE_LIMIT)"

interpretation scan: run_relation "\<lambda>b c. scan_ok b \<longrightarrow> scan_ok c"
  by unfold_locales auto

lemma unat_u32_u64 [simp]: "unat (ucast (w :: u32) :: u64) = unat w"
  using unat_bounds(2) [of w] by (simp add: unsigned_ucast_eq take_bit_nat_eq_self)

lemma unat_u64_u32: "unat (v :: u64) < 4294967296 \<Longrightarrow> unat (ucast v :: u32) = unat v"
  by (simp add: unsigned_ucast_eq take_bit_nat_eq_self)

lemma default_heap_power: "is_power_of_two 32768"
  by (simp add: is_power_of_two_def) (rule image_eqI [of _ _ 15], simp_all)

lemma data_limit_clamped:
  "ucast (ucast (min (ucast (l :: u32)) MAX_LOADED_ACCOUNTS_DATA_SIZE_LIMIT) :: u32) \<le> MAX_LOADED_ACCOUNTS_DATA_SIZE_LIMIT"
proof -
  let ?v = "min (ucast l) MAX_LOADED_ACCOUNTS_DATA_SIZE_LIMIT"
  have "unat ?v \<le> 65536000" by (simp add: MAX_LOADED_ACCOUNTS_DATA_SIZE_LIMIT_def min_def word_le_nat_alt)
  then have "unat (ucast (ucast ?v :: u32) :: u64) = unat ?v" by (simp add: unat_u64_u32)
  then show ?thesis by (simp add: word_le_nat_alt MAX_LOADED_ACCOUNTS_DATA_SIZE_LIMIT_def min_def)
qed

lemma scan_ix_ok: "scan.keeps (scan_budget_ix ix)"
  unfolding scan_budget_ix_def scan.keeps_def
  by (auto simp: run_simps bind_r_def scan_ok_def data_limit_clamped split: compute_budget_instruction.splits)

lemma scan_budget_ok: "scan.keeps (scan_budget E m i ixs)"
  by (induction ixs arbitrary: i) (auto simp: Let_def intro!: scan.keeps_intros scan_ix_ok)

lemma parse_budget_bounds:
  assumes "parse_compute_budget E m = Ok b"
  shows "unat (compute_unit_limit b) \<le> 1400000 \<and> unat (heap_size b) \<le> 262144 \<and> is_power_of_two (heap_size b) \<and>
     unat (loaded_accounts_data_size_limit b) \<le> 65536000"
proof -
  let ?s = "\<lparr>bs_limit = None, bs_price = None, bs_heap = None, bs_data = None\<rparr> :: budget_scan"
  obtain t where t: "scan_budget E m 0 (instructions m) ?s = (Ok (), t)" and b: "b = scan_result t"
    using assms by (auto simp: parse_compute_budget_def bind_r_def gets_def split: prod.splits outcome.splits)
  have "scan_ok ?s" by (simp add: scan_ok_def)
  with scan.keepsD [OF scan_budget_ok t] have "scan_ok t" by simp
  then show ?thesis
    by (auto simp: b scan_result_def scan_ok_def word_le_nat_alt MAX_COMPUTE_UNIT_LIMIT_def MAX_HEAP_SIZE_def
        MAX_LOADED_ACCOUNTS_DATA_SIZE_LIMIT_def DEFAULT_COMPUTE_UNIT_LIMIT_def DEFAULT_HEAP_SIZE_def
        DEFAULT_LOADED_ACCOUNTS_DATA_SIZE_LIMIT_def default_heap_power split: option.splits)
qed

lemma scan_budget_no_panic: "fst (scan_budget E m i ixs s) \<noteq> Panic"
proof (induction ixs arbitrary: i s)
  case (Cons ix ixs)
  have "fst (scan_budget_ix c u) \<noteq> Panic" for c u
    by (cases c) (auto simp: scan_budget_ix_def run_simps bind_r_def)
  with Cons show ?case
    by (auto simp: Let_def bind_r_def run_simps split: sum.splits prod.splits outcome.splits) (metis fst_conv)+
qed (simp add: run_simps)

lemma parse_no_panic: "parse_compute_budget E m \<noteq> Panic"
  using scan_budget_no_panic [of E m 0 "instructions m"]
  by (auto simp: parse_compute_budget_def bind_r_def gets_def split: prod.splits outcome.splits) (metis fst_conv)

text \<open>Parsing never panics, and a parsed budget respects every maximum whatever the instructions ask for:
  compute units, heap (a power of two) and loaded data.\<close>

theorem parse_compute_budget_bounds:
  "parse_compute_budget E m \<noteq> Panic \<and> (\<forall>b. parse_compute_budget E m = Ok b \<longrightarrow>
     unat (compute_unit_limit b) \<le> 1400000 \<and> unat (heap_size b) \<le> 262144 \<and> is_power_of_two (heap_size b) \<and>
     unat (loaded_accounts_data_size_limit b) \<le> 65536000)"
  using parse_no_panic parse_budget_bounds by blast

section \<open>Witnesses\<close>

text \<open>A limit above the maximum is clamped.\<close>

definition budget_bytes :: "compute_budget_instruction \<Rightarrow> bytes" where
  "budget_bytes ix = (case to_vec compute_budget_instruction_codec ix of Inr b \<Rightarrow> b | Inl _ \<Rightarrow> [])"

definition budget_message :: message where
  "budget_message = \<lparr>num_required_signatures = 1, num_readonly_signed = 0, num_readonly_unsigned = 1,
     account_keys = [1, COMPUTE_BUDGET_PROGRAM_ID sample_env], recent_blockhash = 0,
     instructions = [\<lparr>ci_program_id_index = 1, ci_accounts = [], ci_data = budget_bytes (SetComputeUnitLimit 4000000)\<rparr>]\<rparr>"

lemma budget_bytes_parse: "try_from_slice compute_budget_instruction_codec (budget_bytes ix) = Inr ix"
proof -
  have "to_vec compute_budget_instruction_codec ix = Inr (budget_bytes ix)"
    by (cases ix) (simp_all add: budget_bytes_def codec_simps)
  then show ?thesis by (rule compute_budget_instruction_format.try_from_slice_to_vec)
qed

theorem parse_compute_budget_bounds_witness:
  "\<exists>b. parse_compute_budget sample_env budget_message = Ok b \<and> unat (compute_unit_limit b) \<le> 1400000"
proof -
  have fmt: "compute_budget_ix_fmt sample_env = compute_budget_instruction_codec" by (simp add: sample_env_def)
  obtain b where "parse_compute_budget sample_env budget_message = Ok b"
    by (simp add: parse_compute_budget_def budget_message_def fmt budget_bytes_parse scan_budget_ix_def run_simps Let_def)
  with parse_compute_budget_bounds [of sample_env budget_message] show ?thesis by blast
qed

end
