(* ===== verification/Panic_Free.thy ===== *)
theory Panic_Free
  imports System Stake Vote Token Loader
begin

text \<open>
  No native instruction panics the validator: the indexing and slicing in the handlers is always in
  range, because the length checks come first and because a header that was read from an account is a
  prefix of its data. A run is safe if it ends in a value or an error from every state; safety is
  compositional, and a rule for sequencing gives the continuation what the first part returned.
\<close>

definition safe :: "('s, 'e, 'a) rm \<Rightarrow> bool" where
  "safe m \<longleftrightarrow> (\<forall>s. fst (m s) \<noteq> Panic)"

named_theorems safe_intros \<open>programs that do not panic\<close>

lemma safe_basic [safe_intros]:
  "safe (return x)" "safe (fail e)" "safe (require c e)" "safe (ok_or v e)" "safe (gets f)" "safe (modify g)"
  "safe (map_err w h)"
  by (auto simp: safe_def run_simps split: option.split sum.split)

lemma safe_bind [safe_intros]:
  assumes m: "safe m" and f: "\<And>x s t. m s = (Ok x, t) \<Longrightarrow> safe (f x)"
  shows "safe (bind_r m f)"
proof -
  have "fst (bind_r m f s) \<noteq> Panic" for s
  proof (cases "m s")
    case (Pair r t)
    then show ?thesis
    proof (cases r)
      case (Ok x)
      with Pair f [of s x t] show ?thesis by (simp add: safe_def bind_r_def)
    next
      case (Err e)
      with Pair show ?thesis by (simp add: bind_r_def)
    next
      case Panic
      with Pair m have False by (metis fst_conv safe_def)
      then show ?thesis ..
    qed
  qed
  then show ?thesis by (simp add: safe_def)
qed

lemma safe_index [safe_intros]: "k < length xs \<Longrightarrow> safe (index xs k)"
  by (simp add: safe_def run_simps)

lemma safe_account_index [safe_intros]: "k < length xs \<Longrightarrow> safe (account_index xs k)"
  unfolding account_index_def by (intro safe_intros)

lemma safe_get_account [safe_intros]: "safe (get_account i)"
  by (simp add: safe_def get_account_def)

lemma safe_with_account_mut [safe_intros]: "safe f \<Longrightarrow> safe (with_account_mut i f)"
  by (auto simp: safe_def with_account_mut_def split: prod.splits) (metis fst_conv)

lemma safe_consume [safe_intros]: "safe (consume_compute n)"
  by (auto simp: safe_def consume_compute_def meter_consume_def)

lemma safe_helpers [safe_intros]:
  "safe (require_accounts xs k nm)" "safe (require_signer i)" "safe (load_state c i)" "safe (save_state c i x)"
  "safe (debit n)" "safe (credit n)" "safe (check_rent_exempt i v)"
  unfolding require_accounts_def require_signer_def load_state_def save_state_def debit_def credit_def check_rent_exempt_def Let_def
  by (intro safe_intros)+

lemma safe_if [safe_intros]: "(c \<Longrightarrow> safe m) \<Longrightarrow> (\<not> c \<Longrightarrow> safe n) \<Longrightarrow> safe (if c then m else n)"
  by simp

lemma safe_option [safe_intros]:
  "(v = None \<Longrightarrow> safe m) \<Longrightarrow> (\<And>x. v = Some x \<Longrightarrow> safe (f x)) \<Longrightarrow> safe (case v of None \<Rightarrow> m | Some x \<Rightarrow> f x)"
  by (cases v) auto

lemma require_accounts_length: "require_accounts xs n nm s = (Ok x, t) \<Longrightarrow> n \<le> length xs"
  by (simp add: require_accounts_Ok_iff)

section \<open>The processors\<close>

lemma safe_system_handlers [safe_intros]:
  "safe (process_create_account accounts l sp own v)" "safe (process_transfer accounts l)"
  "safe (process_assign E accounts own)" "safe (process_allocate E accounts sp)"
  unfolding process_create_account_def process_transfer_def process_assign_def process_allocate_def require_system_owned_def Let_def
  by (intro safe_intros; auto dest!: require_accounts_length)+

lemma safe_process_system [safe_intros]: "safe (process_system E accounts data sysvars)"
  unfolding process_system_def by (intro safe_intros) (auto split: system_instruction.split intro: safe_intros)

lemma safe_stake_handlers [safe_intros]:
  "safe (stake_initialize E accounts au lo v)" "safe (stake_delegate E accounts v)" "safe (stake_deactivate E accounts v)"
  "safe (stake_withdraw E accounts l v)" "safe (split_source E i m so a b)" "safe (stake_split E accounts l v)"
  unfolding stake_initialize_def stake_delegate_def stake_deactivate_def stake_withdraw_def split_source_def stake_split_def
    require_stake_owned_def Let_def
  by (intro safe_intros; auto dest!: require_accounts_length split: stake_state.split intro!: safe_intros)+

lemma safe_process_stake [safe_intros]: "safe (process_stake E accounts data sysvars)"
  unfolding process_stake_def by (intro safe_intros) (auto split: stake_instruction.split intro: safe_intros)

lemma safe_check_vote_slots [safe_intros]: "safe (check_vote_slots c p ss)"
  by (induction ss arbitrary: p) (auto intro!: safe_intros)

lemma safe_vote_handlers [safe_intros]:
  "safe (vote_initialize E accounts vi v)" "safe (vote_authorize_voter E accounts h ty)" "safe (vote_update_commission E accounts c)"
  "safe (vote_action E accounts w v)" "safe (vote_withdraw E accounts l v)"
  unfolding vote_initialize_def vote_authorize_voter_def vote_update_commission_def vote_action_def vote_withdraw_def Let_def
  by (intro safe_intros; auto dest!: require_accounts_length split: vote_authorize.split intro!: safe_intros)+

lemma safe_process_vote [safe_intros]: "safe (process_vote E accounts data sysvars)"
  unfolding process_vote_def by (intro safe_intros) (auto split: vote_instruction.split intro: safe_intros)

lemma token_accounts_length: "token_accounts xs n s = (Ok x, t) \<Longrightarrow> n \<le> length xs"
  by (simp add: token_accounts_Ok_iff)

lemma safe_token_steps [safe_intros]:
  "safe (token_accounts xs k)" "safe (token_signer i)" "safe (require_token_owned E i)" "safe (token_load c i)"
  "safe (token_load_exact c i)" "safe (token_save c i x)" "safe (token_claim E c i x)"
  unfolding token_step_defs by (intro safe_intros)+

lemma safe_token_handlers [safe_intros]:
  "safe (token_initialize_mint E accounts dec h f)" "safe (token_initialize_account E accounts)" "safe (token_mint_to E accounts n)"
  "safe (token_transfer E accounts n)" "safe (token_approve E accounts n)" "safe (token_revoke E accounts)"
  "safe (token_burn E accounts n)" "safe (token_close_account E accounts)" "safe (token_freeze_account E accounts)"
  "safe (token_thaw_account E accounts)"
  unfolding token_handler_defs token_close_account_def Let_def
  by (intro safe_intros; auto dest!: token_accounts_length intro!: safe_intros)+

lemma safe_process_token [safe_intros]: "safe (process_token E accounts data sysvars)"
  unfolding process_token_def by (intro safe_intros) (auto split: token_instruction.split intro: safe_intros)

text \<open>The loader also slices account data behind a header it has just read there.\<close>

lemma safe_loader_steps [safe_intros]:
  "safe (loader_state_of E a)" "safe (loader_header E st)" "safe (buffer_write E h off d)" "safe (replace_bytecode k nh code)"
  unfolding loader_state_of_def loader_header_def buffer_write_def replace_bytecode_def Let_def
  by (intro safe_intros)+

lemma safe_require_buffer [safe_intros]: "safe (require_buffer st h i msg)"
  by (cases st) (auto simp: require_buffer_def intro: safe_intros)

lemma header_fits:
  assumes "borsh_codec (loader_state_fmt E)" and "from_account_data E d = Inr st" and "to_vec (loader_state_fmt E) st = Inr h"
    and "st \<noteq> LsUninitialized"
  shows "length h \<le> length d"
  using assms by (auto simp: from_account_data_def split: if_splits intro: borsh_codec.to_vec_length_le)

lemma safe_slice: "length h \<le> length d \<Longrightarrow> safe (slice_from (length h) d)"
  by (simp add: safe_def slice_from_def run_simps)

lemma safe_loader_simple [safe_intros]:
  "safe (loader_initialize_buffer E accounts)" "safe (loader_write E accounts off d)" "safe (loader_close E accounts)"
  unfolding loader_initialize_buffer_def loader_write_def loader_close_def
  by (intro safe_intros; auto dest!: require_accounts_length)+

lemma safe_loader_deploy:
  assumes "borsh_codec (loader_state_fmt E)"
  shows "safe (loader_deploy E accounts n v)"
  unfolding loader_deploy_def Let_def
  by (intro safe_intros)
    (auto dest!: require_accounts_length simp: loader_state_of_Ok_iff loader_header_Ok_iff require_buffer_Ok_iff
      intro!: safe_slice header_fits [OF assms])

lemma safe_loader_upgrade:
  assumes "borsh_codec (loader_state_fmt E)"
  shows "safe (loader_upgrade E accounts)"
  unfolding loader_upgrade_def Let_def
  by (intro safe_intros)
    (auto dest!: require_accounts_length simp: loader_state_of_Ok_iff loader_header_Ok_iff require_buffer_Ok_iff
      split: loader_state.split intro!: safe_slice header_fits [OF assms] safe_intros)

lemma safe_loader_set_authority:
  assumes c: "borsh_codec (loader_state_fmt E)"
  shows "safe (loader_set_authority E accounts new)"
proof -
  have "fst (loader_set_authority E accounts new s) \<noteq> Panic" for s
    using header_fits [OF c, of "acc_data (snd (ctx_accounts s ! unat (accounts ! 0)))"]
    by (auto simp: loader_set_authority_def loader_state_of_def loader_header_def run_simps bind_r_def slice_from_def
        split: if_splits sum.splits loader_state.splits prod.splits outcome.splits)
  then show ?thesis by (simp add: safe_def)
qed

lemma safe_process_loader:
  assumes "borsh_codec (loader_state_fmt E)"
  shows "safe (process_loader E accounts data sysvars)"
  unfolding process_loader_def
  by (intro safe_intros)
    (auto split: loader_instruction.split
      intro!: safe_intros safe_loader_deploy [OF assms] safe_loader_upgrade [OF assms] safe_loader_set_authority [OF assms])

end
