(* ===== verification/Executor.thy ===== *)
theory Executor
  imports System Stake Vote Token Loader Transaction Compute_Budget Panic_Free
begin

text \<open>
  Execution of one transaction: \<open>runtime/src/transaction_executor.rs\<close> with the loading of accounts
  (\<open>account_loader.rs\<close>), the processor registry (\<open>program_processor.rs\<close>) and the dispatch of
  instructions to native processors or to the engine (\<open>program_dispatch.rs\<close>, \<open>wasm_dispatch.rs\<close>).
  Storage is a lookup that may fail. The engine with its host functions is the parameter of
  \<open>Env\<close>; where it matters, that it keeps the addresses of the accounts is a named hypothesis.
\<close>

type_synonym storage = "hash \<Rightarrow> string + account option"

definition INSTRUCTION_BASE_COST :: u64 where "INSTRUCTION_BASE_COST = 200"
definition INSTRUCTION_DATA_BYTE_COST :: u64 where "INSTRUCTION_DATA_BYTE_COST = 1"
definition SIGNATURE_VERIFY_COST :: u64 where "SIGNATURE_VERIFY_COST = 2000"

section \<open>Checks before execution\<close>

fun sanitize_accounts :: "nat \<Rightarrow> nat \<Rightarrow> nat \<Rightarrow> bytes \<Rightarrow> (runtime_error, unit) outcome" where
  "sanitize_accounts n ix_idx ai [] = Ok ()"
| "sanitize_accounts n ix_idx ai (acc # rest) =
    (if n \<le> unat acc
     then Err (InvalidInstructionData (''instruction '' @ show_nat ix_idx @ '': account index '' @ show_nat ai @
            '' value '' @ show_u64 acc @ '' out of bounds (account_keys len '' @ show_nat n @ '')''))
     else sanitize_accounts n ix_idx (Suc ai) rest)"

fun sanitize_instructions :: "nat \<Rightarrow> nat \<Rightarrow> compiled_instruction list \<Rightarrow> (runtime_error, unit) outcome" where
  "sanitize_instructions n ix_idx [] = Ok ()"
| "sanitize_instructions n ix_idx (ix # rest) =
    (if n \<le> unat (ci_program_id_index ix)
     then Err (InvalidInstructionData (''instruction '' @ show_nat ix_idx @ '': program_id_index '' @
            show_u64 (ci_program_id_index ix) @ '' out of bounds (account_keys len '' @ show_nat n @ '')''))
     else (case sanitize_accounts n ix_idx 0 (ci_accounts ix) of
             Ok _ \<Rightarrow> sanitize_instructions n (Suc ix_idx) rest
           | Err e \<Rightarrow> Err e | Panic \<Rightarrow> Panic))"

definition sanitize_message :: "message \<Rightarrow> (runtime_error, unit) outcome" where
  "sanitize_message m = sanitize_instructions (length (account_keys m)) 0 (instructions m)"

section \<open>Loading accounts\<close>

text \<open>\<open>account_keys.iter().position(|a| a == address)\<close>\<close>

fun iter_position :: "('a \<Rightarrow> bool) \<Rightarrow> 'a list \<Rightarrow> nat option" where
  "iter_position P [] = None"
| "iter_position P (x # xs) = (if P x then Some 0 else map_option Suc (iter_position P xs))"

fun check_aliasing :: "hash list \<Rightarrow> nat \<Rightarrow> hash set \<Rightarrow> hash list \<Rightarrow> (runtime_error, unit) outcome" where
  "check_aliasing all i seen [] = Ok ()"
| "check_aliasing all i seen (address # rest) =
    (if address \<in> seen
     then Err (AccountIndexAliasing (case iter_position (\<lambda>a. a = address) all of Some p \<Rightarrow> p | None \<Rightarrow> 0) i)
     else check_aliasing all (Suc i) (insert address seen) rest)"

definition lookup_account :: "storage \<Rightarrow> (hash \<rightharpoonup> account) option \<Rightarrow> hash \<Rightarrow> string + account" where
  "lookup_account storage cache address =
    (case (case cache of Some c \<Rightarrow> c address | None \<Rightarrow> None) of
       Some cached \<Rightarrow> Inr cached
     | None \<Rightarrow> (case storage address of
                  Inl e \<Rightarrow> Inl e
                | Inr (Some a) \<Rightarrow> Inr a
                | Inr None \<Rightarrow> Inr (account_new 0 hash_zero)))"

fun load_each :: "storage \<Rightarrow> (hash \<rightharpoonup> account) option \<Rightarrow> u32 \<Rightarrow> u64 \<Rightarrow> hash list \<Rightarrow>
    (runtime_error, (hash \<times> account) list) outcome" where
  "load_each storage cache limit total_size [] = Ok []"
| "load_each storage cache limit total_size (address # rest) =
    (case lookup_account storage cache address of
       Inl e \<Rightarrow> Err (Storage e)
     | Inr account \<Rightarrow>
         let total_size = total_size + of_nat (length (acc_data account)) in
         if ucast limit < total_size then Err (LoadedAccountsDataSizeExceeded total_size (ucast limit))
         else (case load_each storage cache limit total_size rest of
                 Ok accounts \<Rightarrow> Ok ((address, account) # accounts)
               | Err e \<Rightarrow> Err e | Panic \<Rightarrow> Panic))"

definition load_accounts :: "storage \<Rightarrow> hash list \<Rightarrow> u32 \<Rightarrow> (hash \<rightharpoonup> account) option \<Rightarrow>
    (runtime_error, (hash \<times> account) list) outcome" where
  "load_accounts storage keys limit cache =
    (case check_aliasing keys 0 {} keys of
       Ok _ \<Rightarrow> load_each storage cache limit 0 keys
     | Err e \<Rightarrow> Err e | Panic \<Rightarrow> Panic)"

section \<open>Dispatch\<close>

type_synonym processor = "bytes \<Rightarrow> bytes \<Rightarrow> sysvar_cache \<Rightarrow> unit rt"

definition process_compute_budget :: processor where
  "process_compute_budget accounts data sysvars = return ()"

definition register :: "hash \<Rightarrow> processor \<Rightarrow> (hash \<rightharpoonup> processor) \<Rightarrow> (hash \<rightharpoonup> processor)" where
  "register program_id p processors = processors(program_id \<mapsto> p)"

text \<open>The built-in processors: the identifier each answers to and the function it calls.\<close>

definition native_processors :: "env \<Rightarrow> (hash \<times> processor) list" where
  "native_processors E =
    [(SYSTEM_PROGRAM_ID E, process_system E),
     (STAKE_PROGRAM_ID E, process_stake E),
     (VOTE_PROGRAM_ID E, process_vote E),
     (COMPUTE_BUDGET_PROGRAM_ID E, process_compute_budget),
     (LOADER_PROGRAM_ID E, process_loader E),
     (TOKEN_PROGRAM_ID E, process_token E)]"

definition registry_defaults :: "env \<Rightarrow> hash \<rightharpoonup> processor" where
  "registry_defaults E = fold (\<lambda>(program_id, p). register program_id p) (native_processors E) Map.empty"

text \<open>The loop over the accounts that looks for an address.\<close>

definition find_account :: "hash \<Rightarrow> tx_ctx \<Rightarrow> nat option" where
  "find_account address s = iter_position (\<lambda>(a, _). a = address) (ctx_accounts s)"

fun collect_privileges :: "nat list \<Rightarrow> (bool \<times> bool) list rt" where
  "collect_privileges [] = return []"
| "collect_privileges (i # is) = bind_r (get_account i) (\<lambda>acc.
     bind_r (collect_privileges is) (\<lambda>ps. return ((ar_is_signer acc, ar_is_writable acc) # ps)))"

definition from_outcome :: "('e, 'a) outcome \<Rightarrow> ('e \<Rightarrow> 'f) \<Rightarrow> ('s, 'f, 'a) rm" where
  "from_outcome v f = (case v of Ok x \<Rightarrow> return x | Err e \<Rightarrow> fail (f e) | Panic \<Rightarrow> panic)"

definition run_engine :: "env \<Rightarrow> bytes \<Rightarrow> hash \<Rightarrow> bytes \<Rightarrow> (bool \<times> bool) list \<Rightarrow> nat list \<Rightarrow> unit rt" where
  "run_engine E bytecode program_id data privileges indices s =
    (case wasm_execute E bytecode program_id data (ctx_accounts s) privileges indices (ctx_slot s) (cm_remaining (ctx_meter s)) of
       (result, accounts, compute_after) \<Rightarrow>
         (case result of Inr _ \<Rightarrow> Ok () | Inl e \<Rightarrow> Err (WasmError e),
          set_compute_remaining compute_after (s\<lparr>ctx_accounts := accounts\<rparr>)))"

definition dispatch_wasm_program :: "env \<Rightarrow> hash \<Rightarrow> bytes \<Rightarrow> bytes \<Rightarrow> unit rt" where
  "dispatch_wasm_program E program_id accounts data =
    bind_r (gets (find_account program_id)) (\<lambda>found_program.
    bind_r (ok_or found_program (ProgramNotExecutable (''program account not found: '' @ hash_display E program_id))) (\<lambda>program_idx.
    bind_r (get_account program_idx) (\<lambda>program_acc.
    then_r (require (acc_executable (ar_account program_acc))
       (ProgramNotExecutable (''program '' @ hash_display E program_id @ '' is not executable'')))
    (then_r (require (acc_owner (ar_account program_acc) = LOADER_PROGRAM_ID E)
       (ProgramNotExecutable (''program '' @ hash_display E program_id @ '' not owned by loader'')))
    (bind_r (loader_state_of E (ar_account program_acc)) (\<lambda>state.
    bind_r (case state of LsProgram program_data_address \<Rightarrow> return program_data_address
      | _ \<Rightarrow> fail (ProgramNotExecutable ''not a Program account'')) (\<lambda>pd_address.
    bind_r (gets (find_account pd_address)) (\<lambda>found_pd.
    bind_r (ok_or found_pd (InvalidAccountData ''program data account not found in transaction'')) (\<lambda>pd_idx.
    bind_r (get_account pd_idx) (\<lambda>pd_acc.
    bind_r (from_outcome (extract_bytecode E (acc_data (ar_account pd_acc))) InvalidAccountData) (\<lambda>bytecode.
    let account_indices = map unat accounts in
    bind_r (collect_privileges account_indices) (\<lambda>privileges.
    run_engine E bytecode program_id data privileges account_indices))))))))))))"

definition dispatch_instruction :: "env \<Rightarrow> hash \<Rightarrow> bytes \<Rightarrow> bytes \<Rightarrow> sysvar_cache \<Rightarrow> unit rt" where
  "dispatch_instruction E program_id accounts data sysvars =
    then_r (consume_compute (INSTRUCTION_BASE_COST + of_nat (length data) * INSTRUCTION_DATA_BYTE_COST))
    (then_r (require (program_id \<noteq> SYSVAR_PROGRAM_ID E \<and> program_id \<noteq> RENT_PROGRAM_ID E)
       (UnknownProgram ''sysvar and rent programs are not executable''))
    (case registry_defaults E program_id of
       Some process \<Rightarrow> process accounts data sysvars
     | None \<Rightarrow> dispatch_wasm_program E program_id accounts data))"

section \<open>Executing a transaction\<close>

fun execute_each :: "env \<Rightarrow> sysvar_cache \<Rightarrow> nat list \<Rightarrow> unit rt" where
  "execute_each E sysvars [] = return ()"
| "execute_each E sysvars (ix_idx # rest) =
    bind_r (gets ctx_message) (\<lambda>m.
    bind_r (index (instructions m) ix_idx) (\<lambda>ix.
    let program_id_index = unat (ci_program_id_index ix) in
    bind_r (ok_or (if program_id_index < length (account_keys m) then Some (account_keys m ! program_id_index) else None)
       (InvalidInstructionData (''instruction '' @ show_nat ix_idx @ '': program_id_index '' @ show_nat program_id_index @
          '' out of bounds''))) (\<lambda>program_id.
    then_r (dispatch_instruction E program_id (ci_accounts ix) (ci_data ix) sysvars)
    (execute_each E sysvars rest))))"

definition execute_instructions :: "env \<Rightarrow> sysvar_cache \<Rightarrow> unit rt" where
  "execute_instructions E sysvars =
    bind_r (gets ctx_message) (\<lambda>m. execute_each E sysvars [0..<length (instructions m)])"

record tx_result =
  res_hash :: hash
  res_status :: "runtime_error + unit"
  res_fee :: u64
  res_compute :: u64
  res_deltas :: "(hash \<times> account) list"
  res_pre_balances :: "u64 list"
  res_post_balances :: "u64 list"
  res_loaded :: "(hash \<times> account) list"

text \<open>A transaction that is rejected before any account is loaded leaves no trace.\<close>

definition tx_rejected :: "hash \<Rightarrow> runtime_error \<Rightarrow> tx_result" where
  "tx_rejected h e = \<lparr>res_hash = h, res_status = Inl e, res_fee = 0, res_compute = 0, res_deltas = [],
     res_pre_balances = [], res_post_balances = [], res_loaded = []\<rparr>"

text \<open>
  The result of a failed execution: \<open>ctx.get_account(0).unwrap()\<close> and the payer as it then is.
\<close>

definition tx_failed :: "hash \<Rightarrow> u64 \<Rightarrow> (hash \<times> account) list \<Rightarrow> tx_ctx \<Rightarrow> runtime_error \<Rightarrow> (unit, tx_result) outcome" where
  "tx_failed h fee loaded ctx e =
    (if ctx_accounts ctx = [] then Panic
     else Ok \<lparr>res_hash = h, res_status = Inl e, res_fee = fee, res_compute = compute_consumed ctx,
              res_deltas = [ctx_accounts ctx ! 0], res_pre_balances = map (\<lambda>(_, a). acc_lamports a) loaded,
              res_post_balances = post_balances ctx, res_loaded = loaded\<rparr>)"

definition run_in_context :: "env \<Rightarrow> sysvar_cache \<Rightarrow> hash \<Rightarrow> u64 \<Rightarrow> (hash \<times> account) list \<Rightarrow> u8 \<Rightarrow> tx_ctx \<Rightarrow> (unit, tx_result) outcome" where
  "run_in_context E sysvars h fee loaded nsigs ctx =
    (case consume_compute (ucast nsigs * SIGNATURE_VERIFY_COST) ctx of
       (Panic, _) \<Rightarrow> Panic
     | (Err e, ctx) \<Rightarrow> tx_failed h fee loaded ctx e
     | (Ok _, ctx) \<Rightarrow>
         (case execute_instructions E sysvars ctx of
            (Panic, _) \<Rightarrow> Panic
          | (Err e, ctx) \<Rightarrow> tx_failed h fee loaded ctx e
          | (Ok _, ctx) \<Rightarrow>
              (case verify_invariants ctx of
                 Panic \<Rightarrow> Panic
               | Err e \<Rightarrow> tx_failed h fee loaded ctx e
               | Ok _ \<Rightarrow>
                   Ok \<lparr>res_hash = h, res_status = Inr (), res_fee = fee, res_compute = compute_consumed ctx,
                       res_deltas = collect_account_deltas ctx,
                       res_pre_balances = map (\<lambda>(_, a). acc_lamports a) loaded,
                       res_post_balances = post_balances ctx, res_loaded = loaded\<rparr>)))"

text \<open>Steps 5 to 10, from the deduction of the fee; \<open>fee_accounts[0]\<close> panics without accounts.\<close>

definition execute_loaded :: "env \<Rightarrow> message \<Rightarrow> sysvar_cache \<Rightarrow> u64 \<Rightarrow> hash \<Rightarrow> u64 \<Rightarrow> u64 \<Rightarrow> (hash \<times> account) list \<Rightarrow> (unit, tx_result) outcome" where
  "execute_loaded E m sysvars slot h fee compute_limit loaded =
    (let pre_balances = map (\<lambda>(_, a). acc_lamports a) loaded in
     case loaded of
       [] \<Rightarrow> Panic
     | (payer, payer_account) # rest \<Rightarrow>
         if acc_lamports payer_account < fee
         then Ok \<lparr>res_hash = h, res_status = Inl (InsufficientFunds fee (acc_lamports payer_account)), res_fee = 0,
                  res_compute = 0, res_deltas = [], res_pre_balances = pre_balances, res_post_balances = pre_balances,
                  res_loaded = loaded\<rparr>
         else
           (let charged = payer_account\<lparr>acc_lamports := acc_lamports payer_account - fee\<rparr>;
                fee_accounts = (payer, charged) # rest in
            if \<not> (contains_blockhash sysvars (recent_blockhash m) \<or> slot = 0 \<and> recent_blockhash m = hash_zero)
            then Ok \<lparr>res_hash = h, res_status = Inl BlockhashNotFound, res_fee = fee, res_compute = 0,
                     res_deltas = [(payer, charged)], res_pre_balances = pre_balances,
                     res_post_balances = map (\<lambda>(_, a). acc_lamports a) fee_accounts, res_loaded = loaded\<rparr>
            else run_in_context E sysvars h fee loaded (num_required_signatures m)
                   (ctx_new fee_accounts m slot compute_limit)))"

definition execute_transaction :: "env \<Rightarrow> transaction \<Rightarrow> storage \<Rightarrow> sysvar_cache \<Rightarrow> u64 \<Rightarrow> u64 \<Rightarrow> (hash \<rightharpoonup> account) option \<Rightarrow> bool \<Rightarrow>
    (unit, tx_result) outcome" where
  "execute_transaction E tx storage sysvars lamports_per_signature slot cache skip_sig_verify =
    (case tx_hash E tx of Panic \<Rightarrow> Panic | Err e \<Rightarrow> Err e | Ok h \<Rightarrow>
    (case sanitize_message (tx_message tx) of Panic \<Rightarrow> Panic | Err e \<Rightarrow> Ok (tx_rejected h e) | Ok _ \<Rightarrow>
    (case (if skip_sig_verify then Ok () else verify_signatures E tx) of Panic \<Rightarrow> Panic
     | Err e \<Rightarrow> Ok (tx_rejected h (SignatureVerificationFailed (core_error_display e))) | Ok _ \<Rightarrow>
    (case parse_compute_budget E (tx_message tx) of Panic \<Rightarrow> Panic | Err e \<Rightarrow> Ok (tx_rejected h e) | Ok budget \<Rightarrow>
    (case load_accounts storage (account_keys (tx_message tx)) (loaded_accounts_data_size_limit budget) cache of
       Panic \<Rightarrow> Panic
     | Err e \<Rightarrow> Ok (tx_rejected h e)
     | Ok loaded \<Rightarrow>
         execute_loaded E (tx_message tx) sysvars slot h
           (calculate_fee lamports_per_signature (ucast (num_required_signatures (tx_message tx))))
           (compute_unit_limit budget) loaded)))))"

section \<open>The checks\<close>

lemma sanitize_accounts_Ok: "sanitize_accounts n i k as = Ok () \<longleftrightarrow> (\<forall>a \<in> set as. unat a < n)"
  by (induction "as" arbitrary: k) auto

lemma sanitize_accounts_safe: "sanitize_accounts n i k as \<noteq> Panic"
  by (induction "as" arbitrary: k) auto

lemma sanitize_instructions_Ok:
  "sanitize_instructions n i ixs = Ok () \<longleftrightarrow>
     (\<forall>ix \<in> set ixs. unat (ci_program_id_index ix) < n \<and> (\<forall>a \<in> set (ci_accounts ix). unat a < n))"
proof (induction ixs arbitrary: i)
  case (Cons ix ixs)
  then show ?case
    using sanitize_accounts_Ok [of n i 0 "ci_accounts ix"]
    by (cases "sanitize_accounts n i 0 (ci_accounts ix)") (auto simp: not_le)
qed simp

lemma sanitize_instructions_safe: "sanitize_instructions n i ixs \<noteq> Panic"
  by (induction ixs arbitrary: i) (auto simp: sanitize_accounts_safe split: outcome.split)

lemma check_aliasing_Ok: "check_aliasing all i seen ks = Ok () \<longleftrightarrow> distinct ks \<and> set ks \<inter> seen = {}"
  by (induction ks arbitrary: i seen) auto

lemma check_aliasing_safe: "check_aliasing all i seen ks \<noteq> Panic"
  by (induction ks arbitrary: i seen) auto

lemma load_each_Ok:
  "load_each storage cache limit n ks = Ok as \<Longrightarrow>
     map fst as = ks \<and> (\<forall>(k, a) \<in> set as. lookup_account storage cache k = Inr a)"
  by (induction ks arbitrary: n "as")
    (fastforce simp: Let_def split: sum.splits if_splits outcome.splits)+

lemma load_each_safe: "load_each storage cache limit n ks \<noteq> Panic"
  by (induction ks arbitrary: n) (auto simp: Let_def split: sum.split outcome.split)

lemma load_accounts_Ok:
  assumes "load_accounts storage ks limit cache = Ok as"
  shows "map fst as = ks" and "distinct ks" and "\<forall>(k, a) \<in> set as. lookup_account storage cache k = Inr a"
proof -
  from assms have a: "check_aliasing ks 0 {} ks = Ok ()" and l: "load_each storage cache limit 0 ks = Ok as"
    by (auto simp: load_accounts_def split: outcome.splits)
  from load_each_Ok [OF l] show "map fst as = ks" "\<forall>(k, a) \<in> set as. lookup_account storage cache k = Inr a" by auto
  from a show "distinct ks" by (simp add: check_aliasing_Ok)
qed

lemma load_accounts_safe: "load_accounts storage ks limit cache \<noteq> Panic"
  by (auto simp: load_accounts_def check_aliasing_safe load_each_safe split: outcome.split)

section \<open>What execution keeps\<close>

text \<open>
  Native processors keep the frame. The engine writes accounts itself; what is left is the shape: the
  addresses, the snapshot taken before execution, the message, and a meter that only runs down.
\<close>

definition ctx_shape :: "tx_ctx \<Rightarrow> tx_ctx \<Rightarrow> bool" where
  "ctx_shape s t \<longleftrightarrow> map fst (ctx_accounts t) = map fst (ctx_accounts s) \<and> ctx_pre_accounts t = ctx_pre_accounts s \<and>
     ctx_message t = ctx_message s \<and> ctx_slot t = ctx_slot s \<and> cm_limit (ctx_meter t) = cm_limit (ctx_meter s) \<and>
     cm_remaining (ctx_meter t) \<le> cm_remaining (ctx_meter s)"

interpretation shape: run_relation ctx_shape
  by unfold_locales (auto simp: ctx_shape_def)

lemma frame_shape: "frame.keeps m \<Longrightarrow> shape.keeps m"
  by (simp add: frame.keeps_def shape.keeps_def ctx_frame_def ctx_shape_def)

definition engine_keeps_keys :: "env \<Rightarrow> bool" where
  "engine_keeps_keys E \<longleftrightarrow> (\<forall>code pid data accs privs idxs slot cu.
     map fst (fst (snd (wasm_execute E code pid data accs privs idxs slot cu))) = map fst accs)"

named_theorems shape_intros \<open>programs that keep the shape\<close>

lemmas [shape_intros] = shape.keeps_intros shape.keeps_option

lemma shape_steps [shape_intros]:
  "shape.keeps (get_account i)" "shape.keeps (consume_compute n)" "shape.keeps (loader_state_of E a)"
  by (intro frame_shape frame_intros)+

lemma shape_from_outcome [shape_intros]: "shape.keeps (from_outcome v f)"
  by (cases v) (auto simp: from_outcome_def intro: shape_intros)

lemma shape_privileges [shape_intros]: "shape.keeps (collect_privileges is)"
  by (induction "is") (auto intro!: shape_intros)

lemma shape_run_engine:
  assumes "engine_keeps_keys E"
  shows "shape.keeps (run_engine E code pid data privs idxs)"
proof -
  have "ctx_shape s (snd (run_engine E code pid data privs idxs s))" for s
  proof (cases "wasm_execute E code pid data (ctx_accounts s) privs idxs (ctx_slot s) (cm_remaining (ctx_meter s))")
    case (fields r accs cu)
    then have "map fst accs = map fst (ctx_accounts s)" using assms unfolding engine_keeps_keys_def by (metis fst_conv snd_conv)
    with fields show ?thesis
      by (simp add: run_engine_def ctx_shape_def set_compute_remaining_def meter_set_remaining_def)
  qed
  then show ?thesis by (simp add: shape.keeps_def)
qed

lemma shape_dispatch_wasm:
  assumes "engine_keeps_keys E"
  shows "shape.keeps (dispatch_wasm_program E pid accounts data)"
  unfolding dispatch_wasm_program_def Let_def
  by (intro shape_intros shape_run_engine [OF assms]) (auto split: loader_state.split intro: shape_intros)

lemma frame_compute_budget [frame_intros]: "frame.keeps (process_compute_budget accounts data sysvars)"
  unfolding process_compute_budget_def by (intro frame_intros)

text \<open>Whatever the registry finds is one of the six processors.\<close>

lemma registry_cases:
  assumes "registry_defaults E pid = Some p"
  obtains "p = process_system E" | "p = process_stake E" | "p = process_vote E" | "p = process_compute_budget"
    | "p = process_loader E" | "p = process_token E"
  using assms by (auto simp: registry_defaults_def native_processors_def register_def split: if_splits)

lemma frame_registry: "registry_defaults E pid = Some p \<Longrightarrow> frame.keeps (p accounts data sysvars)"
  by (erule registry_cases) (auto intro: frame_intros)

lemma shape_dispatch [shape_intros]:
  assumes "engine_keeps_keys E"
  shows "shape.keeps (dispatch_instruction E pid accounts data sysvars)"
  unfolding dispatch_instruction_def
  by (intro shape_intros shape_dispatch_wasm [OF assms] frame_shape frame_registry) auto

lemma shape_execute_each:
  assumes "engine_keeps_keys E"
  shows "shape.keeps (execute_each E sysvars is)"
  by (induction "is") (auto simp: Let_def intro!: shape_intros shape_dispatch [OF assms])

lemma shape_execute:
  assumes "engine_keeps_keys E"
  shows "shape.keeps (execute_instructions E sysvars)"
  unfolding execute_instructions_def by (intro shape_intros shape_execute_each [OF assms])

text \<open>A transaction that calls native programs only.\<close>

definition native_only :: "env \<Rightarrow> message \<Rightarrow> bool" where
  "native_only E m \<longleftrightarrow> (\<forall>ix \<in> set (instructions m).
     account_keys m ! unat (ci_program_id_index ix) \<in> dom (registry_defaults E))"

section \<open>Outcomes of a transaction\<close>

text \<open>The accounts with the fee taken from the first one.\<close>

definition charge :: "u64 \<Rightarrow> (hash \<times> account) list \<Rightarrow> (hash \<times> account) list" where
  "charge fee as = (case as of [] \<Rightarrow> [] | (k, a) # rest \<Rightarrow> (k, a\<lparr>acc_lamports := acc_lamports a - fee\<rparr>) # rest)"

definition tx_succeeded :: "hash \<Rightarrow> u64 \<Rightarrow> (hash \<times> account) list \<Rightarrow> tx_ctx \<Rightarrow> tx_result" where
  "tx_succeeded h fee loaded ctx = \<lparr>res_hash = h, res_status = Inr (), res_fee = fee, res_compute = compute_consumed ctx,
     res_deltas = collect_account_deltas ctx, res_pre_balances = map (\<lambda>(_, a). acc_lamports a) loaded,
     res_post_balances = post_balances ctx, res_loaded = loaded\<rparr>"

lemma run_in_context_Ok:
  assumes run: "run_in_context E sysvars h fee loaded nsigs ctx = Ok r" and eng: "engine_keeps_keys E"
  obtains (ok) t where "ctx_shape ctx t" "verify_invariants t = Ok ()" "r = tx_succeeded h fee loaded t"
    | (failed) t e where "ctx_shape ctx t" "tx_failed h fee loaded t e = Ok r"
proof -
  obtain r1 s1 where 1: "consume_compute (ucast nsigs * SIGNATURE_VERIFY_COST) ctx = (r1, s1)" by fastforce
  have sh1: "ctx_shape ctx s1" using shape.keepsD [OF shape_steps(2) 1] .
  obtain r2 s2 where 2: "execute_instructions E sysvars s1 = (r2, s2)" by fastforce
  have sh2: "ctx_shape ctx s2" using shape.R_trans [OF sh1 shape.keepsD [OF shape_execute [OF eng] 2]] .
  show thesis
  proof (cases r1)
    case (Err e)
    with run 1 show ?thesis by (intro failed [OF sh1, of e]) (simp add: run_in_context_def)
  next
    case (Ok x)
    show ?thesis
    proof (cases r2)
      case (Err e)
      with run 1 2 Ok show ?thesis by (intro failed [OF sh2, of e]) (simp add: run_in_context_def)
    next
      case Ok2: (Ok y)
      with run 1 2 Ok show ?thesis
        by (cases "verify_invariants s2")
          (auto simp: run_in_context_def tx_succeeded_def intro: ok [OF sh2] failed [OF sh2])
    qed (use run 1 2 Ok in \<open>simp add: run_in_context_def\<close>)
  qed (use run 1 in \<open>simp add: run_in_context_def\<close>)
qed

lemma execute_transaction_Ok:
  assumes run: "execute_transaction E tx storage sysvars lps slot cache skip = Ok r" and eng: "engine_keeps_keys E"
  defines "fee \<equiv> calculate_fee lps (ucast (num_required_signatures (tx_message tx)))"
  obtains (rejected) h e where "r = tx_rejected h e"
    | (poor) loaded where "map fst loaded = account_keys (tx_message tx)" "res_deltas r = []" "res_fee r = 0"
        "res_loaded r = loaded" "res_status r \<noteq> Inr ()" "res_compute r = 0"
    | (stale) loaded where "map fst loaded = account_keys (tx_message tx)" "loaded \<noteq> []"
        "fee \<le> acc_lamports (snd (hd loaded))" "res_deltas r = [hd (charge fee loaded)]" "res_fee r = fee" "res_loaded r = loaded"
        "res_status r = Inl BlockhashNotFound" "res_compute r = 0"
    | (ran) loaded limit h where "map fst loaded = account_keys (tx_message tx)" "distinct (account_keys (tx_message tx))"
        "\<forall>(k, a) \<in> set loaded. lookup_account storage cache k = Inr a" "loaded \<noteq> []"
        "fee \<le> acc_lamports (snd (hd loaded))" "unat limit \<le> 1400000"
        "run_in_context E sysvars h fee loaded (num_required_signatures (tx_message tx))
           (ctx_new (charge fee loaded) (tx_message tx) slot limit) = Ok r"
proof -
  obtain h where h: "(tx_hash E tx :: (unit, hash) outcome) = Ok h"
    using run by (auto simp: execute_transaction_def split: outcome.splits)
  show thesis
  proof (cases "\<exists>e. r = tx_rejected h e")
    case True
    then show ?thesis using rejected by blast
  next
    case False
    with run h obtain budget loaded where b: "parse_compute_budget E (tx_message tx) = Ok budget"
      and l: "load_accounts storage (account_keys (tx_message tx)) (loaded_accounts_data_size_limit budget) cache = Ok loaded"
      and x: "execute_loaded E (tx_message tx) sysvars slot h fee (compute_unit_limit budget) loaded = Ok r"
      unfolding execute_transaction_def fee_def by (auto split: outcome.splits if_splits)
    note ld = load_accounts_Ok [OF l]
    from x obtain k a rest where lk: "loaded = (k, a) # rest"
      by (cases loaded) (auto simp: execute_loaded_def Let_def)
    show ?thesis
    proof (cases "acc_lamports a < fee")
      case True
      with x lk show ?thesis by (intro poor [OF ld(1)]) (auto simp: execute_loaded_def Let_def)
    next
      case f: False
      show ?thesis
      proof (cases "contains_blockhash sysvars (recent_blockhash (tx_message tx)) \<or> slot = 0 \<and> recent_blockhash (tx_message tx) = hash_zero")
        case True
        with x lk f have "run_in_context E sysvars h fee loaded (num_required_signatures (tx_message tx))
           (ctx_new (charge fee loaded) (tx_message tx) slot (compute_unit_limit budget)) = Ok r"
          by (auto simp: execute_loaded_def Let_def charge_def)
        then show ?thesis
          using ran [OF ld] lk f parse_budget_bounds [OF b] by auto
      next
        case False
        with x lk f show ?thesis by (intro stale [OF ld(1)]) (auto simp: execute_loaded_def Let_def charge_def)
      qed
    qed
  qed
qed

section \<open>Conservation of lamports across a commit\<close>

text \<open>
  Committing a result overwrites the changed accounts (\<open>slot_commit.rs\<close>, the last write to an address wins).
\<close>

definition overlay :: "(hash \<times> account) list \<Rightarrow> (hash \<times> account) list \<Rightarrow> hash \<Rightarrow> account" where
  "overlay deltas loaded k = (case map_of (rev deltas) k of Some a \<Rightarrow> a | None \<Rightarrow> the (map_of loaded k))"

definition committed_total :: "tx_result \<Rightarrow> nat" where
  "committed_total r =
     sum_list (map (\<lambda>(k, _). unat (acc_lamports (overlay (res_deltas r) (res_loaded r) k))) (res_loaded r))"

abbreviation changed :: "(hash \<times> account) list \<Rightarrow> (hash \<times> account) list \<Rightarrow> (hash \<times> account) list" where
  "changed as ps \<equiv> map fst (filter (\<lambda>((_, post), (_, pre)). post \<noteq> pre) (zip as ps))"

lemma changed_iff:
  "length as = length ps \<Longrightarrow> (k, a) \<in> set (changed as ps) \<longleftrightarrow> (\<exists>i < length as. as ! i = (k, a) \<and> a \<noteq> snd (ps ! i))"
  by (auto simp: set_zip case_prod_beta image_iff) (metis fst_conv snd_conv prod.collapse)+

lemma distinct_changed: "distinct (map fst as) \<Longrightarrow> distinct (map fst (changed as ps))"
proof (induction "as" arbitrary: ps)
  case (Cons a "as")
  then show ?case
    by (cases ps) (auto simp: case_prod_beta dest!: set_zip_leftD)
qed simp

lemma overlay_nth:
  assumes d: "distinct (map fst as)" and l: "map fst ls = map fst as" "length ps = length as" and i: "i < length as"
  shows "overlay (changed as ps) ls (fst (ls ! i)) = (if snd (as ! i) \<noteq> snd (ps ! i) then snd (as ! i) else snd (ls ! i))"
proof -
  have len: "length ls = length as" using l(1) by (rule map_eq_imp_length_eq)
  have k: "fst (ls ! i) = fst (as ! i)" using l(1) i len by (metis nth_map)
  have dc: "distinct (map fst (rev (changed as ps)))" using distinct_changed [OF d, of ps] by (simp only: rev_map [symmetric] distinct_rev)
  show ?thesis
  proof (cases "snd (as ! i) \<noteq> snd (ps ! i)")
    case True
    then have "(fst (as ! i), snd (as ! i)) \<in> set (rev (changed as ps))"
      unfolding set_rev changed_iff [OF l(2) [symmetric]] using i by (auto intro!: exI [of _ i])
    with dc have "map_of (rev (changed as ps)) (fst (as ! i)) = Some (snd (as ! i))" by (rule map_of_is_SomeI)
    with True k show ?thesis by (simp add: overlay_def)
  next
    case False
    have "fst (as ! i) \<notin> fst ` set (changed as ps)"
    proof
      assume "fst (as ! i) \<in> fst ` set (changed as ps)"
      then obtain a where "(fst (as ! i), a) \<in> set (changed as ps)" by force
      then obtain j where j: "j < length as" "as ! j = (fst (as ! i), a)" "a \<noteq> snd (ps ! j)"
        unfolding changed_iff [OF l(2) [symmetric]] by blast
      with d i have "j = i" by (metis distinct_conv_nth fst_conv length_map nth_map)
      with j False show False by (metis snd_conv)
    qed
    then have "map_of (rev (changed as ps)) (fst (as ! i)) = None" by (simp add: map_of_eq_None_iff)
    moreover have "map_of ls (fst (ls ! i)) = Some (snd (ls ! i))"
      using d i len by (intro map_of_is_SomeI) (simp_all add: l(1))
    ultimately show ?thesis using False k by (simp add: overlay_def)
  qed
qed

lemma overlay_list:
  assumes d: "distinct (map fst ((k, a) # as))" and l: "map fst ls = map fst as"
  shows "map (overlay (changed ((k, a) # as) ((k', c) # ls)) ((k, p) # ls)) (map fst ((k, p) # ls)) =
     (if a \<noteq> c then a else p) # map snd as"
proof (rule nth_equalityI)
  have len: "length ls = length as" using l by (rule map_eq_imp_length_eq)
  then show "length (map (overlay (changed ((k, a) # as) ((k', c) # ls)) ((k, p) # ls)) (map fst ((k, p) # ls))) =
      length ((if a \<noteq> c then a else p) # map snd as)" by simp
  fix i
  assume "i < length (map (overlay (changed ((k, a) # as) ((k', c) # ls)) ((k, p) # ls)) (map fst ((k, p) # ls)))"
  then have i: "i < length ((k, a) # as)" and i': "i < length ((k, p) # ls)" using len by simp_all
  have o: "overlay (changed ((k, a) # as) ((k', c) # ls)) ((k, p) # ls) (fst (((k, p) # ls) ! i)) =
      (if snd (((k, a) # as) ! i) \<noteq> snd (((k', c) # ls) ! i) then snd (((k, a) # as) ! i) else snd (((k, p) # ls) ! i))"
    using overlay_nth [OF d, of "(k, p) # ls" "(k', c) # ls" i] l len i by simp
  show "map (overlay (changed ((k, a) # as) ((k', c) # ls)) ((k, p) # ls)) (map fst ((k, p) # ls)) ! i =
      ((if a \<noteq> c then a else p) # map snd as) ! i"
    using o i i' len by (cases i) (simp_all del: zip_Cons_Cons)
qed

lemma unat_sum_post: "sum_list (map unat (post_balances t)) = lamports_of (ctx_accounts t)"
  by (simp add: post_balances_def lamports_of_def comp_def case_prod_unfold)

lemma lamports_of_charge:
  "loaded \<noteq> [] \<Longrightarrow> fee \<le> acc_lamports (snd (hd loaded)) \<Longrightarrow> lamports_of (charge fee loaded) + unat fee = lamports_of loaded"
  by (cases loaded) (auto simp: charge_def lamports_of_def unat_sub_le word_le_nat_alt)

lemma succeeded_total:
  assumes d: "distinct (map fst loaded)" and ne: "loaded \<noteq> []" and f: "fee \<le> acc_lamports (snd (hd loaded))"
    and sh: "ctx_shape (ctx_new (charge fee loaded) m slot limit) t" and v: "verify_invariants t = Ok ()"
  shows "committed_total (tx_succeeded h fee loaded t) +
     (if fst (hd loaded) \<in> fst ` set (collect_account_deltas t) then unat fee else 0) = lamports_of loaded"
    and "lamports_of (ctx_accounts t) + unat fee = lamports_of loaded"
    and "(k, b) \<in> set (collect_account_deltas t) \<Longrightarrow> \<exists>i < length loaded. fst (loaded ! i) = k \<and> is_writable m i"
proof -
  obtain key p ls where ld: "loaded = (key, p) # ls" using ne by (cases loaded) auto
  let ?c = "p\<lparr>acc_lamports := acc_lamports p - fee\<rparr>"
  have pre: "ctx_pre_accounts t = (key, ?c) # ls" and keys: "map fst (ctx_accounts t) = key # map fst ls" and mm: "ctx_message t = m"
    using sh by (simp_all add: ctx_shape_def ctx_new_def ld charge_def)
  obtain a as where ac: "ctx_accounts t = (key, a) # as" and as: "map fst as = map fst ls"
    using keys by (cases "ctx_accounts t") auto
  have len: "length as = length ls" using as by (rule map_eq_imp_length_eq)
  have vi: "lamports_of (ctx_pre_accounts t) = lamports_of (ctx_accounts t)"
    and ro: "\<And>i. i < length (ctx_accounts t) \<Longrightarrow> \<not> is_writable m i \<Longrightarrow> snd (ctx_accounts t ! i) = snd (ctx_pre_accounts t ! i)"
    using v verify_invariants_Ok [of t] pre ac len mm by auto
  show total: "lamports_of (ctx_accounts t) + unat fee = lamports_of loaded"
    using vi pre lamports_of_charge [OF ne f] by (simp add: ld charge_def)
  have cd: "collect_account_deltas t = changed ((key, a) # as) ((key, ?c) # ls)"
    by (simp only: collect_account_deltas_def pre ac)
  have dis: "distinct (map fst ((key, a) # as))" using d as by (simp add: ld)
  have ol: "map (overlay (collect_account_deltas t) loaded) (map fst loaded) = (if a \<noteq> ?c then a else p) # map snd as"
    unfolding cd ld by (rule overlay_list [OF dis as [symmetric]])
  have "committed_total (tx_succeeded h fee loaded t) =
      sum_list (map (unat \<circ> acc_lamports) (map (overlay (collect_account_deltas t) loaded) (map fst loaded)))"
    by (simp add: committed_total_def tx_succeeded_def comp_def case_prod_unfold)
  also have "\<dots> = unat (acc_lamports (if a \<noteq> ?c then a else p)) + sum_list (map (unat \<circ> acc_lamports) (map snd as))"
    unfolding ol by (simp only: list.map sum_list.Cons comp_apply)
  finally have ct: "committed_total (tx_succeeded h fee loaded t) = \<dots>" .
  have lt: "lamports_of (ctx_accounts t) = unat (acc_lamports a) + sum_list (map (unat \<circ> acc_lamports) (map snd as))"
    by (simp add: ac lamports_of_def comp_def case_prod_unfold)
  have "fst (hd loaded) \<in> fst ` set (collect_account_deltas t) \<longleftrightarrow> a \<noteq> ?c"
  proof -
    have "key \<notin> fst ` set (changed as ls)"
      using dis by (auto dest!: set_zip_leftD)
    then show ?thesis by (auto simp: cd ld)
  qed
  then show "committed_total (tx_succeeded h fee loaded t) +
     (if fst (hd loaded) \<in> fst ` set (collect_account_deltas t) then unat fee else 0) = lamports_of loaded"
    using ct lt total f by (auto simp: ld unat_sub_le word_le_nat_alt)
  show "\<exists>i < length loaded. fst (loaded ! i) = k \<and> is_writable m i" if "(k, b) \<in> set (collect_account_deltas t)"
  proof -
    from that obtain i where i: "i < length (ctx_accounts t)" "ctx_accounts t ! i = (k, b)" "b \<noteq> snd (ctx_pre_accounts t ! i)"
      unfolding cd using changed_iff [of "(key, a) # as" "(key, ?c) # ls" k b] len by (auto simp: ac pre simp del: zip_Cons_Cons)
    have mf: "map fst (ctx_accounts t) = map fst loaded" using keys by (simp add: ld)
    have l: "length (ctx_accounts t) = length loaded" using mf by (rule map_eq_imp_length_eq)
    have "fst (loaded ! i) = k" using arg_cong [OF mf, of "\<lambda>xs. xs ! i"] i(1,2) l by simp
    moreover have "is_writable m i" using ro [OF i(1)] i(2,3) by fastforce
    ultimately show ?thesis using i(1) l by auto
  qed
qed

text \<open>C1: a successful transaction moves lamports only among the accounts it names and changes only those its
  message marks writable. The reported balances drop by exactly the fee. The committed balances drop by
  the fee exactly if the payer is among the changed accounts, and not at all otherwise.\<close>

theorem tx_success_conserves:
  assumes eng: "engine_keeps_keys E" and run: "execute_transaction E tx storage sysvars lps slot cache skip = Ok r"
    and ok: "res_status r = Inr ()"
  shows "map fst (res_loaded r) = account_keys (tx_message tx) \<and>
     (\<forall>(k, a) \<in> set (res_loaded r). lookup_account storage cache k = Inr a) \<and>
     committed_total r + (if hd (account_keys (tx_message tx)) \<in> fst ` set (res_deltas r) then unat (res_fee r) else 0)
       = lamports_of (res_loaded r) \<and>
     sum_list (map unat (res_post_balances r)) + unat (res_fee r) = sum_list (map unat (res_pre_balances r)) \<and>
     (\<forall>(k, a) \<in> set (res_deltas r). \<exists>i < length (account_keys (tx_message tx)).
        account_keys (tx_message tx) ! i = k \<and> is_writable (tx_message tx) i)"
  using run eng
proof (cases rule: execute_transaction_Ok)
  case (ran loaded limit h)
  from ran(7) eng obtain t where
    sh: "ctx_shape (ctx_new (charge (calculate_fee lps (ucast (num_required_signatures (tx_message tx)))) loaded) (tx_message tx) slot limit) t"
    and v: "verify_invariants t = Ok ()"
    and r: "r = tx_succeeded h (calculate_fee lps (ucast (num_required_signatures (tx_message tx)))) loaded t"
    by (cases rule: run_in_context_Ok) (use ok in \<open>auto simp: tx_failed_def split: if_splits\<close>)
  have d: "distinct (map fst loaded)" using ran(1,2) by simp
  note st = succeeded_total [OF d ran(4,5) sh v]
  have hd: "hd (account_keys (tx_message tx)) = fst (hd loaded)" using ran(1,4) by (metis hd_map)
  have pre: "sum_list (map unat (res_pre_balances r)) = lamports_of loaded"
    by (simp add: r tx_succeeded_def lamports_of_def comp_def case_prod_unfold)
  have w: "\<exists>i < length (account_keys (tx_message tx)). account_keys (tx_message tx) ! i = k \<and> is_writable (tx_message tx) i"
    if kd: "(k, a) \<in> set (res_deltas r)" for k a
  proof -
    obtain i where i: "i < length loaded" "fst (loaded ! i) = k" "is_writable (tx_message tx) i"
      using st(3) [of k a] kd by (auto simp: r tx_succeeded_def)
    then show ?thesis using ran(1) by (metis length_map nth_map)
  qed
  have f: "res_loaded r = loaded" "res_deltas r = collect_account_deltas t"
    "res_fee r = calculate_fee lps (ucast (num_required_signatures (tx_message tx)))"
    "sum_list (map unat (res_post_balances r)) = lamports_of (ctx_accounts t)"
    by (simp_all only: r tx_succeeded_def tx_result.simps unat_sum_post)
  have total: "committed_total r + (if hd (account_keys (tx_message tx)) \<in> fst ` set (res_deltas r) then unat (res_fee r) else 0)
       = lamports_of (res_loaded r)"
    using st(1) [of h] unfolding hd f r [symmetric] .
  have balances: "sum_list (map unat (res_post_balances r)) + unat (res_fee r) = sum_list (map unat (res_pre_balances r))"
    using st(2) unfolding f pre .
  from ran(1,3) total balances w show ?thesis unfolding f(1) by blast
qed (use ok in \<open>auto simp: tx_rejected_def\<close>)

text \<open>C4: a failed transaction commits nothing, or the payer's account and nothing else; without a fee it
  commits nothing.\<close>

theorem tx_failure_only_payer:
  assumes eng: "engine_keeps_keys E" and run: "execute_transaction E tx storage sysvars lps slot cache skip = Ok r"
    and ko: "res_status r = Inl e"
  shows "res_deltas r = [] \<and> res_fee r = 0 \<or>
     (\<exists>a. res_deltas r = [(hd (account_keys (tx_message tx)), a)]) \<and>
       res_fee r = calculate_fee lps (ucast (num_required_signatures (tx_message tx)))"
  using run eng
proof (cases rule: execute_transaction_Ok)
  case (stale loaded)
  then show ?thesis by (cases loaded) (auto simp: charge_def dest: arg_cong [of _ _ hd])
next
  case (ran loaded limit h)
  from ran(7) eng obtain t e' where
    sh: "ctx_shape (ctx_new (charge (calculate_fee lps (ucast (num_required_signatures (tx_message tx)))) loaded) (tx_message tx) slot limit) t"
    and f: "tx_failed h (calculate_fee lps (ucast (num_required_signatures (tx_message tx)))) loaded t e' = Ok r"
    by (cases rule: run_in_context_Ok) (use ko in \<open>auto simp: tx_succeeded_def\<close>)
  have "map fst (ctx_accounts t) = account_keys (tx_message tx)"
    using sh ran(1,4) by (cases loaded) (auto simp: ctx_shape_def ctx_new_def charge_def)
  moreover have "ctx_accounts t \<noteq> []" using f by (auto simp: tx_failed_def)
  ultimately have "\<exists>a. ctx_accounts t ! 0 = (hd (account_keys (tx_message tx)), a)" by (cases "ctx_accounts t") (auto dest: arg_cong [of _ _ hd])
  then show ?thesis using f by (auto simp: tx_failed_def split: if_splits)
qed (auto simp: tx_rejected_def)

text \<open>C6: execution never uses more compute units than the parsed limit, which is at most 1400000.\<close>

theorem tx_compute_bounded:
  assumes eng: "engine_keeps_keys E" and run: "execute_transaction E tx storage sysvars lps slot cache skip = Ok r"
  shows "unat (res_compute r) \<le> 1400000"
proof -
  have b: "unat (compute_consumed t) \<le> unat limit" if "ctx_shape (ctx_new as m slot limit) t" for as m limit t
  proof -
    have "cm_limit (ctx_meter t) = limit" "cm_remaining (ctx_meter t) \<le> limit"
      using that by (simp_all add: ctx_shape_def ctx_new_def meter_new_def)
    then show ?thesis
      by (simp add: compute_consumed_def meter_consumed_def unat_sub_le)
  qed
  from run eng show ?thesis
  proof (cases rule: execute_transaction_Ok)
    case (ran loaded limit h)
    from ran(7) eng show ?thesis
    proof (cases rule: run_in_context_Ok)
      case (ok t)
      from b [OF ok(1)] ran(6) show ?thesis by (simp add: ok(3) tx_succeeded_def)
    next
      case (failed t e)
      from b [OF failed(1)] ran(6) failed(2) show ?thesis by (auto simp: tx_failed_def split: if_splits)
    qed
  qed (auto simp: tx_rejected_def)
qed

section \<open>Freedom from panics\<close>

lemma safe_compute_budget [safe_intros]: "safe (process_compute_budget accounts data sysvars)"
  unfolding process_compute_budget_def by (intro safe_intros)

lemma safe_native_dispatch:
  assumes "borsh_codec (loader_state_fmt E)" and "pid \<in> dom (registry_defaults E)"
  shows "safe (dispatch_instruction E pid accounts data sysvars)"
proof -
  obtain p where p: "registry_defaults E pid = Some p" using assms(2) by auto
  then have "safe (p accounts data sysvars)"
    using safe_process_loader [OF assms(1)] by (elim registry_cases) (auto intro: safe_intros)
  with p show ?thesis unfolding dispatch_instruction_def by (auto intro!: safe_intros)
qed

lemma frame_native_dispatch:
  assumes "pid \<in> dom (registry_defaults E)"
  shows "frame.keeps (dispatch_instruction E pid accounts data sysvars)"
proof -
  obtain p where p: "registry_defaults E pid = Some p" using assms by auto
  show ?thesis
    unfolding dispatch_instruction_def p option.case by (intro frame_intros frame_registry [OF p])
qed

lemma native_execute_each:
  assumes c: "borsh_codec (loader_state_fmt E)"
  shows "native_only E (ctx_message s) \<Longrightarrow> \<forall>i \<in> set is. i < length (instructions (ctx_message s)) \<Longrightarrow>
     execute_each E sysvars is s = (r, t) \<Longrightarrow> r \<noteq> Panic \<and> ctx_frame s t"
proof (induction "is" arbitrary: s r t)
  case Nil
  then show ?case by (auto simp: run_simps ctx_frame_refl)
next
  case (Cons i "is")
  let ?m = "ctx_message s" and ?ix = "instructions (ctx_message s) ! i"
  show ?case
  proof (cases "unat (ci_program_id_index ?ix) < length (account_keys ?m)")
    case False
    with Cons.prems show ?thesis by (auto simp: run_simps Let_def ctx_frame_refl)
  next
    case True
    let ?d = "dispatch_instruction E (account_keys ?m ! unat (ci_program_id_index ?ix)) (ci_accounts ?ix) (ci_data ?ix) sysvars"
    have nat: "account_keys ?m ! unat (ci_program_id_index ?ix) \<in> dom (registry_defaults E)"
      using Cons.prems(1,2) by (simp add: native_only_def)
    obtain r1 u where u: "?d s = (r1, u)" by fastforce
    have fr: "ctx_frame s u" using frame.keepsD [OF frame_native_dispatch [OF nat] u] .
    have np: "r1 \<noteq> Panic" using safe_native_dispatch [OF c nat] u unfolding safe_def by (metis fst_conv)
    have step: "execute_each E sysvars (i # is) s = bind_r ?d (\<lambda>_. execute_each E sysvars is) s"
      using True Cons.prems(2) by (simp add: bind_r_def run_gets run_index run_ok_or Let_def)
    have bt: "bind_r ?d (\<lambda>_. execute_each E sysvars is) s = (r, t)" using step Cons.prems(3) by (rule trans [OF sym])
    have m: "ctx_message u = ?m" using fr by (simp add: ctx_frame_def)
    show ?thesis
    proof (cases r1)
      case (Ok x)
      then have "execute_each E sysvars is u = (r, t)" using bt u by (simp add: run_bind_Ok)
      from Cons.IH [OF _ _ this] Cons.prems(1,2) m have "r \<noteq> Panic \<and> ctx_frame u t" by simp
      then show ?thesis using ctx_frame_trans [OF fr] by blast
    next
      case (Err e)
      then show ?thesis using bt u fr by (auto simp: run_bind_Err)
    qed (use np in simp)
  qed
qed

lemma check_readonly_safe: "\<forall>i \<in> set is. i < length (ctx_pre_accounts s) \<Longrightarrow> check_readonly s is \<noteq> Panic"
  by (induction "is") auto

lemma check_executable_safe: "\<forall>i \<in> set is. i < length (ctx_pre_accounts s) \<Longrightarrow> check_executable s is \<noteq> Panic"
  by (induction "is") auto

lemma verify_invariants_safe: "length (ctx_accounts s) \<le> length (ctx_pre_accounts s) \<Longrightarrow> verify_invariants s \<noteq> Panic"
  by (auto simp: verify_invariants_def check_readonly_safe check_executable_safe split: outcome.split)

lemma bind_signers_safe:
  "\<forall>i \<in> set is. i < length (account_keys (tx_message tx)) \<and> i < length (signer_pubkeys tx) \<Longrightarrow> bind_signers E tx is \<noteq> Panic"
  by (induction "is") auto

lemma verify_each_safe: "verify_each E m i sps \<noteq> Panic"
  by (induction E m i sps rule: verify_each.induct) auto

lemma verify_signatures_safe:
  assumes "to_vec (message_fmt E) (tx_message tx) = Inr b"
  shows "verify_signatures E tx \<noteq> Panic"
  using assms bind_signers_safe [of "[0..<unat (num_required_signatures (tx_message tx))]" tx E]
  by (auto simp: verify_signatures_def tx_verify_def message_data_def Let_def verify_each_safe split: outcome.split)

lemma run_in_context_safe:
  assumes c: "borsh_codec (loader_state_fmt E)" and n: "native_only E m" and ne: "as \<noteq> []"
  shows "run_in_context E sysvars h fee loaded nsigs (ctx_new as m slot limit) \<noteq> Panic"
proof -
  let ?s = "ctx_new as m slot limit"
  obtain r1 s1 where 1: "consume_compute (ucast nsigs * SIGNATURE_VERIFY_COST) ?s = (r1, s1)" by fastforce
  have f1: "ctx_frame ?s s1" using frame.keepsD [OF frame_consume_compute 1] .
  have n1: "r1 \<noteq> Panic" using safe_consume 1 unfolding safe_def by (metis fst_conv)
  obtain r2 s2 where 2: "execute_instructions E sysvars s1 = (r2, s2)" by fastforce
  have m1: "ctx_message s1 = m" using f1 by (simp add: ctx_frame_def ctx_new_def)
  have "execute_each E sysvars [0..<length (instructions (ctx_message s1))] s1 = (r2, s2)"
    using 2 by (simp add: execute_instructions_def run_simps)
  from native_execute_each [OF c _ _ this] n m1 have n2: "r2 \<noteq> Panic" and f2: "ctx_frame s1 s2" by auto
  have f: "ctx_frame ?s s2" using ctx_frame_trans [OF f1 f2] .
  have l: "length (ctx_accounts s1) = length as" "length (ctx_accounts s2) = length as" "length (ctx_pre_accounts s2) = length as"
    using ctx_frame_length [OF f1] ctx_frame_length [OF f] f by (simp_all add: ctx_new_def ctx_frame_def)
  then have "ctx_accounts s1 \<noteq> []" "ctx_accounts s2 \<noteq> []" "verify_invariants s2 \<noteq> Panic"
    using ne verify_invariants_safe [of s2] by auto
  with n1 n2 1 2 show ?thesis
    by (auto simp: run_in_context_def tx_failed_def split: outcome.split)
qed

text \<open>C5: no transaction that calls native programs only and names at least one account can panic the
  executor, whatever bytes its instructions carry and whatever the accounts hold.\<close>

theorem tx_no_panic:
  assumes c: "borsh_codec (loader_state_fmt E)" and ser: "to_vec (message_fmt E) (tx_message tx) = Inr b"
    and n: "native_only E (tx_message tx)" and ne: "account_keys (tx_message tx) \<noteq> []"
  shows "execute_transaction E tx storage sysvars lps slot cache skip \<noteq> Panic"
proof -
  have x: "execute_loaded E (tx_message tx) sysvars slot h fee limit loaded \<noteq> Panic"
    if "load_accounts storage (account_keys (tx_message tx)) l cache = Ok loaded" for h fee limit loaded l
  proof -
    have "loaded \<noteq> []" using load_accounts_Ok(1) [OF that] ne by auto
    then obtain k a rest where l: "loaded = (k, a) # rest" by (cases loaded) auto
    show ?thesis
      using run_in_context_safe [OF c n, of "(k, a\<lparr>acc_lamports := acc_lamports a - fee\<rparr>) # rest"]
      by (simp add: execute_loaded_def Let_def l)
  qed
  show ?thesis
    using ser x sanitize_instructions_safe verify_signatures_safe [OF ser] parse_no_panic load_accounts_safe
    by (auto simp: execute_transaction_def tx_hash_def message_data_def sanitize_message_def split: outcome.split)
qed

text \<open>C38: a transaction without account keys and instructions, however, gets past every check when no signature is
  required, and then panics the executor at the deduction of the fee.\<close>

theorem empty_keys_panic:
  assumes ser: "to_vec (message_fmt E) (tx_message tx) = Inr b" and k: "account_keys (tx_message tx) = []"
    and "instructions (tx_message tx) = []" "num_required_signatures (tx_message tx) = 0" "signatures tx = []" "signer_pubkeys tx = []"
  shows "execute_transaction E tx storage sysvars lps slot cache skip = Panic"
proof -
  have v: "verify_signatures E tx = Ok ()" using assms by (simp add: verify_signatures_Ok)
  have p: "\<exists>c. parse_compute_budget E (tx_message tx) = Ok c" using assms(3) by (simp add: parse_compute_budget_def run_simps)
  show ?thesis
    using assms v p
    by (auto simp: execute_transaction_def tx_hash_def message_data_def sanitize_message_def load_accounts_def
        execute_loaded_def split: outcome.split)
qed

section \<open>Two ways to change the supply\<close>

lemma execute_transaction_loaded:
  assumes "to_vec (message_fmt E) (tx_message tx) = Inr b" and "sanitize_message (tx_message tx) = Ok ()"
    and "parse_compute_budget E (tx_message tx) = Ok budget"
    and "load_accounts storage (account_keys (tx_message tx)) (loaded_accounts_data_size_limit budget) cache = Ok loaded"
  shows "execute_transaction E tx storage sysvars lps slot cache True =
     execute_loaded E (tx_message tx) sysvars slot (sha3_512 E b)
       (calculate_fee lps (ucast (num_required_signatures (tx_message tx)))) (compute_unit_limit budget) loaded"
  using assms by (simp add: execute_transaction_def tx_hash_def message_data_def)

lemma parse_no_instructions: "instructions m = [] \<Longrightarrow> parse_compute_budget E m = Ok compute_budget_default"
  by (simp add: parse_compute_budget_def run_simps scan_result_def compute_budget_default_def)

lemma changed_self: "changed as as = []"
  by (auto simp: filter_empty_conv zip_same)

text \<open>The fee is taken before the snapshot with which the changed accounts are found. With signatures checked
  elsewhere, a transaction without instructions therefore reports its fee but commits no change, and the payer keeps
  the lamports.\<close>

lemma no_instructions_run:
  assumes ser: "to_vec (message_fmt E) (tx_message tx) = Inr b" and ix: "instructions (tx_message tx) = []"
    and ld: "load_accounts storage (account_keys (tx_message tx)) 65536 cache = Ok loaded" "loaded \<noteq> []"
    and fee: "calculate_fee lps (ucast (num_required_signatures (tx_message tx))) \<le> acc_lamports (snd (hd loaded))"
    and bh: "contains_blockhash sysvars (recent_blockhash (tx_message tx))" and sg: "num_required_signatures (tx_message tx) \<le> 100"
  shows "\<exists>r. execute_transaction E tx storage sysvars lps slot cache True = Ok r \<and> res_status r = Inr () \<and>
     res_fee r = calculate_fee lps (ucast (num_required_signatures (tx_message tx))) \<and> res_deltas r = []"
proof -
  let ?fee = "calculate_fee lps (ucast (num_required_signatures (tx_message tx)))" and ?n = "num_required_signatures (tx_message tx)"
  let ?s = "ctx_new (charge ?fee loaded) (tx_message tx) slot DEFAULT_COMPUTE_UNIT_LIMIT"
  obtain k a rest where l: "loaded = (k, a) # rest" using ld(2) by (cases loaded) auto
  have cost: "ucast ?n * SIGNATURE_VERIFY_COST \<le> DEFAULT_COMPUTE_UNIT_LIMIT"
  proof -
    have "unat (ucast ?n :: u64) \<le> 100" using sg by (simp add: word_le_nat_alt)
    then have "unat (ucast ?n * SIGNATURE_VERIFY_COST) \<le> 100 * 2000"
      by (simp add: SIGNATURE_VERIFY_COST_def unat_word_ariths)
    then show ?thesis by (simp add: word_le_nat_alt DEFAULT_COMPUTE_UNIT_LIMIT_def)
  qed
  obtain t where t: "consume_compute (ucast ?n * SIGNATURE_VERIFY_COST) ?s = (Ok (), t)"
    using cost by (auto simp: consume_compute_Ok_iff ctx_new_def meter_new_def)
  have ac: "ctx_accounts t = charge ?fee loaded" "ctx_pre_accounts t = charge ?fee loaded" "ctx_message t = tx_message tx"
    and fr: "ctx_frame ?s t"
    using t frame.keepsD [OF frame_consume_compute t] by (auto simp: consume_compute_Ok_iff ctx_new_def)
  have x: "execute_instructions E sysvars t = (Ok (), t)" using ac(3) ix by (simp add: execute_instructions_def run_simps)
  have v: "verify_invariants t = Ok ()" using verify_after_frame [OF fr] ac(1) by simp
  have "run_in_context E sysvars h ?fee loaded ?n ?s = Ok (tx_succeeded h ?fee loaded t)" for h
    using t x v by (simp add: run_in_context_def tx_succeeded_def)
  moreover have "res_deltas (tx_succeeded h ?fee loaded t) = []" for h
    by (simp add: tx_succeeded_def collect_account_deltas_def ac changed_self del: map_is_Nil_conv)
  moreover have "execute_transaction E tx storage sysvars lps slot cache True =
      execute_loaded E (tx_message tx) sysvars slot (sha3_512 E b) ?fee DEFAULT_COMPUTE_UNIT_LIMIT loaded"
    using execute_transaction_loaded [OF ser _ parse_no_instructions [OF ix]] ld ix
    by (simp add: sanitize_message_def compute_budget_default_def DEFAULT_LOADED_ACCOUNTS_DATA_SIZE_LIMIT_def)
  ultimately show ?thesis
    using fee bh by (auto simp: execute_loaded_def Let_def l charge_def tx_succeeded_def)
qed

definition system_bytes :: "system_instruction \<Rightarrow> bytes" where
  "system_bytes ix = (case to_vec system_instruction_codec ix of Inr b \<Rightarrow> b | Inl _ \<Rightarrow> [])"

definition sample_ix :: "bytes \<Rightarrow> bytes \<Rightarrow> compiled_instruction" where
  "sample_ix accs d = \<lparr>ci_program_id_index = 2, ci_accounts = accs, ci_data = d\<rparr>"

definition run_tx :: "compiled_instruction list \<Rightarrow> transaction" where
  "run_tx ixs = transaction_new \<lparr>num_required_signatures = 2, num_readonly_signed = 0, num_readonly_unsigned = 1,
     account_keys = [1, 2, SYSTEM_PROGRAM_ID sample_env], recent_blockhash = 99, instructions = ixs\<rparr>"

definition run_storage :: storage where
  "run_storage k = Inr (if k = 1 then Some (account_new 100000 0) else if k = 2 then Some (account_new 500 0) else None)"

text \<open>The second account pays the first one; the next instruction cannot be decoded.\<close>

definition creating_tx :: transaction where
  "creating_tx = run_tx [sample_ix [1, 0] (system_bytes (SysTransfer 500)), sample_ix [] [255]]"

lemma system_bytes_transfer: "to_vec system_instruction_codec (SysTransfer n) = Inr (system_bytes (SysTransfer n))"
  "length (system_bytes (SysTransfer n)) = 9"
  by (simp_all add: system_bytes_def codec_simps)

lemma parse_transfer: "try_from_slice system_instruction_codec (system_bytes (SysTransfer n)) = Inr (SysTransfer n)"
  by (rule system_instruction_format.try_from_slice_to_vec) (rule system_bytes_transfer)

lemma sample_ids: "SYSTEM_PROGRAM_ID sample_env \<noteq> COMPUTE_BUDGET_PROGRAM_ID sample_env"
  "SYSTEM_PROGRAM_ID sample_env \<noteq> SYSVAR_PROGRAM_ID sample_env" "SYSTEM_PROGRAM_ID sample_env \<noteq> RENT_PROGRAM_ID sample_env"
  "SYSTEM_PROGRAM_ID sample_env \<noteq> TOKEN_PROGRAM_ID sample_env" "SYSTEM_PROGRAM_ID sample_env \<noteq> LOADER_PROGRAM_ID sample_env"
  "SYSTEM_PROGRAM_ID sample_env \<noteq> VOTE_PROGRAM_ID sample_env" "SYSTEM_PROGRAM_ID sample_env \<noteq> STAKE_PROGRAM_ID sample_env"
  "SYSTEM_PROGRAM_ID sample_env \<noteq> 1" "SYSTEM_PROGRAM_ID sample_env \<noteq> 2"
  by (simp_all add: SYSTEM_PROGRAM_ID_def COMPUTE_BUDGET_PROGRAM_ID_def SYSVAR_PROGRAM_ID_def RENT_PROGRAM_ID_def
      TOKEN_PROGRAM_ID_def LOADER_PROGRAM_ID_def VOTE_PROGRAM_ID_def STAKE_PROGRAM_ID_def sample_env_def sample_hash_def str_bytes_def)

lemma sample_registry: "registry_defaults sample_env (SYSTEM_PROGRAM_ID sample_env) = Some (process_system sample_env)"
  using sample_ids by (simp add: registry_defaults_def native_processors_def register_def)

text \<open>The documented format of a message with lengths below \<open>2 ^ 32\<close> never fails to serialize.\<close>

lemma prod_ser: "\<exists>b. to_vec c x = Inr b \<Longrightarrow> \<exists>b. to_vec d y = Inr b \<Longrightarrow> \<exists>b. to_vec (prod_codec c d) (x, y) = Inr b"
  by (auto simp: prod_codec_def)

lemma word_ser: "\<exists>b. to_vec u8_codec x = Inr b" "\<exists>b. to_vec hash_codec y = Inr b"
  by (simp_all add: u8_codec_def le_codec_def hash_codec_def)

lemma vec_ser:
  assumes "length xs < 2 ^ 32" and "\<forall>x \<in> set xs. \<exists>b. to_vec c x = Inr b"
  shows "\<exists>b. to_vec (vec_codec c) xs = Inr b"
proof -
  have "\<exists>b. enc_all c xs = Inr b" using assms(2) by (induction xs) auto
  with assms(1) show ?thesis by (auto simp: vec_codec_def)
qed

lemma instruction_ser:
  assumes "length (ci_accounts ix) < 2 ^ 32" and "length (ci_data ix) < 2 ^ 32"
  shows "\<exists>b. to_vec compiled_instruction_codec ix = Inr b"
  unfolding compiled_instruction_codec_def iso_codec_def codec.simps
  by (intro prod_ser word_ser vec_ser) (use assms in \<open>auto intro: word_ser\<close>)

lemma message_ser:
  assumes "length (account_keys m) < 2 ^ 32" and "length (instructions m) < 2 ^ 32"
    and "\<forall>ix \<in> set (instructions m). length (ci_accounts ix) < 2 ^ 32 \<and> length (ci_data ix) < 2 ^ 32"
  shows "\<exists>b. to_vec message_codec m = Inr b"
  unfolding message_codec_def iso_codec_def codec.simps
  by (intro prod_ser word_ser vec_ser) (use assms in \<open>auto intro: word_ser instruction_ser\<close>)

lemma creating_tx_ser: "\<exists>b. to_vec (message_fmt sample_env) (tx_message creating_tx) = Inr b"
  using message_ser [of "tx_message creating_tx"]
  by (simp add: creating_tx_def run_tx_def transaction_new_def sample_ix_def system_bytes_transfer)
    (simp add: sample_env_def)

lemma run_tx_load: "load_accounts run_storage (account_keys (tx_message (run_tx ixs))) 65536 None =
    Ok [(1, account_new 100000 0), (2, account_new 500 0), (SYSTEM_PROGRAM_ID sample_env, account_new 0 hash_zero)]"
  using sample_ids
  by (simp add: run_tx_def transaction_new_def load_accounts_def lookup_account_def run_storage_def account_new_def)

lemma creating_tx_budget: "parse_compute_budget sample_env (tx_message creating_tx) = Ok compute_budget_default"
  using sample_ids
  by (simp add: parse_compute_budget_def creating_tx_def run_tx_def transaction_new_def sample_ix_def run_simps
      scan_result_def compute_budget_default_def)

text \<open>The failed transaction commits the payer as it was at the moment of the failure, with the lamports of the
  first instruction, and not the account that paid them: 500 lamports are created.\<close>

lemma creating_tx_run:
  "\<exists>r. execute_transaction sample_env creating_tx run_storage sample_sysvars 5000 7 None True = Ok r \<and>
     res_status r \<noteq> Inr () \<and> committed_total r + unat (res_fee r) = lamports_of (res_loaded r) + 500"
proof -
  obtain b where b: "to_vec (message_fmt sample_env) (tx_message creating_tx) = Inr b" using creating_tx_ser by blast
  have s: "sanitize_message (tx_message creating_tx) = Ok ()"
    by (simp add: sanitize_message_def creating_tx_def run_tx_def transaction_new_def sample_ix_def)
  have l: "load_accounts run_storage (account_keys (tx_message creating_tx)) (loaded_accounts_data_size_limit compute_budget_default) None =
    Ok [(1, account_new 100000 0), (2, account_new 500 0), (SYSTEM_PROGRAM_ID sample_env, account_new 0 hash_zero)]"
    unfolding creating_tx_def
    by (simp add: run_tx_load compute_budget_default_def DEFAULT_LOADED_ACCOUNTS_DATA_SIZE_LIMIT_def)
  have bad: "\<exists>e. try_from_slice system_instruction_codec [255] = Inl e" by (simp add: codec_simps)
  have fmt: "system_ix_fmt sample_env = system_instruction_codec" by (simp add: sample_env_def)
  show ?thesis
    unfolding execute_transaction_loaded [OF b s creating_tx_budget l]
    using sample_ids sample_registry bad
    by (auto simp: execute_loaded_def run_in_context_def creating_tx_def run_tx_def transaction_new_def sample_ix_def
        execute_instructions_def dispatch_instruction_def process_system_def process_transfer_def fmt parse_transfer
        run_simps account_new_def calculate_fee_def saturating_mul_def contains_blockhash_def SIGNATURE_VERIFY_COST_def
        INSTRUCTION_BASE_COST_def INSTRUCTION_DATA_BYTE_COST_def SYSTEM_TRANSFER_COST_def system_bytes_transfer
        compute_budget_default_def DEFAULT_COMPUTE_UNIT_LIMIT_def tx_failed_def committed_total_def overlay_def lamports_of_def)
qed

section \<open>Witnesses\<close>

lemma sample_engine: "engine_keeps_keys sample_env"
  by (simp add: engine_keeps_keys_def sample_env_def)

lemma run_tx_ser: "\<exists>b. to_vec (message_fmt sample_env) (tx_message (run_tx [])) = Inr b"
  using message_ser [of "tx_message (run_tx [])"] by (simp add: run_tx_def transaction_new_def) (simp add: sample_env_def)

lemma idle_tx_run:
  "\<exists>r. execute_transaction sample_env (run_tx []) run_storage sample_sysvars 5000 7 None True = Ok r \<and> res_status r = Inr () \<and>
     res_fee r = 10000 \<and> res_deltas r = []"
proof -
  obtain b where b: "to_vec (message_fmt sample_env) (tx_message (run_tx [])) = Inr b" using run_tx_ser by blast
  show ?thesis
    using no_instructions_run [OF b _ run_tx_load, of 5000 sample_sysvars 7]
    by (simp add: run_tx_def transaction_new_def account_new_def calculate_fee_def saturating_mul_def contains_blockhash_def
        sample_sysvars_def)
qed

theorem tx_success_conserves_witness:
  "\<exists>r. execute_transaction sample_env (run_tx []) run_storage sample_sysvars 5000 7 None True = Ok r \<and> res_status r = Inr () \<and>
     sum_list (map unat (res_post_balances r)) + 10000 = sum_list (map unat (res_pre_balances r))"
proof -
  obtain r where r: "execute_transaction sample_env (run_tx []) run_storage sample_sysvars 5000 7 None True = Ok r"
    "res_status r = Inr ()" "res_fee r = 10000" using idle_tx_run by blast
  from tx_success_conserves [OF sample_engine r(1,2)] r show ?thesis by auto
qed

theorem tx_failure_only_payer_witness:
  "\<exists>r. execute_transaction sample_env creating_tx run_storage sample_sysvars 5000 7 None True = Ok r \<and>
     (res_deltas r = [] \<or> (\<exists>a. res_deltas r = [(1, a)]))"
proof -
  obtain r where r: "execute_transaction sample_env creating_tx run_storage sample_sysvars 5000 7 None True = Ok r"
    "res_status r \<noteq> Inr ()" using creating_tx_run by blast
  obtain e where e: "res_status r = Inl e" using r(2) by (cases "res_status r") auto
  from tx_failure_only_payer [OF sample_engine r(1) e] r(1) show ?thesis
    by (auto simp: creating_tx_def run_tx_def transaction_new_def)
qed

theorem tx_compute_bounded_witness:
  "\<exists>r. execute_transaction sample_env creating_tx run_storage sample_sysvars 5000 7 None True = Ok r \<and>
     unat (res_compute r) \<le> 1400000"
  using creating_tx_run tx_compute_bounded [OF sample_engine] by blast

theorem tx_no_panic_witness:
  "execute_transaction sample_env creating_tx run_storage sample_sysvars 5000 7 None False \<noteq> Panic"
proof -
  obtain b where b: "to_vec (message_fmt sample_env) (tx_message creating_tx) = Inr b" using creating_tx_ser by blast
  have c: "borsh_codec (loader_state_fmt sample_env)" by (simp add: sample_env_def loader_state_format.borsh_codec_axioms)
  have "native_only sample_env (tx_message creating_tx)" "account_keys (tx_message creating_tx) \<noteq> []"
    by (auto simp: native_only_def creating_tx_def run_tx_def transaction_new_def sample_ix_def sample_registry)
  then show ?thesis by (rule tx_no_panic [OF c b])
qed

definition empty_tx :: transaction where
  "empty_tx = transaction_new \<lparr>num_required_signatures = 0, num_readonly_signed = 0, num_readonly_unsigned = 0,
     account_keys = [], recent_blockhash = 99, instructions = []\<rparr>"

theorem empty_keys_panic_witness:
  "execute_transaction sample_env empty_tx run_storage sample_sysvars 5000 7 None False = Panic"
proof -
  have "\<exists>b. to_vec (message_fmt sample_env) (tx_message empty_tx) = Inr b"
    using message_ser [of "tx_message empty_tx"] by (simp add: empty_tx_def transaction_new_def) (simp add: sample_env_def)
  then obtain b where "to_vec (message_fmt sample_env) (tx_message empty_tx) = Inr b" by blast
  then show ?thesis by (rule empty_keys_panic) (simp_all add: empty_tx_def transaction_new_def)
qed

end
