(* ===== verification/Database.thy ===== *)
theory Database
  imports Env "HOL-Library.List_Lexorder" "HOL-Library.Finite_Map"
begin

text \<open>
  The storage layer below the account and ledger tables: write batches (\<open>storage/src/write_batch.rs\<close>),
  keys (\<open>storage/src/keys.rs\<close>), column families (\<open>storage/src/cf.rs\<close>) and the raw reads and writes of
  \<open>storage/src/storage.rs\<close>.

  The database itself is the \<open>rocksdb\<close> crate, which is not part of the repository: a record of the calls the
  code makes, whose documented behaviour is the locale \<open>kv_store\<close>. A column family is a finite map from byte
  strings to byte strings, iterated in the lexicographic order of the keys; a batch is applied atomically and
  in order. I/O errors of the disk are left out.
\<close>

section \<open>Integers and hashes in keys\<close>

text \<open>\<open>to_be_bytes\<close> and \<open>from_be_bytes\<close>; a hash is its 64 bytes.\<close>

definition be_bytes :: "nat \<Rightarrow> 'a::len word \<Rightarrow> bytes" where
  "be_bytes n w = rev (le_enc n (unat w))"

definition of_be :: "bytes \<Rightarrow> 'a::len word" where
  "of_be bs = of_nat (le_dec (rev bs))"

abbreviation hash_bytes :: "hash \<Rightarrow> bytes" where
  "hash_bytes h \<equiv> be_bytes 64 h"

lemma length_be_bytes [simp]: "length (be_bytes n w) = n"
  by (simp add: be_bytes_def)

lemma of_be_bytes:
  fixes w :: "'a::len word"
  assumes "8 * n = LENGTH('a)"
  shows "of_be (be_bytes n w) = w"
proof -
  have "(256::nat) ^ n = 2 ^ LENGTH('a)" by (simp flip: assms add: power_mult)
  then have "le_dec (le_enc n (unat w)) = unat w" by (intro le_dec_enc) simp
  then show ?thesis by (simp add: of_be_def be_bytes_def)
qed

lemma be_bytes_of_be:
  assumes "8 * n = LENGTH('a::len)" and "length bs = n"
  shows "be_bytes n (of_be bs :: 'a word) = bs"
proof -
  have "(256::nat) ^ n = 2 ^ LENGTH('a)" by (simp flip: assms(1) add: power_mult)
  then have "unat (of_be bs :: 'a word) = le_dec (rev bs)"
    using le_dec_less [of "rev bs"] assms(2) by (simp add: of_be_def unat_of_nat_small)
  then show ?thesis using le_enc_dec [of "rev bs"] assms(2) by (simp add: be_bytes_def)
qed

lemmas of_be_u64 [simp] = of_be_bytes [where 'a = 64 and n = 8, simplified]
lemmas of_be_u32 [simp] = of_be_bytes [where 'a = 32 and n = 4, simplified]
lemmas of_be_hash [simp] = of_be_bytes [where 'a = 512 and n = 64, simplified]

lemma hash_bytes_inj [simp]: "hash_bytes a = hash_bytes b \<longleftrightarrow> a = b"
  by (metis of_be_hash)

lemma slot_bytes_inj [simp]: "be_bytes 8 (a :: u64) = be_bytes 8 b \<longleftrightarrow> a = b"
  by (metis of_be_u64)

lemma u32_bytes_inj [simp]: "be_bytes 4 (a :: u32) = be_bytes 4 b \<longleftrightarrow> a = b"
  by (metis of_be_u32)

text \<open>The order of big-endian keys is the order of the numbers.\<close>

lemma le_dec_append: "le_dec (xs @ ys) = le_dec xs + 256 ^ length xs * le_dec ys"
  by (induction xs) (auto simp: algebra_simps)

lemma be_less_aux: "length xs = length ys \<Longrightarrow> xs < ys \<longleftrightarrow> le_dec (rev xs) < le_dec (rev ys)"
proof (induction xs ys rule: list_induct2)
  case (Cons x xs y ys)
  let ?m = "256 ^ length ys :: nat"
  have b: "le_dec (rev xs) < ?m" "le_dec (rev ys) < ?m"
    using le_dec_less [of "rev xs"] le_dec_less [of "rev ys"] Cons.hyps by simp_all
  have less: "le_dec (rev xs) + ?m * unat x < le_dec (rev ys) + ?m * unat y" if "unat x < unat y"
  proof -
    have "?m * (unat x + 1) \<le> ?m * unat y" using that by (intro mult_le_mono2) simp
    with b show ?thesis by simp
  qed
  have more: "le_dec (rev ys) + ?m * unat y < le_dec (rev xs) + ?m * unat x" if "unat y < unat x"
  proof -
    have "?m * (unat y + 1) \<le> ?m * unat x" using that by (intro mult_le_mono2) simp
    with b show ?thesis by simp
  qed
  show ?case
    using Cons less more
    by (cases "unat x" "unat y" rule: linorder_cases)
      (auto simp: le_dec_append word_less_nat_alt unsigned_word_eqI not_less_iff_gr_or_eq)
qed simp

lemma be_less:
  fixes v w :: "'a::len word"
  assumes "8 * n = LENGTH('a)"
  shows "be_bytes n v < be_bytes n w \<longleftrightarrow> v < w"
proof -
  have "(256::nat) ^ n = 2 ^ LENGTH('a)" by (simp flip: assms add: power_mult)
  then have "le_dec (le_enc n (unat u)) = unat u" for u :: "'a word" by (intro le_dec_enc) simp
  then show ?thesis by (simp add: be_less_aux be_bytes_def word_less_nat_alt)
qed

lemmas slot_bytes_less [simp] = be_less [where 'a = 64 and n = 8, simplified]
lemmas hash_bytes_less [simp] = be_less [where 'a = 512 and n = 64, simplified]
lemmas u32_bytes_less [simp] = be_less [where 'a = 32 and n = 4, simplified]

lemma slot_bytes_le [simp]: "be_bytes 8 (a :: u64) \<le> be_bytes 8 b \<longleftrightarrow> a \<le> b"
  by (simp add: le_less)

lemma append_less_same [simp]: "p @ xs < p @ ys \<longleftrightarrow> xs < (ys :: 'a::linorder list)"
  by (induction p) auto

lemma append_le_same [simp]: "p @ xs \<le> p @ ys \<longleftrightarrow> xs \<le> (ys :: 'a::linorder list)"
  by (induction p) auto

lemma append_less_prefix: "length p = length q \<Longrightarrow> p @ xs < q @ ys \<longleftrightarrow> p < q \<or> p = q \<and> xs < (ys :: 'a::linorder list)"
  by (induction p q rule: list_induct2) auto

section \<open>Keys, column families and batches\<close>

definition slot_key :: "u64 \<Rightarrow> bytes" where
  "slot_key slot = be_bytes 8 slot"

definition FULL_BLOCK_PREFIX :: bytes where
  "FULL_BLOCK_PREFIX = str_bytes ''block_''"

definition full_block_key :: "u64 \<Rightarrow> bytes" where
  "full_block_key slot = FULL_BLOCK_PREFIX @ slot_key slot"

definition account_key :: "hash \<Rightarrow> u64 \<Rightarrow> bytes" where
  "account_key address slot = hash_bytes address @ be_bytes 8 slot"

definition address_sig_key :: "hash \<Rightarrow> u64 \<Rightarrow> u32 \<Rightarrow> bytes" where
  "address_sig_key address slot tx_index = hash_bytes address @ be_bytes 8 slot @ be_bytes 4 tx_index"

definition shred_key :: "u64 \<Rightarrow> u32 \<Rightarrow> bytes" where
  "shred_key slot i = be_bytes 8 slot @ be_bytes 4 i"

definition slash_proof_key :: "hash \<Rightarrow> u64 \<Rightarrow> bytes" where
  "slash_proof_key validator slot = hash_bytes validator @ slot_key slot"

definition owner_index_key :: "hash \<Rightarrow> hash \<Rightarrow> bytes" where
  "owner_index_key prefix address = hash_bytes prefix @ hash_bytes address"

definition CF_DEFAULT :: string where "CF_DEFAULT = ''default''"
definition CF_ACCOUNTS :: string where "CF_ACCOUNTS = ''accounts''"
definition CF_ACCOUNT_INDEX :: string where "CF_ACCOUNT_INDEX = ''account_index''"
definition CF_BLOCKS :: string where "CF_BLOCKS = ''blocks''"
definition CF_TRANSACTIONS :: string where "CF_TRANSACTIONS = ''transactions''"
definition CF_ADDRESS_SIGNATURES :: string where "CF_ADDRESS_SIGNATURES = ''address_signatures''"
definition CF_SLOT_META :: string where "CF_SLOT_META = ''slot_meta''"
definition CF_DATA_SHREDS :: string where "CF_DATA_SHREDS = ''data_shreds''"
definition CF_CODE_SHREDS :: string where "CF_CODE_SHREDS = ''code_shreds''"
definition CF_BANK_HASHES :: string where "CF_BANK_HASHES = ''bank_hashes''"
definition CF_ROOTS :: string where "CF_ROOTS = ''roots''"
definition CF_SLOT_HASHES :: string where "CF_SLOT_HASHES = ''slot_hashes''"
definition CF_SYSVARS :: string where "CF_SYSVARS = ''sysvars''"
definition CF_SNAPSHOTS :: string where "CF_SNAPSHOTS = ''snapshots''"
definition CF_OWNER_INDEX :: string where "CF_OWNER_INDEX = ''owner_index''"
definition CF_PROGRAM_INDEX :: string where "CF_PROGRAM_INDEX = ''program_index''"
definition CF_SLASHES :: string where "CF_SLASHES = ''slashes''"

lemmas cf_defs =
  CF_DEFAULT_def CF_ACCOUNTS_def CF_ACCOUNT_INDEX_def CF_BLOCKS_def CF_TRANSACTIONS_def CF_ADDRESS_SIGNATURES_def
  CF_SLOT_META_def CF_DATA_SHREDS_def CF_CODE_SHREDS_def CF_BANK_HASHES_def CF_ROOTS_def CF_SLOT_HASHES_def
  CF_SYSVARS_def CF_SNAPSHOTS_def CF_OWNER_INDEX_def CF_PROGRAM_INDEX_def CF_SLASHES_def

definition ALL_CF_NAMES :: "string list" where
  "ALL_CF_NAMES = [CF_DEFAULT, CF_ACCOUNTS, CF_ACCOUNT_INDEX, CF_BLOCKS, CF_TRANSACTIONS, CF_ADDRESS_SIGNATURES,
     CF_SLOT_META, CF_DATA_SHREDS, CF_CODE_SHREDS, CF_BANK_HASHES, CF_ROOTS, CF_SLOT_HASHES, CF_SYSVARS,
     CF_SNAPSHOTS, CF_OWNER_INDEX, CF_PROGRAM_INDEX, CF_SLASHES]"

datatype batch_op = BatchPut string bytes bytes | BatchDelete string bytes

type_synonym write_batch = "batch_op list"

definition batch_put :: "string \<Rightarrow> bytes \<Rightarrow> bytes \<Rightarrow> write_batch \<Rightarrow> write_batch" where
  "batch_put cf key value batch = batch @ [BatchPut cf key value]"

definition batch_delete :: "string \<Rightarrow> bytes \<Rightarrow> write_batch \<Rightarrow> write_batch" where
  "batch_delete cf key batch = batch @ [BatchDelete cf key]"

section \<open>The database\<close>

text \<open>
  The calls of the crate: \<open>get_cf\<close>, \<open>write\<close> of a batch, and \<open>iterator_cf\<close> in the modes
  \<open>From(key, Reverse)\<close>, \<open>From(key, Forward)\<close> and \<open>End\<close> (\<open>Start\<close> is \<open>From\<close> the empty key), and \<open>write\<close> of a
  batch of \<open>delete_range_cf\<close>.
\<close>

record 'd rocksdb =
  db_get :: "'d \<Rightarrow> string \<Rightarrow> bytes \<Rightarrow> bytes option"
  db_apply :: "'d \<Rightarrow> write_batch \<Rightarrow> 'd"
  db_seek_rev :: "'d \<Rightarrow> string \<Rightarrow> bytes \<Rightarrow> (bytes \<times> bytes) list"
  db_seek :: "'d \<Rightarrow> string \<Rightarrow> bytes \<Rightarrow> (bytes \<times> bytes) list"
  db_rev :: "'d \<Rightarrow> string \<Rightarrow> (bytes \<times> bytes) list"
  db_delete_ranges :: "'d \<Rightarrow> (string \<times> bytes \<times> bytes) list \<Rightarrow> 'd"

type_synonym contents = "string \<Rightarrow> bytes \<rightharpoonup> bytes"

fun apply_op :: "batch_op \<Rightarrow> contents \<Rightarrow> contents" where
  "apply_op (BatchPut cf k v) c = c(cf := (c cf)(k \<mapsto> v))"
| "apply_op (BatchDelete cf k) c = c(cf := (c cf)(k := None))"

fun delete_range :: "string \<times> bytes \<times> bytes \<Rightarrow> contents \<Rightarrow> contents" where
  "delete_range (cf, a, b) c = c(cf := (\<lambda>k. if a \<le> k \<and> k < b then None else c cf k))"

lemma sorted_hd_greatest: "sorted_wrt (\<lambda>x y. fst y < (fst x :: 'a::linorder)) (e # es) \<Longrightarrow> x \<in> set (e # es) \<Longrightarrow> fst x \<le> fst e"
  by (auto simp: le_less)

locale kv_store =
  fixes D :: "'d rocksdb"
  assumes get_apply: "db_get D (db_apply D d ops) = fold apply_op ops (db_get D d)"
    and seek_rev_set: "set (db_seek_rev D d cf k) = {(k', v). k' \<le> k \<and> db_get D d cf k' = Some v}"
    and seek_rev_sorted: "sorted_wrt (\<lambda>x y. fst y < fst x) (db_seek_rev D d cf k)"
    and seek_set: "set (db_seek D d cf k) = {(k', v). k \<le> k' \<and> db_get D d cf k' = Some v}"
    and seek_sorted: "sorted_wrt (\<lambda>x y. fst x < fst y) (db_seek D d cf k)"
    and rev_set: "set (db_rev D d cf) = {(k, v). db_get D d cf k = Some v}"
    and rev_sorted: "sorted_wrt (\<lambda>x y. fst y < fst x) (db_rev D d cf)"
    and get_delete_ranges: "db_get D (db_delete_ranges D d rs) = fold delete_range rs (db_get D d)"
begin

text \<open>The first entry of a reverse seek is the greatest key not above the sought one.\<close>

lemma seek_rev_hd:
  assumes e: "db_seek_rev D d cf k = (k', v) # es"
  shows "k' \<le> k" "db_get D d cf k' = Some v" "\<And>j w. j \<le> k \<Longrightarrow> db_get D d cf j = Some w \<Longrightarrow> j \<le> k'"
proof -
  have s: "(x, y) \<in> set ((k', v) # es) \<longleftrightarrow> x \<le> k \<and> db_get D d cf x = Some y" for x y
    using seek_rev_set [of d cf k] by (simp only: e) blast
  from s [of k' v] show "k' \<le> k" "db_get D d cf k' = Some v" by simp_all
  fix j w
  assume "j \<le> k" and "db_get D d cf j = Some w"
  then have "(j, w) \<in> set ((k', v) # es)" using s by blast
  with seek_rev_sorted [of d cf k] have "fst (j, w) \<le> fst (k', v)" by (intro sorted_hd_greatest) (simp_all only: e)
  then show "j \<le> k'" by simp
qed

lemma seek_rev_Nil:
  assumes "db_seek_rev D d cf k = []" and "j \<le> k"
  shows "db_get D d cf j = None"
  using seek_rev_set [of d cf k] assms by (cases "db_get D d cf j") auto

lemma rev_hd:
  assumes e: "db_rev D d cf = (k', v) # es"
  shows "db_get D d cf k' = Some v" "\<And>j w. db_get D d cf j = Some w \<Longrightarrow> j \<le> k'"
proof -
  have s: "(x, y) \<in> set ((k', v) # es) \<longleftrightarrow> db_get D d cf x = Some y" for x y
    using rev_set [of d cf] by (simp only: e) blast
  from s [of k' v] show "db_get D d cf k' = Some v" by simp
  fix j w
  assume "db_get D d cf j = Some w"
  then have "(j, w) \<in> set ((k', v) # es)" using s by blast
  with rev_sorted [of d cf] have "fst (j, w) \<le> fst (k', v)" by (intro sorted_hd_greatest) (simp_all only: e)
  then show "j \<le> k'" by simp
qed

lemma rev_Nil: "db_rev D d cf = [] \<Longrightarrow> db_get D d cf j = None"
  using rev_set [of d cf] by (cases "db_get D d cf j") auto

lemma seek_distinct: "distinct (map fst (db_seek D d cf k))"
  using seek_sorted [of d cf k] by (simp flip: sorted_wrt_map [where f = fst] add: strict_sorted_iff)

end

text \<open>The documented behaviour is realised by a finite map per column family.\<close>

type_synonym fmap_db = "string \<Rightarrow> (bytes, bytes) fmap"

fun fmap_op :: "batch_op \<Rightarrow> fmap_db \<Rightarrow> fmap_db" where
  "fmap_op (BatchPut cf k v) d = d(cf := fmupd k v (d cf))"
| "fmap_op (BatchDelete cf k) d = d(cf := fmdrop k (d cf))"

fun fmap_delete_range :: "string \<times> bytes \<times> bytes \<Rightarrow> fmap_db \<Rightarrow> fmap_db" where
  "fmap_delete_range (cf, a, b) d = d(cf := fmfilter (\<lambda>k. \<not> (a \<le> k \<and> k < b)) (d cf))"

definition fmap_rocksdb :: "fmap_db rocksdb" where
  "fmap_rocksdb = \<lparr>db_get = (\<lambda>d cf k. fmlookup (d cf) k), db_apply = (\<lambda>d ops. fold fmap_op ops d),
     db_seek_rev = (\<lambda>d cf k. rev (filter (\<lambda>e. fst e \<le> k) (sorted_list_of_fmap (d cf)))),
     db_seek = (\<lambda>d cf k. filter (\<lambda>e. k \<le> fst e) (sorted_list_of_fmap (d cf))),
     db_rev = (\<lambda>d cf. rev (sorted_list_of_fmap (d cf))),
     db_delete_ranges = (\<lambda>d rs. fold fmap_delete_range rs d)\<rparr>"

lemma set_sorted_list_of_fmap: "set (sorted_list_of_fmap m) = {(k, v). fmlookup m k = Some v}"
  by (auto simp: sorted_list_of_fmap_def fmlookup_dom_iff)

lemma sorted_sorted_list_of_fmap: "sorted_wrt (\<lambda>x y. fst x < fst y) (sorted_list_of_fmap m)"
  by (simp add: sorted_list_of_fmap_def sorted_wrt_map sorted_list_of_fset.rep_eq)

lemma fmap_op_lookup: "(\<lambda>cf k. fmlookup (fmap_op x d cf) k) = apply_op x (\<lambda>cf k. fmlookup (d cf) k)"
  by (cases x) (auto simp: fun_eq_iff)

lemma fmap_range_lookup: "(\<lambda>cf k. fmlookup (fmap_delete_range x d cf) k) = delete_range x (\<lambda>cf k. fmlookup (d cf) k)"
  by (cases x) (auto simp: fun_eq_iff)

interpretation fmap_kv: kv_store fmap_rocksdb
proof
  fix d and ops :: write_batch
  have "(\<lambda>cf k. fmlookup (fold fmap_op ops d cf) k) = fold apply_op ops (\<lambda>cf k. fmlookup (d cf) k)"
    by (induction ops arbitrary: d) (simp_all add: fmap_op_lookup)
  then show "db_get fmap_rocksdb (db_apply fmap_rocksdb d ops) = fold apply_op ops (db_get fmap_rocksdb d)"
    by (simp add: fmap_rocksdb_def)
next
  fix d and rs :: "(string \<times> bytes \<times> bytes) list"
  have "(\<lambda>cf k. fmlookup (fold fmap_delete_range rs d cf) k) = fold delete_range rs (\<lambda>cf k. fmlookup (d cf) k)"
    by (induction rs arbitrary: d) (simp_all add: fmap_range_lookup)
  then show "db_get fmap_rocksdb (db_delete_ranges fmap_rocksdb d rs) = fold delete_range rs (db_get fmap_rocksdb d)"
    by (simp add: fmap_rocksdb_def)
qed (auto simp: fmap_rocksdb_def set_sorted_list_of_fmap sorted_wrt_rev sorted_sorted_list_of_fmap
  intro!: sorted_wrt_filter)

section \<open>Raw reads and writes\<close>

datatype storage_error =
    SE_RocksDb string
  | SE_Serialization string
  | SE_Deserialization string
  | SE_CfNotFound string
  | SE_Corruption string
  | SE_Io string

definition storage_error_display :: "storage_error \<Rightarrow> string" where
  "storage_error_display e = (case e of
     SE_RocksDb m \<Rightarrow> ''rocksdb error: '' @ m
   | SE_Serialization m \<Rightarrow> ''borsh serialization error: '' @ m
   | SE_Deserialization m \<Rightarrow> ''borsh deserialization error: '' @ m
   | SE_CfNotFound m \<Rightarrow> ''column family not found: '' @ m
   | SE_Corruption m \<Rightarrow> ''data corruption: '' @ m
   | SE_Io m \<Rightarrow> ''I/O error: '' @ m)"

type_synonym ('d, 'a) st = "('d, storage_error, 'a) rm"

text \<open>The database is opened with the families of \<open>ALL_CF_NAMES\<close>.\<close>

definition cf_handle :: "string \<Rightarrow> ('d, unit) st" where
  "cf_handle cf = require (cf \<in> set ALL_CF_NAMES) (SE_CfNotFound cf)"

fun check_handles :: "write_batch \<Rightarrow> ('d, unit) st" where
  "check_handles [] = return ()"
| "check_handles (op # ops) = then_r (cf_handle (case op of BatchPut cf _ _ \<Rightarrow> cf | BatchDelete cf _ \<Rightarrow> cf)) (check_handles ops)"

definition storage_write :: "'d rocksdb \<Rightarrow> write_batch \<Rightarrow> ('d, unit) st" where
  "storage_write D batch = then_r (check_handles batch) (modify (\<lambda>d. db_apply D d batch))"

definition get_cf :: "'d rocksdb \<Rightarrow> string \<Rightarrow> bytes \<Rightarrow> ('d, bytes option) st" where
  "get_cf D cf key = then_r (cf_handle cf) (gets (\<lambda>d. db_get D d cf key))"

definition put_cf :: "'d rocksdb \<Rightarrow> string \<Rightarrow> bytes \<Rightarrow> bytes \<Rightarrow> ('d, unit) st" where
  "put_cf D cf key value = then_r (cf_handle cf) (modify (\<lambda>d. db_apply D d [BatchPut cf key value]))"

definition delete_cf :: "'d rocksdb \<Rightarrow> string \<Rightarrow> bytes \<Rightarrow> ('d, unit) st" where
  "delete_cf D cf key = then_r (cf_handle cf) (modify (\<lambda>d. db_apply D d [BatchDelete cf key]))"

definition decode :: "'a codec \<Rightarrow> bytes \<Rightarrow> ('d, 'a) st" where
  "decode c bs = map_err (deserialize c bs) SE_Deserialization"

definition encode :: "'a codec \<Rightarrow> 'a \<Rightarrow> ('d, bytes) st" where
  "encode c x = map_err (to_vec c x) SE_Serialization"

text \<open>\<open>u64::from_be_bytes(bs.try_into().map_err(..)?)\<close> and the same for a hash.\<close>

definition try_slot :: "bytes \<Rightarrow> string \<Rightarrow> ('d, u64) st" where
  "try_slot bs msg = then_r (require (length bs = 8) (SE_Corruption msg)) (return (of_be bs))"

definition try_hash :: "bytes \<Rightarrow> string \<Rightarrow> ('d, hash) st" where
  "try_hash bs msg = then_r (require (length bs = 64) (SE_Corruption msg)) (return (of_be bs))"

definition ops_ok :: "write_batch \<Rightarrow> bool" where
  "ops_ok ops \<longleftrightarrow> (\<forall>op \<in> set ops. (case op of BatchPut cf _ _ \<Rightarrow> cf | BatchDelete cf _ \<Rightarrow> cf) \<in> set ALL_CF_NAMES)"

lemma check_handles_run: "ops_ok ops \<Longrightarrow> check_handles ops d = (Ok (), d)"
  by (induction ops) (auto simp: ops_ok_def run_simps cf_handle_def)

lemma storage_write_run: "ops_ok ops \<Longrightarrow> storage_write D ops d = (Ok (), db_apply D d ops)"
  by (simp add: storage_write_def check_handles_run run_simps)

lemma cf_member [simp]:
  "CF_DEFAULT \<in> set ALL_CF_NAMES" "CF_ACCOUNTS \<in> set ALL_CF_NAMES" "CF_ACCOUNT_INDEX \<in> set ALL_CF_NAMES"
  "CF_BLOCKS \<in> set ALL_CF_NAMES" "CF_TRANSACTIONS \<in> set ALL_CF_NAMES" "CF_ADDRESS_SIGNATURES \<in> set ALL_CF_NAMES"
  "CF_SLOT_META \<in> set ALL_CF_NAMES" "CF_DATA_SHREDS \<in> set ALL_CF_NAMES" "CF_CODE_SHREDS \<in> set ALL_CF_NAMES"
  "CF_BANK_HASHES \<in> set ALL_CF_NAMES" "CF_ROOTS \<in> set ALL_CF_NAMES" "CF_SLOT_HASHES \<in> set ALL_CF_NAMES"
  "CF_SYSVARS \<in> set ALL_CF_NAMES" "CF_SNAPSHOTS \<in> set ALL_CF_NAMES" "CF_OWNER_INDEX \<in> set ALL_CF_NAMES"
  "CF_PROGRAM_INDEX \<in> set ALL_CF_NAMES" "CF_SLASHES \<in> set ALL_CF_NAMES"
  by (simp_all add: ALL_CF_NAMES_def)

lemma get_cf_run: "cf \<in> set ALL_CF_NAMES \<Longrightarrow> get_cf D cf k d = (Ok (db_get D d cf k), d)"
  by (simp add: get_cf_def cf_handle_def run_simps)

lemma put_cf_run: "cf \<in> set ALL_CF_NAMES \<Longrightarrow> put_cf D cf k v d = (Ok (), db_apply D d [BatchPut cf k v])"
  by (simp add: put_cf_def cf_handle_def run_simps)

end
