(* ===== verification/Accounts_Db.thy ===== *)
theory Accounts_Db
  imports Database
begin

text \<open>
  The account tables: \<open>storage/src/account_index.rs\<close>, \<open>storage/src/owner_index.rs\<close> and the snapshots of
  \<open>storage/src/snapshot_archive.rs\<close> and \<open>storage/src/snapshot.rs\<close>. Every write of an account is kept under its
  address and slot; a pointer per address names the slot of the current version. The abstract view is a map from
  address and slot to accounts, with the latest version at or before a slot; reads, writes, rewinds and the
  clean-up after a failed slot are shown to act on this view.
\<close>

section \<open>Writing accounts\<close>

definition write_index_updates :: "hash \<Rightarrow> account option \<Rightarrow> account \<Rightarrow> write_batch \<Rightarrow> write_batch" where
  "write_index_updates address old_account new_account batch =
    (let new_owner = acc_owner new_account;
         owner_changed = (case old_account of None \<Rightarrow> True | Some old \<Rightarrow> acc_owner old \<noteq> new_owner)
     in if owner_changed
        then let batch = (case old_account of
                   Some old \<Rightarrow> let old_key = owner_index_key (acc_owner old) address
                               in batch_delete CF_PROGRAM_INDEX old_key (batch_delete CF_OWNER_INDEX old_key batch)
                 | None \<Rightarrow> batch);
                 new_key = owner_index_key new_owner address
             in batch_put CF_PROGRAM_INDEX new_key [] (batch_put CF_OWNER_INDEX new_key [] batch)
        else batch)"

definition prepare_index_updates :: "hash \<Rightarrow> account option \<Rightarrow> account \<Rightarrow> write_batch" where
  "prepare_index_updates address old_account new_account = write_index_updates address old_account new_account []"

definition write_account_to_batch :: "account codec \<Rightarrow> write_batch \<Rightarrow> hash \<Rightarrow> u64 \<Rightarrow> account \<Rightarrow> account option \<Rightarrow>
    ('d, write_batch) st" where
  "write_account_to_batch A batch address slot account old_account =
    bind_r (encode A account) (\<lambda>value.
    return (write_index_updates address old_account account
      (batch_put CF_ACCOUNT_INDEX (hash_bytes address) (slot_key slot)
      (batch_put CF_ACCOUNTS (account_key address slot) value batch))))"

definition append_account_write_with_old :: "account codec \<Rightarrow> write_batch \<Rightarrow> hash \<Rightarrow> u64 \<Rightarrow> account \<Rightarrow> account option \<Rightarrow>
    ('d, write_batch) st" where
  "append_account_write_with_old A batch address slot account old_account =
     write_account_to_batch A batch address slot account old_account"

section \<open>Reading accounts\<close>

definition find_latest_account_at_or_before :: "'d rocksdb \<Rightarrow> account codec \<Rightarrow> hash \<Rightarrow> u64 \<Rightarrow> ('d, (u64 \<times> account) option) st" where
  "find_latest_account_at_or_before D A address max_slot =
    then_r (cf_handle CF_ACCOUNTS)
    (bind_r (gets (\<lambda>d. db_seek_rev D d CF_ACCOUNTS (account_key address max_slot))) (\<lambda>iter.
    case iter of
      [] \<Rightarrow> return None
    | (key, value) # _ \<Rightarrow>
        if length key \<noteq> 72 \<or> take 64 key \<noteq> hash_bytes address then return None
        else bind_r (try_slot (take 8 (drop 64 key)) ''invalid slot in account key'') (\<lambda>stored_slot.
             if stored_slot > max_slot then return None
             else bind_r (decode A value) (\<lambda>account. return (Some (stored_slot, account))))))"

definition get_account_at_slot :: "'d rocksdb \<Rightarrow> account codec \<Rightarrow> hash \<Rightarrow> u64 \<Rightarrow> ('d, account option) st" where
  "get_account_at_slot D A address slot =
     bind_r (find_latest_account_at_or_before D A address slot) (\<lambda>r. return (map_option snd r))"

definition get_account_db :: "'d rocksdb \<Rightarrow> account codec \<Rightarrow> hash \<Rightarrow> ('d, account option) st" where
  "get_account_db D A address =
    bind_r (get_cf D CF_ACCOUNT_INDEX (hash_bytes address)) (\<lambda>r.
    case r of
      None \<Rightarrow> return None
    | Some slot_bytes \<Rightarrow>
        bind_r (try_slot slot_bytes ''invalid slot in account_index'') (\<lambda>slot.
        get_account_at_slot D A address slot))"

definition append_account_write :: "'d rocksdb \<Rightarrow> account codec \<Rightarrow> write_batch \<Rightarrow> hash \<Rightarrow> u64 \<Rightarrow> account \<Rightarrow> ('d, write_batch) st" where
  "append_account_write D A batch address slot account =
     bind_r (get_account_db D A address) (\<lambda>old_account. write_account_to_batch A batch address slot account old_account)"

definition prepare_account_write :: "'d rocksdb \<Rightarrow> account codec \<Rightarrow> hash \<Rightarrow> u64 \<Rightarrow> account \<Rightarrow> ('d, write_batch) st" where
  "prepare_account_write D A address slot account = append_account_write D A [] address slot account"

definition put_account :: "'d rocksdb \<Rightarrow> account codec \<Rightarrow> hash \<Rightarrow> u64 \<Rightarrow> account \<Rightarrow> ('d, unit) st" where
  "put_account D A address slot account =
     bind_r (prepare_account_write D A address slot account) (storage_write D)"

section \<open>Rewinding and cleaning up\<close>

definition write_unless_empty :: "'d rocksdb \<Rightarrow> write_batch \<times> u64 \<Rightarrow> ('d, u64) st" where
  "write_unless_empty D = (\<lambda>(batch, count). then_r (if batch \<noteq> [] then storage_write D batch else return ()) (return count))"

text \<open>Point the index entry of an address at a slot, or remove it.\<close>

definition repoint :: "hash \<Rightarrow> u64 option \<Rightarrow> write_batch \<Rightarrow> write_batch" where
  "repoint address target batch = (case target of
     Some slot \<Rightarrow> batch_put CF_ACCOUNT_INDEX (hash_bytes address) (slot_key slot) batch
   | None \<Rightarrow> batch_delete CF_ACCOUNT_INDEX (hash_bytes address) batch)"

definition index_entry :: "bytes \<Rightarrow> bytes \<Rightarrow> ('d, unit) st" where
  "index_entry key value = require (length key = 64 \<and> length value = 8)
     (SE_Corruption ''account_index entry has unexpected key/value length'')"

fun rewind_each :: "'d rocksdb \<Rightarrow> account codec \<Rightarrow> u64 \<Rightarrow> (bytes \<times> bytes) list \<Rightarrow> write_batch \<Rightarrow> u64 \<Rightarrow> ('d, write_batch \<times> u64) st" where
  "rewind_each D A max_slot [] batch count = return (batch, count)"
| "rewind_each D A max_slot ((key, value) # iter) batch count =
    then_r (index_entry key value)
    (bind_r (try_slot (take 8 value) ''invalid slot bytes'') (\<lambda>current_slot.
    if current_slot > max_slot
    then bind_r (try_hash (take 64 key) ''invalid address'') (\<lambda>address.
         bind_r (find_latest_account_at_or_before D A address max_slot) (\<lambda>r.
         rewind_each D A max_slot iter (repoint address (map_option fst r) batch) (count + 1)))
    else rewind_each D A max_slot iter batch count))"

definition rewind_account_index_to_slot :: "'d rocksdb \<Rightarrow> account codec \<Rightarrow> u64 \<Rightarrow> ('d, u64) st" where
  "rewind_account_index_to_slot D A max_slot =
    then_r (cf_handle CF_ACCOUNT_INDEX)
    (bind_r (gets (\<lambda>d. db_seek D d CF_ACCOUNT_INDEX [])) (\<lambda>iter.
    bind_r (rewind_each D A max_slot iter [] 0) (write_unless_empty D)))"

text \<open>The reverse walk over the versions of one address, stopping at the first slot that is admissible.\<close>

fun seek_version :: "(u64 \<Rightarrow> bool) \<Rightarrow> (bytes \<Rightarrow> ('d, unit) st) \<Rightarrow> hash \<Rightarrow> (bytes \<times> bytes) list \<Rightarrow> ('d, u64 option) st" where
  "seek_version admissible check address [] = return None"
| "seek_version admissible check address ((key, value) # iter) =
    (if length key \<noteq> 72 \<or> take 64 key \<noteq> hash_bytes address then return None
     else bind_r (try_slot (take 8 (drop 64 key)) ''invalid slot in account key'') (\<lambda>slot.
          if admissible slot then then_r (check value) (return (Some slot))
          else seek_version admissible check address iter))"

definition root_of :: "u64 set \<Rightarrow> u64" where
  "root_of ancestor_slots = (if ancestor_slots = {} then 0 else Min ancestor_slots)"

definition best_version :: "'d rocksdb \<Rightarrow> (u64 \<Rightarrow> bool) \<Rightarrow> (bytes \<Rightarrow> ('d, unit) st) \<Rightarrow> hash \<Rightarrow> ('d, u64 option) st" where
  "best_version D admissible check address =
    then_r (cf_handle CF_ACCOUNTS)
    (bind_r (gets (\<lambda>d. db_seek_rev D d CF_ACCOUNTS (account_key address (- 1)))) (seek_version admissible check address))"

fun rewind_ancestry_each :: "'d rocksdb \<Rightarrow> account codec \<Rightarrow> u64 set \<Rightarrow> (bytes \<times> bytes) list \<Rightarrow> write_batch \<Rightarrow> u64 \<Rightarrow> ('d, write_batch \<times> u64) st" where
  "rewind_ancestry_each D A ancestor_slots [] batch count = return (batch, count)"
| "rewind_ancestry_each D A ancestor_slots ((key, value) # iter) batch count =
    then_r (index_entry key value)
    (bind_r (try_slot (take 8 value) ''invalid slot bytes'') (\<lambda>current_slot.
    if current_slot \<le> root_of ancestor_slots \<or> current_slot \<in> ancestor_slots
    then rewind_ancestry_each D A ancestor_slots iter batch count
    else bind_r (try_hash (take 64 key) ''invalid address'') (\<lambda>address.
         bind_r (best_version D (\<lambda>s. s \<le> root_of ancestor_slots \<or> s \<in> ancestor_slots)
           (\<lambda>value. then_r (decode A value) (return ())) address) (\<lambda>best.
         rewind_ancestry_each D A ancestor_slots iter (repoint address best batch) (count + 1)))))"

definition rewind_account_index_for_ancestry :: "'d rocksdb \<Rightarrow> account codec \<Rightarrow> u64 set \<Rightarrow> ('d, u64) st" where
  "rewind_account_index_for_ancestry D A ancestor_slots =
    then_r (cf_handle CF_ACCOUNT_INDEX)
    (bind_r (gets (\<lambda>d. db_seek D d CF_ACCOUNT_INDEX [])) (\<lambda>iter.
    bind_r (rewind_ancestry_each D A ancestor_slots iter [] 0) (write_unless_empty D)))"

fun cleanup_each :: "'d rocksdb \<Rightarrow> account codec \<Rightarrow> u64 \<Rightarrow> u64 \<Rightarrow> hash list \<Rightarrow> write_batch \<Rightarrow> u64 \<Rightarrow> ('d, write_batch \<times> u64) st" where
  "cleanup_each D A slot parent_slot [] batch count = return (batch, count)"
| "cleanup_each D A slot parent_slot (address # addresses) batch count =
    bind_r (find_latest_account_at_or_before D A address parent_slot) (\<lambda>r.
    cleanup_each D A slot parent_slot addresses
      (repoint address (map_option fst r) (batch_delete CF_ACCOUNTS (account_key address slot) batch)) (count + 1))"

definition cleanup_failed_slot :: "'d rocksdb \<Rightarrow> account codec \<Rightarrow> u64 \<Rightarrow> u64 \<Rightarrow> hash list \<Rightarrow> ('d, u64) st" where
  "cleanup_failed_slot D A slot parent_slot addresses =
     bind_r (cleanup_each D A slot parent_slot addresses [] 0) (write_unless_empty D)"

fun cleanup_ancestry_each :: "'d rocksdb \<Rightarrow> u64 \<Rightarrow> u64 set \<Rightarrow> hash list \<Rightarrow> write_batch \<Rightarrow> u64 \<Rightarrow> ('d, write_batch \<times> u64) st" where
  "cleanup_ancestry_each D slot ancestor_slots [] batch count = return (batch, count)"
| "cleanup_ancestry_each D slot ancestor_slots (address # addresses) batch count =
    bind_r (best_version D (\<lambda>s. s \<in> ancestor_slots) (\<lambda>_. return ()) address) (\<lambda>best.
    cleanup_ancestry_each D slot ancestor_slots addresses
      (repoint address best (batch_delete CF_ACCOUNTS (account_key address slot) batch)) (count + 1))"

definition cleanup_failed_slot_for_ancestry :: "'d rocksdb \<Rightarrow> u64 \<Rightarrow> hash list \<Rightarrow> u64 set \<Rightarrow> ('d, u64) st" where
  "cleanup_failed_slot_for_ancestry D slot addresses ancestor_slots =
     bind_r (cleanup_ancestry_each D slot ancestor_slots addresses [] 0) (write_unless_empty D)"

section \<open>Scans\<close>

text \<open>The loop of \<open>get_all_accounts\<close> is that of \<open>get_accounts_in_partition\<close> without the test on the first byte.\<close>

fun collect_accounts :: "'d rocksdb \<Rightarrow> account codec \<Rightarrow> (u8 \<Rightarrow> ('d, bool) st) \<Rightarrow> (bytes \<times> bytes) list \<Rightarrow> ('d, (hash \<times> account) list) st" where
  "collect_accounts D A wanted [] = return []"
| "collect_accounts D A wanted ((key, value) # iter) =
    then_r (index_entry key value)
    (bind_r (bind_r (index key 0) wanted) (\<lambda>w.
    if \<not> w then collect_accounts D A wanted iter
    else bind_r (try_hash (take 64 key) ''invalid address'') (\<lambda>address.
         bind_r (try_slot (take 8 value) ''invalid slot in account_index'') (\<lambda>slot.
         bind_r (get_account_at_slot D A address slot) (\<lambda>r.
         bind_r (collect_accounts D A wanted iter) (\<lambda>results.
         return (case r of Some account \<Rightarrow> (address, account) # results | None \<Rightarrow> results)))))))"

definition get_accounts_in_partition :: "'d rocksdb \<Rightarrow> account codec \<Rightarrow> u64 \<Rightarrow> u64 \<Rightarrow> ('d, (hash \<times> account) list) st" where
  "get_accounts_in_partition D A part total_partitions =
    then_r (cf_handle CF_ACCOUNT_INDEX)
    (bind_r (gets (\<lambda>d. db_seek D d CF_ACCOUNT_INDEX []))
      (collect_accounts D A (\<lambda>first_byte.
         if total_partitions = 0 then panic else return (ucast first_byte mod total_partitions = part))))"

definition get_all_accounts :: "'d rocksdb \<Rightarrow> account codec \<Rightarrow> ('d, (hash \<times> account) list) st" where
  "get_all_accounts D A =
    then_r (cf_handle CF_ACCOUNT_INDEX)
    (bind_r (gets (\<lambda>d. db_seek D d CF_ACCOUNT_INDEX [])) (collect_accounts D A (\<lambda>_. return True)))"

fun history_each :: "account codec \<Rightarrow> hash \<Rightarrow> nat \<Rightarrow> (bytes \<times> bytes) list \<Rightarrow> (u64 \<times> account) list \<Rightarrow> ('d, (u64 \<times> account) list) st" where
  "history_each A address limit [] results = return results"
| "history_each A address limit ((key, value) # iter) results =
    (if length key < 72 \<or> take 64 key \<noteq> hash_bytes address then return results
     else bind_r (try_slot (take 8 (drop 64 key)) ''invalid slot bytes'') (\<lambda>slot.
          bind_r (decode A value) (\<lambda>account.
          let results = results @ [(slot, account)] in
          if limit \<le> length results then return results else history_each A address limit iter results)))"

definition get_account_history :: "'d rocksdb \<Rightarrow> account codec \<Rightarrow> hash \<Rightarrow> nat \<Rightarrow> ('d, (u64 \<times> account) list) st" where
  "get_account_history D A address limit =
    then_r (cf_handle CF_ACCOUNTS)
    (bind_r (gets (\<lambda>d. db_seek_rev D d CF_ACCOUNTS (account_key address (- 1)))) (\<lambda>iter.
     history_each A address limit iter []))"

section \<open>The owner index\<close>

definition update_account_indexes :: "'d rocksdb \<Rightarrow> hash \<Rightarrow> account option \<Rightarrow> account \<Rightarrow> ('d, unit) st" where
  "update_account_indexes D address old_account new_account =
    (let batch = prepare_index_updates address old_account new_account in
     if batch \<noteq> [] then storage_write D batch else return ())"

definition remove_account_indexes :: "'d rocksdb \<Rightarrow> hash \<Rightarrow> account \<Rightarrow> ('d, unit) st" where
  "remove_account_indexes D address account =
    (let key = owner_index_key (acc_owner account) address in
     storage_write D (batch_delete CF_PROGRAM_INDEX key (batch_delete CF_OWNER_INDEX key [])))"

fun query_each :: "'d rocksdb \<Rightarrow> account codec \<Rightarrow> hash \<Rightarrow> nat \<Rightarrow> (bytes \<times> bytes) list \<Rightarrow> (hash \<times> account) list \<Rightarrow> ('d, (hash \<times> account) list) st" where
  "query_each D A prefix limit [] results = return results"
| "query_each D A prefix limit ((key, value) # iter) results =
    (if length key \<noteq> 128 \<or> take 64 key \<noteq> hash_bytes prefix then return results
     else bind_r (try_hash (take 64 (drop 64 key)) ''invalid address in index key'') (\<lambda>address.
          bind_r (get_account_db D A address) (\<lambda>r.
          let results = (case r of Some account \<Rightarrow> results @ [(address, account)] | None \<Rightarrow> results) in
          if limit \<le> length results then return results else query_each D A prefix limit iter results)))"

definition query_index_cf :: "'d rocksdb \<Rightarrow> account codec \<Rightarrow> string \<Rightarrow> hash \<Rightarrow> nat \<Rightarrow> ('d, (hash \<times> account) list) st" where
  "query_index_cf D A cf prefix limit =
    then_r (cf_handle cf)
    (bind_r (gets (\<lambda>d. db_seek D d cf (hash_bytes prefix))) (\<lambda>iter. query_each D A prefix limit iter []))"

definition DEFAULT_QUERY_LIMIT :: nat where "DEFAULT_QUERY_LIMIT = 1000"

definition get_accounts_by_owner :: "'d rocksdb \<Rightarrow> account codec \<Rightarrow> hash \<Rightarrow> nat option \<Rightarrow> ('d, (hash \<times> account) list) st" where
  "get_accounts_by_owner D A owner limit =
     query_index_cf D A CF_OWNER_INDEX owner (case limit of Some l \<Rightarrow> l | None \<Rightarrow> DEFAULT_QUERY_LIMIT)"

definition get_accounts_by_program :: "'d rocksdb \<Rightarrow> account codec \<Rightarrow> hash \<Rightarrow> nat option \<Rightarrow> ('d, (hash \<times> account) list) st" where
  "get_accounts_by_program D A program limit =
     query_index_cf D A CF_PROGRAM_INDEX program (case limit of Some l \<Rightarrow> l | None \<Rightarrow> DEFAULT_QUERY_LIMIT)"

section \<open>The abstract view\<close>

definition account_at :: "account codec \<Rightarrow> contents \<Rightarrow> hash \<Rightarrow> u64 \<rightharpoonup> account" where
  "account_at A c a s = (case c CF_ACCOUNTS (account_key a s) of
     None \<Rightarrow> None | Some v \<Rightarrow> (case deserialize A v of Inl _ \<Rightarrow> None | Inr x \<Rightarrow> Some x))"

definition pointer_of :: "contents \<Rightarrow> hash \<Rightarrow> u64 option" where
  "pointer_of c a = map_option of_be (c CF_ACCOUNT_INDEX (hash_bytes a))"

definition current :: "account codec \<Rightarrow> contents \<Rightarrow> hash \<Rightarrow> account option" where
  "current A c a = Option.bind (pointer_of c a) (account_at A c a)"

text \<open>The version with the greatest slot not above a bound.\<close>

definition latest :: "(u64 \<rightharpoonup> 'a) \<Rightarrow> u64 \<Rightarrow> (u64 \<times> 'a) option" where
  "latest m s = (let S = {t. t \<le> s \<and> m t \<noteq> None} in if S = {} then None else Some (Max S, the (m (Max S))))"

text \<open>
  Well-formed tables: versions are stored under account keys as encoded accounts, pointers are slots of stored versions.
\<close>

definition accounts_ok :: "account codec \<Rightarrow> contents \<Rightarrow> bool" where
  "accounts_ok A c \<longleftrightarrow>
     (\<forall>k v. c CF_ACCOUNTS k = Some v \<longrightarrow> (\<exists>a s x. k = account_key a s \<and> to_vec A x = Inr v)) \<and>
     (\<forall>k v. c CF_ACCOUNT_INDEX k = Some v \<longrightarrow>
        (\<exists>a s. k = hash_bytes a \<and> v = slot_key s \<and> c CF_ACCOUNTS (account_key a s) \<noteq> None))"

lemma accounts_okI:
  assumes "\<And>k v. c CF_ACCOUNTS k = Some v \<Longrightarrow> \<exists>a s x. k = account_key a s \<and> to_vec A x = Inr v"
    and "\<And>k v. c CF_ACCOUNT_INDEX k = Some v \<Longrightarrow> \<exists>a s. k = hash_bytes a \<and> v = slot_key s \<and> c CF_ACCOUNTS (account_key a s) \<noteq> None"
  shows "accounts_ok A c"
  using assms unfolding accounts_ok_def by blast

lemma accounts_okD:
  assumes "accounts_ok A c"
  shows "c CF_ACCOUNTS k = Some v \<Longrightarrow> \<exists>a s x. k = account_key a s \<and> to_vec A x = Inr v"
    and "c CF_ACCOUNT_INDEX k = Some v \<Longrightarrow> \<exists>a s. k = hash_bytes a \<and> v = slot_key s \<and> c CF_ACCOUNTS (account_key a s) \<noteq> None"
  using assms unfolding accounts_ok_def by blast+

lemma account_key_inj [simp]: "account_key a s = account_key b t \<longleftrightarrow> a = b \<and> s = t"
  by (auto simp: account_key_def)

lemma slot_key_inj [simp]: "slot_key s = slot_key t \<longleftrightarrow> s = t"
  by (simp add: slot_key_def)

lemma account_key_parts [simp]:
  "length (account_key a s) = 72" "take 64 (account_key a s) = hash_bytes a" "drop 64 (account_key a s) = be_bytes 8 s"
  by (simp_all add: account_key_def)

lemma account_key_le [simp]: "account_key a s \<le> account_key a t \<longleftrightarrow> s \<le> t"
  by (simp add: account_key_def)

lemma account_key_less [simp]: "account_key a s < account_key a t \<longleftrightarrow> s < t"
  by (simp add: account_key_def)

lemma account_key_between:
  assumes "account_key a s \<le> account_key b t" "account_key b t \<le> account_key a u"
  shows "b = a"
  using assms by (auto simp: account_key_def le_less append_less_prefix)

lemma latest_None: "latest m s = None \<longleftrightarrow> (\<forall>t \<le> s. m t = None)"
  by (auto simp: latest_def Let_def)

lemma latest_Some: "latest m s = Some (t, x) \<longleftrightarrow> t \<le> s \<and> m t = Some x \<and> (\<forall>u. t < u \<longrightarrow> u \<le> s \<longrightarrow> m u = None)"
proof -
  let ?S = "{t. t \<le> s \<and> m t \<noteq> None}"
  have fin: "finite ?S" by simp
  show ?thesis
  proof
    assume l: "latest m s = Some (t, x)"
    then have ne: "?S \<noteq> {}" and t: "t = Max ?S" and x: "x = the (m t)"
      by (auto simp: latest_def Let_def split: if_splits)
    have "t \<in> ?S" unfolding t using ne by (intro Max_in fin)
    moreover have "m u = None" if "t < u" "u \<le> s" for u
    proof (rule ccontr)
      assume "m u \<noteq> None"
      with that have "u \<in> ?S" by simp
      from Max_ge [OF fin this] that(1) t show False by simp
    qed
    ultimately show "t \<le> s \<and> m t = Some x \<and> (\<forall>u. t < u \<longrightarrow> u \<le> s \<longrightarrow> m u = None)" using x by auto
  next
    assume r: "t \<le> s \<and> m t = Some x \<and> (\<forall>u. t < u \<longrightarrow> u \<le> s \<longrightarrow> m u = None)"
    have "Max ?S = t"
      by (rule Max_eqI [OF fin]) (use r in \<open>auto simp: not_le [symmetric]\<close>)
    with r show "latest m s = Some (t, x)" by (auto simp: latest_def Let_def)
  qed
qed

lemma tables_cong:
  assumes "c CF_ACCOUNTS = c' CF_ACCOUNTS" and "c CF_ACCOUNT_INDEX = c' CF_ACCOUNT_INDEX"
  shows "account_at A c = account_at A c'" and "pointer_of c = pointer_of c'" and "current A c = current A c'"
    and "accounts_ok A c = accounts_ok A c'"
proof -
  show at: "account_at A c = account_at A c'" and p: "pointer_of c = pointer_of c'"
    by (simp_all add: account_at_def pointer_of_def fun_eq_iff assms)
  show "current A c = current A c'" by (simp add: current_def fun_eq_iff at p)
  show "accounts_ok A c = accounts_ok A c'" by (simp add: accounts_ok_def assms)
qed

text \<open>The slot of the version that is current as of a slot.\<close>

definition version_slot :: "account codec \<Rightarrow> contents \<Rightarrow> u64 \<Rightarrow> hash \<Rightarrow> u64 option" where
  "version_slot A c n a = map_option fst (latest (account_at A c a) n)"

definition best_slot :: "account codec \<Rightarrow> contents \<Rightarrow> (u64 \<Rightarrow> bool) \<Rightarrow> hash \<Rightarrow> u64 option" where
  "best_slot A c P a = map_option fst (latest (\<lambda>s. if P s then account_at A c a s else None) (- 1))"

definition kept_slot :: "u64 set \<Rightarrow> u64 \<Rightarrow> bool" where
  "kept_slot S s \<longleftrightarrow> s \<le> root_of S \<or> s \<in> S"

lemma best_slot_stored: "best_slot A c P a = Some s \<Longrightarrow> account_at A c a s \<noteq> None \<and> P s"
  by (auto simp: best_slot_def latest_Some split: if_splits)

lemma version_slot_stored: "version_slot A c n a = Some s \<Longrightarrow> account_at A c a s \<noteq> None"
  by (auto simp: version_slot_def latest_Some)

locale account_store = kv_store D + acc: borsh_codec A
  for D :: "'d rocksdb" and A :: "account codec"
begin

lemma stored_version:
  "accounts_ok A c \<Longrightarrow> c CF_ACCOUNTS k = Some v \<Longrightarrow> \<exists>a s x. k = account_key a s \<and> to_vec A x = Inr v \<and> deserialize A v = Inr x"
  unfolding accounts_ok_def using acc.deserialize_to_vec_exact by blast

lemma account_at_Some:
  assumes "accounts_ok A c" and "c CF_ACCOUNTS (account_key a s) = Some v"
  shows "\<exists>x. account_at A c a s = Some x \<and> to_vec A x = Inr v \<and> deserialize A v = Inr x"
  using stored_version [OF assms] assms(2) by (auto simp: account_at_def)

lemma account_at_None: "accounts_ok A c \<Longrightarrow> account_at A c a s = None \<longleftrightarrow> c CF_ACCOUNTS (account_key a s) = None"
  using account_at_Some [of c a s] by (cases "c CF_ACCOUNTS (account_key a s)") (auto simp: account_at_def)

lemma find_latest_run:
  assumes ok: "accounts_ok A (db_get D d)"
  shows "find_latest_account_at_or_before D A a s d = (Ok (latest (account_at A (db_get D d) a) s), d)"
proof (cases "db_seek_rev D d CF_ACCOUNTS (account_key a s)")
  case Nil
  then have "latest (account_at A (db_get D d) a) s = None"
    using seek_rev_Nil [OF Nil] by (simp add: latest_None account_at_None [OF ok])
  with Nil show ?thesis by (simp add: find_latest_account_at_or_before_def cf_handle_def run_simps)
next
  case (Cons e es)
  obtain k v where e: "e = (k, v)" by fastforce
  note hd = seek_rev_hd [OF Cons [unfolded e]]
  obtain b t where k: "k = account_key b t" using stored_version [OF ok hd(2)] by blast
  show ?thesis
  proof (cases "b = a")
    case False
    have "account_at A (db_get D d) a u = None" if "u \<le> s" for u
    proof (rule ccontr)
      assume "account_at A (db_get D d) a u \<noteq> None"
      then obtain w where "db_get D d CF_ACCOUNTS (account_key a u) = Some w" by (auto simp: account_at_None [OF ok])
      with hd(3) [of "account_key a u" w] that have "account_key a u \<le> account_key b t" by (simp add: k)
      with hd(1) False show False using account_key_between [of a u b t s] by (simp add: k)
    qed
    then have "latest (account_at A (db_get D d) a) s = None" by (simp add: latest_None)
    with Cons False show ?thesis
      by (simp add: find_latest_account_at_or_before_def cf_handle_def run_simps e k)
  next
    case True
    from account_at_Some [OF ok hd(2) [unfolded k True]]
    obtain x where x: "account_at A (db_get D d) a t = Some x" "deserialize A v = Inr x" by blast
    have "account_at A (db_get D d) a u = None" if "t < u" "u \<le> s" for u
    proof (rule ccontr)
      assume "account_at A (db_get D d) a u \<noteq> None"
      then obtain w where "db_get D d CF_ACCOUNTS (account_key a u) = Some w" by (auto simp: account_at_None [OF ok])
      with hd(3) [of "account_key a u" w] that show False by (simp add: k True)
    qed
    with x hd(1) have "latest (account_at A (db_get D d) a) s = Some (t, x)"
      by (simp add: latest_Some k True)
    with Cons x hd(1) show ?thesis
      by (simp add: find_latest_account_at_or_before_def cf_handle_def run_simps e k True try_slot_def decode_def not_less)
  qed
qed

lemma get_account_at_slot_run:
  "accounts_ok A (db_get D d) \<Longrightarrow>
   get_account_at_slot D A a s d = (Ok (map_option snd (latest (account_at A (db_get D d) a) s)), d)"
  by (simp add: get_account_at_slot_def run_simps find_latest_run)

lemma pointer_stored:
  assumes "accounts_ok A c" and "pointer_of c a = Some s"
  obtains x where "c CF_ACCOUNT_INDEX (hash_bytes a) = Some (slot_key s)" "account_at A c a s = Some x"
proof -
  from assms(2) obtain v where v: "c CF_ACCOUNT_INDEX (hash_bytes a) = Some v" and s: "s = of_be v" by (auto simp: pointer_of_def)
  from assms(1) v have "v = slot_key s \<and> c CF_ACCOUNTS (account_key a s) \<noteq> None"
    unfolding accounts_ok_def s by (fastforce simp: slot_key_def)
  with that v account_at_None [OF assms(1), of a s] show thesis by blast
qed

lemma get_account_run:
  assumes ok: "accounts_ok A (db_get D d)"
  shows "get_account_db D A a d = (Ok (current A (db_get D d) a), d)"
proof (cases "pointer_of (db_get D d) a")
  case None
  then show ?thesis by (simp add: get_account_db_def run_simps get_cf_run current_def pointer_of_def)
next
  case (Some s)
  from pointer_stored [OF ok Some] obtain x where
    x: "db_get D d CF_ACCOUNT_INDEX (hash_bytes a) = Some (slot_key s)" "account_at A (db_get D d) a s = Some x" .
  have "latest (account_at A (db_get D d) a) s = Some (s, x)" using x(2) by (auto simp: latest_Some)
  with Some x show ?thesis
    by (simp add: get_account_db_def run_simps get_cf_run current_def try_slot_def slot_key_def get_account_at_slot_run [OF ok])
qed

end

section \<open>What a batch changes\<close>

definition op_cf :: "batch_op \<Rightarrow> string" where
  "op_cf op = (case op of BatchPut cf _ _ \<Rightarrow> cf | BatchDelete cf _ \<Rightarrow> cf)"

lemma cf_neq [simp]:
  "CF_ACCOUNTS \<noteq> CF_ACCOUNT_INDEX" "CF_ACCOUNT_INDEX \<noteq> CF_ACCOUNTS" "CF_OWNER_INDEX \<noteq> CF_ACCOUNTS" "CF_OWNER_INDEX \<noteq> CF_ACCOUNT_INDEX"
  "CF_PROGRAM_INDEX \<noteq> CF_ACCOUNTS" "CF_PROGRAM_INDEX \<noteq> CF_ACCOUNT_INDEX" "CF_PROGRAM_INDEX \<noteq> CF_OWNER_INDEX"
  "CF_OWNER_INDEX \<noteq> CF_PROGRAM_INDEX" "CF_ACCOUNTS \<noteq> CF_OWNER_INDEX" "CF_ACCOUNTS \<noteq> CF_PROGRAM_INDEX"
  "CF_ACCOUNT_INDEX \<noteq> CF_OWNER_INDEX" "CF_ACCOUNT_INDEX \<noteq> CF_PROGRAM_INDEX"
  by (simp_all add: cf_defs)

lemma apply_other_cf: "\<forall>op \<in> set ops. op_cf op \<noteq> cf \<Longrightarrow> fold apply_op ops c cf = c cf"
proof (induction ops arbitrary: c)
  case (Cons op ops)
  then show ?case by (cases op) (auto simp: op_cf_def)
qed simp

text \<open>The operations that a write of an account appends to a batch.\<close>

definition index_ops :: "hash \<Rightarrow> account option \<Rightarrow> account \<Rightarrow> write_batch" where
  "index_ops a old new = write_index_updates a old new []"

definition account_ops :: "bytes \<Rightarrow> hash \<Rightarrow> u64 \<Rightarrow> account \<Rightarrow> account option \<Rightarrow> write_batch" where
  "account_ops v a slot x old =
     [BatchPut CF_ACCOUNTS (account_key a slot) v, BatchPut CF_ACCOUNT_INDEX (hash_bytes a) (slot_key slot)] @ index_ops a old x"

lemma write_index_updates_append: "write_index_updates a old new batch = batch @ index_ops a old new"
  by (simp add: index_ops_def write_index_updates_def Let_def batch_put_def batch_delete_def split: option.splits)

lemma index_ops_cf: "op \<in> set (index_ops a old new) \<Longrightarrow> op_cf op \<in> {CF_OWNER_INDEX, CF_PROGRAM_INDEX}"
  by (auto simp: index_ops_def write_index_updates_def Let_def batch_put_def batch_delete_def op_cf_def split: option.splits if_splits)

lemma write_account_run:
  "to_vec A x = Inr v \<Longrightarrow> write_account_to_batch A batch a slot x old d = (Ok (batch @ account_ops v a slot x old), d)"
  by (simp add: write_account_to_batch_def encode_def run_simps write_index_updates_append batch_put_def account_ops_def)

lemma ops_ok_append [simp]: "ops_ok (xs @ ys) \<longleftrightarrow> ops_ok xs \<and> ops_ok ys"
  by (auto simp: ops_ok_def)

lemma ops_ok_Cons [simp]: "ops_ok (op # ops) \<longleftrightarrow> op_cf op \<in> set ALL_CF_NAMES \<and> ops_ok ops"
  by (auto simp: ops_ok_def op_cf_def)

lemma ops_ok_Nil [simp]: "ops_ok []"
  by (simp add: ops_ok_def)

lemma ops_ok_index [simp]: "ops_ok (index_ops a old new)"
  using index_ops_cf [of _ a old new] unfolding ops_ok_def op_cf_def [symmetric] by fastforce

lemma ops_ok_account [simp]: "ops_ok (account_ops v a slot x old)"
  by (simp add: account_ops_def) (simp add: op_cf_def)

lemma index_ops_keep: "cf \<notin> {CF_OWNER_INDEX, CF_PROGRAM_INDEX} \<Longrightarrow> fold apply_op (index_ops a old new) c cf = c cf"
  by (rule apply_other_cf) (use index_ops_cf in blast)

lemma account_ops_tables:
  "fold apply_op (account_ops v a slot x old) c CF_ACCOUNTS = (c CF_ACCOUNTS)(account_key a slot \<mapsto> v)"
  "fold apply_op (account_ops v a slot x old) c CF_ACCOUNT_INDEX = (c CF_ACCOUNT_INDEX)(hash_bytes a \<mapsto> slot_key slot)"
  by (simp_all add: account_ops_def index_ops_keep fun_upd_def)

context account_store
begin

lemma write_view:
  assumes "to_vec A x = Inr v"
  shows "account_at A (fold apply_op (account_ops v a slot x old) c) b = (if b = a then (account_at A c b)(slot \<mapsto> x) else account_at A c b)"
    and "pointer_of (fold apply_op (account_ops v a slot x old) c) b = (if b = a then Some slot else pointer_of c b)"
    and "accounts_ok A c \<Longrightarrow> accounts_ok A (fold apply_op (account_ops v a slot x old) c)"
proof -
  let ?c = "fold apply_op (account_ops v a slot x old) c"
  show "account_at A ?c b = (if b = a then (account_at A c b)(slot \<mapsto> x) else account_at A c b)"
    using acc.deserialize_to_vec_exact [OF assms] by (auto simp: account_at_def account_ops_tables fun_eq_iff)
  show "pointer_of ?c b = (if b = a then Some slot else pointer_of c b)"
    by (simp add: pointer_of_def account_ops_tables slot_key_def)
  assume ok: "accounts_ok A c"
  show "accounts_ok A ?c"
  proof (rule accounts_okI)
    fix k w
    assume "?c CF_ACCOUNTS k = Some w"
    then show "\<exists>a s x. k = account_key a s \<and> to_vec A x = Inr w"
      using accounts_okD(1) [OF ok, of k w] assms by (cases "k = account_key a slot") (auto simp: account_ops_tables)
  next
    fix k w
    assume "?c CF_ACCOUNT_INDEX k = Some w"
    then show "\<exists>b s. k = hash_bytes b \<and> w = slot_key s \<and> ?c CF_ACCOUNTS (account_key b s) \<noteq> None"
      using accounts_okD(2) [OF ok, of k w] by (cases "k = hash_bytes a") (auto simp: account_ops_tables)
  qed
qed

lemma put_account_run:
  assumes ok: "accounts_ok A (db_get D d)" and v: "to_vec A x = Inr v"
  shows "put_account D A a slot x d =
    (Ok (), db_apply D d (account_ops v a slot x (current A (db_get D d) a)))"
  by (simp add: put_account_def prepare_account_write_def append_account_write_def run_simps get_account_run [OF ok]
      write_account_run [OF v] storage_write_run)

end

section \<open>Moving pointers\<close>

definition repoint_op :: "hash \<Rightarrow> u64 option \<Rightarrow> batch_op" where
  "repoint_op a t = (case t of Some s \<Rightarrow> BatchPut CF_ACCOUNT_INDEX (hash_bytes a) (slot_key s)
                             | None \<Rightarrow> BatchDelete CF_ACCOUNT_INDEX (hash_bytes a))"

definition repoint_ops :: "(hash \<Rightarrow> u64 option) \<Rightarrow> hash list \<Rightarrow> write_batch" where
  "repoint_ops f as = map (\<lambda>a. repoint_op a (f a)) as"

lemma repoint_append: "repoint a t batch = batch @ [repoint_op a t]"
  by (simp add: repoint_def repoint_op_def batch_put_def batch_delete_def split: option.splits)

lemma op_cf_repoint [simp]: "op_cf (repoint_op a t) = CF_ACCOUNT_INDEX"
  by (simp add: repoint_op_def op_cf_def split: option.splits)

lemma repoint_ops_cf [simp]: "cf \<noteq> CF_ACCOUNT_INDEX \<Longrightarrow> fold apply_op (repoint_ops f as) c cf = c cf"
  by (rule apply_other_cf) (auto simp: repoint_ops_def)

lemma ops_ok_repoint [simp]: "ops_ok (repoint_ops f as)"
  by (induction "as") (simp_all add: repoint_ops_def)

lemma repoint_ops_index:
  "fold apply_op (repoint_ops f as) c CF_ACCOUNT_INDEX =
     (\<lambda>k. if k \<in> hash_bytes ` set as then map_option slot_key (f (of_be k)) else c CF_ACCOUNT_INDEX k)"
proof (induction "as" arbitrary: c)
  case (Cons a "as")
  have "apply_op (repoint_op a (f a)) c CF_ACCOUNT_INDEX = (c CF_ACCOUNT_INDEX)(hash_bytes a := map_option slot_key (f a))"
    by (cases "f a") (simp_all add: repoint_op_def)
  with Cons show ?case by (auto simp: repoint_ops_def fun_eq_iff)
qed (simp add: repoint_ops_def)

lemma repoint_pointer:
  "pointer_of (fold apply_op (repoint_ops f as) c) a = (if a \<in> set as then f a else pointer_of c a)"
proof (cases "a \<in> set as")
  case True
  then have "hash_bytes a \<in> hash_bytes ` set as" by simp
  with True show ?thesis by (cases "f a") (simp_all add: pointer_of_def repoint_ops_index slot_key_def)
next
  case False
  then have "hash_bytes a \<notin> hash_bytes ` set as" by auto
  with False show ?thesis by (simp add: pointer_of_def repoint_ops_index)
qed

lemma repoint_account_at [simp]: "account_at A (fold apply_op (repoint_ops f as) c) = account_at A c"
  by (simp add: account_at_def fun_eq_iff)

text \<open>The addresses of the index entries whose slot satisfies a test.\<close>

definition stale :: "(u64 \<Rightarrow> bool) \<Rightarrow> (bytes \<times> bytes) list \<Rightarrow> hash list" where
  "stale P iter = map (\<lambda>(k, _). of_be k) (filter (\<lambda>(_, v). P (of_be v)) iter)"

lemma stale_simps [simp]:
  "stale P [] = []" "stale P ((hash_bytes a, slot_key s) # iter) = (if P s then a # stale P iter else stale P iter)"
  by (simp_all add: stale_def slot_key_def)

lemma repoint_ops_simps [simp]: "repoint_ops f [] = []" "repoint_ops f (a # as) = repoint_op a (f a) # repoint_ops f as"
  by (simp_all add: repoint_ops_def)

lemma index_entry_run:
  "index_entry (hash_bytes a) (slot_key s) d = (Ok (), d)"
  "try_slot (take 8 (slot_key s)) m d = (Ok s, d)" "try_hash (hash_bytes a) m d = (Ok a, d)"
  by (simp_all add: index_entry_def try_slot_def try_hash_def slot_key_def run_simps)

context account_store
begin

lemma repoint_ok:
  assumes ok: "accounts_ok A c" and f: "\<And>a s. a \<in> set as \<Longrightarrow> f a = Some s \<Longrightarrow> account_at A c a s \<noteq> None"
  shows "accounts_ok A (fold apply_op (repoint_ops f as) c)"
proof (rule accounts_okI)
  fix k v
  assume "fold apply_op (repoint_ops f as) c CF_ACCOUNTS k = Some v"
  then show "\<exists>a s x. k = account_key a s \<and> to_vec A x = Inr v" using accounts_okD(1) [OF ok] by simp
next
  fix k v
  assume kv: "fold apply_op (repoint_ops f as) c CF_ACCOUNT_INDEX k = Some v"
  show "\<exists>a s. k = hash_bytes a \<and> v = slot_key s \<and> fold apply_op (repoint_ops f as) c CF_ACCOUNTS (account_key a s) \<noteq> None"
  proof (cases "k \<in> hash_bytes ` set as")
    case True
    then obtain a where a: "a \<in> set as" "k = hash_bytes a" by blast
    with kv obtain s where "f a = Some s" "v = slot_key s" by (auto simp: repoint_ops_index)
    with f [OF a(1)] a account_at_None [OF ok, of a s] show ?thesis by auto
  next
    case False
    with kv accounts_okD(2) [OF ok, of k v] show ?thesis by (simp add: repoint_ops_index)
  qed
qed

lemma index_entries:
  assumes "accounts_ok A (db_get D d)" and "e \<in> set (db_seek D d CF_ACCOUNT_INDEX [])"
  obtains a s where "e = (hash_bytes a, slot_key s)"
proof -
  obtain k v where e: "e = (k, v)" by fastforce
  with assms(2) have "db_get D d CF_ACCOUNT_INDEX k = Some v" by (simp add: seek_set)
  from accounts_okD(2) [OF assms(1) this] that e show thesis by blast
qed

lemma set_stale:
  assumes ok: "accounts_ok A (db_get D d)"
  shows "a \<in> set (stale P (db_seek D d CF_ACCOUNT_INDEX [])) \<longleftrightarrow> (\<exists>s. pointer_of (db_get D d) a = Some s \<and> P s)"
proof
  assume "a \<in> set (stale P (db_seek D d CF_ACCOUNT_INDEX []))"
  then obtain k v where e: "(k, v) \<in> set (db_seek D d CF_ACCOUNT_INDEX [])" "a = of_be k" "P (of_be v)"
    by (auto simp: stale_def)
  from index_entries [OF ok e(1)] obtain b s where "k = hash_bytes b" "v = slot_key s" by blast
  with e seek_set [of d CF_ACCOUNT_INDEX "[]"] show "\<exists>s. pointer_of (db_get D d) a = Some s \<and> P s"
    by (auto simp: pointer_of_def slot_key_def)
next
  assume "\<exists>s. pointer_of (db_get D d) a = Some s \<and> P s"
  then obtain v where v: "db_get D d CF_ACCOUNT_INDEX (hash_bytes a) = Some v" "P (of_be v)" by (auto simp: pointer_of_def)
  then have "(hash_bytes a, v) \<in> set (db_seek D d CF_ACCOUNT_INDEX [])" by (simp add: seek_set)
  with v(2) show "a \<in> set (stale P (db_seek D d CF_ACCOUNT_INDEX []))" by (force simp: stale_def)
qed

lemma rewind_each_run:
  assumes ok: "accounts_ok A (db_get D d)" and "\<forall>e \<in> set iter. \<exists>a s. e = (hash_bytes a, slot_key s)"
  shows "rewind_each D A n iter batch count d =
    (Ok (batch @ repoint_ops (version_slot A (db_get D d) n) (stale (\<lambda>s. n < s) iter),
         count + of_nat (length (stale (\<lambda>s. n < s) iter))), d)"
  using assms(2)
proof (induction iter arbitrary: batch count)
  case (Cons e iter)
  then obtain a s where e: "e = (hash_bytes a, slot_key s)" by auto
  show ?case
    using Cons by (cases "n < s") (simp_all add: e index_entry_run run_simps find_latest_run [OF ok] repoint_append version_slot_def)
qed (simp add: run_simps)

lemma write_unless_empty_run: "ops_ok ops \<Longrightarrow> \<exists>d'. write_unless_empty D (ops, n) d = (Ok n, d') \<and> db_get D d' = fold apply_op ops (db_get D d)"
  by (cases "ops = []") (simp_all add: write_unless_empty_def run_simps storage_write_run get_apply)

lemma rewind_run:
  assumes ok: "accounts_ok A (db_get D d)"
  shows "\<exists>count d'. rewind_account_index_to_slot D A n d = (Ok count, d') \<and>
    db_get D d' = fold apply_op (repoint_ops (version_slot A (db_get D d) n) (stale (\<lambda>s. n < s) (db_seek D d CF_ACCOUNT_INDEX []))) (db_get D d)"
proof -
  let ?it = "db_seek D d CF_ACCOUNT_INDEX []"
  have "\<forall>e \<in> set ?it. \<exists>a s. e = (hash_bytes a, slot_key s)" using index_entries [OF ok] by blast
  note run = rewind_each_run [OF ok this, of n "[]" 0]
  obtain d' where "write_unless_empty D (repoint_ops (version_slot A (db_get D d) n) (stale (\<lambda>s. n < s) ?it), of_nat (length (stale (\<lambda>s. n < s) ?it))) d
      = (Ok (of_nat (length (stale (\<lambda>s. n < s) ?it))), d')"
    "db_get D d' = fold apply_op (repoint_ops (version_slot A (db_get D d) n) (stale (\<lambda>s. n < s) ?it)) (db_get D d)"
    using write_unless_empty_run [OF ops_ok_repoint] by blast
  with run show ?thesis by (simp add: rewind_account_index_to_slot_def cf_handle_def run_simps)
qed

lemma seek_version_run:
  assumes "sorted_wrt (\<lambda>x y. fst y < fst x) iter"
    and "\<forall>e \<in> set iter. fst e \<le> account_key a (- 1) \<and> (\<exists>b s x. fst e = account_key b s \<and> deserialize A (snd e) = Inr x)"
    and chk: "\<forall>v x. deserialize A v = Inr x \<longrightarrow> check v d = (Ok (), d)"
  shows "\<exists>r. seek_version P check a iter d = (Ok r, d) \<and>
    (case r of None \<Rightarrow> \<forall>t. P t \<longrightarrow> account_key a t \<notin> fst ` set iter
     | Some s \<Rightarrow> P s \<and> account_key a s \<in> fst ` set iter \<and> (\<forall>t. P t \<longrightarrow> account_key a t \<in> fst ` set iter \<longrightarrow> t \<le> s))"
  using assms(1,2)
proof (induction iter)
  case (Cons e iter)
  then obtain b s v x where e: "e = (account_key b s, v)" and x: "deserialize A v = Inr x"
    by (cases e) auto
  have le: "account_key b s \<le> account_key a (- 1)" using Cons.prems(2) by (simp add: e)
  have below: "k < account_key b s" if "k \<in> fst ` set iter" for k using Cons.prems(1) that by (auto simp: e)
  have slot: "try_slot (be_bytes 8 s) m d = (Ok s, d)" for m by (simp add: try_slot_def run_simps)
  show ?case
  proof (cases "b = a")
    case False
    have "account_key a t \<notin> fst ` set (e # iter)" for t
    proof
      assume "account_key a t \<in> fst ` set (e # iter)"
      with False have "account_key a t < account_key b s" using below by (auto simp: e)
      with account_key_between [OF less_imp_le le] False show False by blast
    qed
    with False show ?thesis by (simp add: e run_simps)
  next
    case True
    show ?thesis
    proof (cases "P s")
      case P: True
      have "t \<le> s" if "account_key a t \<in> fst ` set (e # iter)" for t
      proof -
        have "account_key a t \<le> account_key a s"
          using that below [of "account_key a t"] by (cases "account_key a t \<in> fst ` set iter") (simp_all add: e True)
        then show ?thesis by simp
      qed
      with P True show ?thesis
        by (intro exI [of _ "Some s"]) (simp add: e run_simps slot chk x)
    next
      case P: False
      obtain r where r: "seek_version P check a iter d = (Ok r, d)"
        "case r of None \<Rightarrow> \<forall>t. P t \<longrightarrow> account_key a t \<notin> fst ` set iter
         | Some s \<Rightarrow> P s \<and> account_key a s \<in> fst ` set iter \<and> (\<forall>t. P t \<longrightarrow> account_key a t \<in> fst ` set iter \<longrightarrow> t \<le> s)"
        using Cons by auto
      then have "seek_version P check a (e # iter) d = (Ok r, d)" using True P by (simp add: e run_simps slot)
      with r(2) P show ?thesis by (intro exI [of _ r]) (auto simp: e True split: option.splits)
    qed
  qed
qed (simp add: run_simps)

lemma best_version_run:
  assumes ok: "accounts_ok A (db_get D d)" and chk: "\<forall>v x. deserialize A v = Inr x \<longrightarrow> check v d = (Ok (), d)"
  shows "best_version D P check a d = (Ok (best_slot A (db_get D d) P a), d)"
proof -
  let ?it = "db_seek_rev D d CF_ACCOUNTS (account_key a (- 1))"
  let ?m = "\<lambda>s. if P s then account_at A (db_get D d) a s else None"
  have mem: "account_key a t \<in> fst ` set ?it \<longleftrightarrow> account_at A (db_get D d) a t \<noteq> None" for t
    by (force simp: seek_rev_set account_at_None [OF ok] image_iff)
  have "\<forall>e \<in> set ?it. fst e \<le> account_key a (- 1) \<and> (\<exists>b s x. fst e = account_key b s \<and> deserialize A (snd e) = Inr x)"
    using stored_version [OF ok] by (fastforce simp: seek_rev_set)
  from seek_version_run [of ?it a check d P, OF seek_rev_sorted this chk] obtain r where
    run: "seek_version P check a ?it d = (Ok r, d)" and
    r: "case r of None \<Rightarrow> \<forall>t. P t \<longrightarrow> account_key a t \<notin> fst ` set ?it
        | Some s \<Rightarrow> P s \<and> account_key a s \<in> fst ` set ?it \<and> (\<forall>t. P t \<longrightarrow> account_key a t \<in> fst ` set ?it \<longrightarrow> t \<le> s)"
    by blast
  have "r = map_option fst (latest ?m (- 1))"
  proof (cases r)
    case None
    with r have "latest ?m (- 1) = None" by (simp add: latest_None mem)
    with None show ?thesis by simp
  next
    case (Some s)
    with r obtain x where "P s" "account_at A (db_get D d) a s = Some x" by (auto simp: mem)
    moreover have "?m u = None" if "s < u" for u using r Some that by (auto simp: mem dest: leD)
    ultimately have "latest ?m (- 1) = Some (s, x)" by (simp add: latest_Some)
    with Some show ?thesis by simp
  qed
  with run show ?thesis by (simp add: best_version_def best_slot_def cf_handle_def run_simps)
qed

lemma rewind_ancestry_each_run:
  assumes ok: "accounts_ok A (db_get D d)" and "\<forall>e \<in> set iter. \<exists>a s. e = (hash_bytes a, slot_key s)"
  shows "rewind_ancestry_each D A S iter batch count d =
    (Ok (batch @ repoint_ops (best_slot A (db_get D d) (kept_slot S)) (stale (\<lambda>s. \<not> kept_slot S s) iter),
         count + of_nat (length (stale (\<lambda>s. \<not> kept_slot S s) iter))), d)"
  using assms(2)
proof (induction iter arbitrary: batch count)
  case (Cons e iter)
  then obtain a s where e: "e = (hash_bytes a, slot_key s)" by auto
  have "best_version D (\<lambda>s. s \<le> root_of S \<or> s \<in> S) (\<lambda>value. then_r (decode A value) (return ())) a d =
      (Ok (best_slot A (db_get D d) (kept_slot S) a), d)"
    unfolding kept_slot_def by (rule best_version_run [OF ok]) (auto simp: decode_def run_simps)
  then show ?case
    using Cons by (cases "kept_slot S s") (simp_all add: e index_entry_run run_simps repoint_append kept_slot_def [of S s])
qed (simp add: run_simps)

lemma rewind_ancestry_run:
  assumes ok: "accounts_ok A (db_get D d)"
  shows "\<exists>count d'. rewind_account_index_for_ancestry D A S d = (Ok count, d') \<and>
    db_get D d' = fold apply_op (repoint_ops (best_slot A (db_get D d) (kept_slot S))
      (stale (\<lambda>s. \<not> kept_slot S s) (db_seek D d CF_ACCOUNT_INDEX []))) (db_get D d)"
proof -
  let ?it = "db_seek D d CF_ACCOUNT_INDEX []" and ?f = "best_slot A (db_get D d) (kept_slot S)"
  let ?as = "stale (\<lambda>s. \<not> kept_slot S s) ?it"
  have "\<forall>e \<in> set ?it. \<exists>a s. e = (hash_bytes a, slot_key s)" using index_entries [OF ok] by blast
  note run = rewind_ancestry_each_run [OF ok this, of S "[]" 0]
  obtain d' where "write_unless_empty D (repoint_ops ?f ?as, of_nat (length ?as)) d = (Ok (of_nat (length ?as)), d')"
    "db_get D d' = fold apply_op (repoint_ops ?f ?as) (db_get D d)"
    using write_unless_empty_run [OF ops_ok_repoint] by blast
  with run show ?thesis by (simp add: rewind_account_index_for_ancestry_def cf_handle_def run_simps)
qed

text \<open>What is left when the pointers that fail a test are moved to stored versions that pass it.\<close>

lemma moved_pointers:
  assumes ok: "accounts_ok A (db_get D d)"
    and d': "db_get D d' = fold apply_op (repoint_ops f (stale (\<lambda>s. \<not> K s) (db_seek D d CF_ACCOUNT_INDEX []))) (db_get D d)"
    and f: "\<forall>a s. f a = Some s \<longrightarrow> account_at A (db_get D d) a s \<noteq> None \<and> K s"
  shows "accounts_ok A (db_get D d')" and "account_at A (db_get D d') = account_at A (db_get D d)"
    and "pointer_of (db_get D d') a = (case pointer_of (db_get D d) a of None \<Rightarrow> None | Some s \<Rightarrow> if K s then Some s else f a)"
    and "pointer_of (db_get D d') a = Some s \<Longrightarrow> K s"
proof -
  show "accounts_ok A (db_get D d')" unfolding d' by (rule repoint_ok [OF ok]) (use f in blast)
  show "account_at A (db_get D d') = account_at A (db_get D d)" by (simp add: d')
  show p: "pointer_of (db_get D d') a = (case pointer_of (db_get D d) a of None \<Rightarrow> None | Some s \<Rightarrow> if K s then Some s else f a)"
    unfolding d' repoint_pointer set_stale [OF ok] by (auto split: option.splits)
  show "pointer_of (db_get D d') a = Some s \<Longrightarrow> K s"
    using f unfolding p by (auto split: option.splits if_splits)
qed

end

text \<open>The pointer of an address names its newest version.\<close>

definition newest :: "account codec \<Rightarrow> contents \<Rightarrow> hash \<Rightarrow> bool" where
  "newest A c a \<longleftrightarrow> pointer_of c a = version_slot A c (- 1) a"

lemma moved_read:
  assumes "account_at A c' = account_at A c"
    and "pointer_of c' a = (case pointer_of c a of None \<Rightarrow> None | Some s \<Rightarrow> if s \<le> n then Some s else version_slot A c n a)"
  shows "current A c' a = (case pointer_of c a of None \<Rightarrow> None
    | Some s \<Rightarrow> if s \<le> n then current A c a else map_option snd (latest (account_at A c a) n))"
  using assms by (cases "latest (account_at A c a) n")
    (auto simp: current_def version_slot_def latest_Some split: option.splits)

lemma newest_as_of:
  assumes "newest A c a" and "account_at A c' = account_at A c"
    and "pointer_of c' a = (case pointer_of c a of None \<Rightarrow> None | Some s \<Rightarrow> if s \<le> n then Some s else version_slot A c n a)"
  shows "current A c' a = map_option snd (latest (account_at A c a) n)"
proof (cases "pointer_of c a")
  case None
  then have "latest (account_at A c a) (- 1) = None" using assms(1) by (simp add: newest_def version_slot_def)
  then have "latest (account_at A c a) n = None" by (simp add: latest_None)
  with None assms(3) show ?thesis by (simp add: current_def)
next
  case (Some s)
  then obtain x where x: "latest (account_at A c a) (- 1) = Some (s, x)"
    using assms(1) by (cases "latest (account_at A c a) (- 1)") (auto simp: newest_def version_slot_def)
  show ?thesis
  proof (cases "s \<le> n")
    case True
    with x have l: "latest (account_at A c a) n = Some (s, x)" by (simp add: latest_Some)
    from x have "account_at A c a s = Some x" by (simp add: latest_Some)
    with Some True assms(2,3) show ?thesis by (simp add: current_def l)
  next
    case False
    then show ?thesis
      using Some assms(2,3)
      by (cases "latest (account_at A c a) n") (auto simp: current_def version_slot_def latest_Some)
  qed
qed

section \<open>Properties of the account tables\<close>

text \<open>Reading an account as of a slot gives the version written at the greatest slot not above it, and reading the
  current account gives the version its pointer names; neither changes the database.\<close>

theorem account_reads_spec:
  assumes "kv_store D" and "borsh_codec A" and "accounts_ok A (db_get D d)"
  shows "get_account_at_slot D A a s d = (Ok (map_option snd (latest (account_at A (db_get D d) a) s)), d) \<and>
    get_account_db D A a d = (Ok (current A (db_get D d) a), d)"
proof -
  have st: "account_store D A" using assms(1,2) by (rule account_store.intro)
  show ?thesis
    using account_store.get_account_at_slot_run [OF st assms(3)] account_store.get_account_run [OF st assms(3)] by blast
qed

text \<open>Writing an account makes it the current version of its address and the version of that slot, changes no other
  version and no other address, and keeps the tables well-formed; it fails only if the account cannot be encoded.\<close>

theorem put_account_spec:
  assumes "kv_store D" and "borsh_codec A" and ok: "accounts_ok A (db_get D d)" and v: "to_vec A x = Inr v"
  shows "\<exists>d'. put_account D A a slot x d = (Ok (), d') \<and> accounts_ok A (db_get D d') \<and>
    get_account_db D A a d' = (Ok (Some x), d') \<and> account_at A (db_get D d') a = (account_at A (db_get D d) a)(slot \<mapsto> x) \<and>
    (\<forall>b. b \<noteq> a \<longrightarrow> account_at A (db_get D d') b = account_at A (db_get D d) b \<and> get_account_db D A b d' = (fst (get_account_db D A b d), d'))"
proof -
  have st: "account_store D A" using assms(1,2) by (rule account_store.intro)
  let ?d = "db_apply D d (account_ops v a slot x (current A (db_get D d) a))"
  have c: "db_get D ?d = fold apply_op (account_ops v a slot x (current A (db_get D d) a)) (db_get D d)"
    by (rule kv_store.get_apply [OF assms(1)])
  note view = account_store.write_view [OF st v, where a = a and slot = slot and old = "current A (db_get D d) a" and c = "db_get D d", folded c]
  note ok' = view(3) [OF ok]
  have "current A (db_get D ?d) b = (if b = a then Some x else current A (db_get D d) b)" for b
    unfolding current_def [of A "db_get D ?d"] view by (simp add: current_def [of A "db_get D d" b])
  then show ?thesis
    using account_store.put_account_run [OF st ok v, of a slot] ok' view(1)
    by (intro exI [of _ ?d]) (simp add: account_store.get_account_run [OF st] ok)
qed

text \<open>C31: Rewinding the account index to a slot always succeeds and keeps every version. A pointer at or below the slot
  stays, so its account reads as before; a pointer above the slot moves to the newest version at or below it, or goes if
  there is none, so its account reads as it was at that slot; no pointer appears. An address whose pointer named its
  newest version therefore reads as of the slot, and no pointer is left above it.\<close>

theorem rewind_spec:
  assumes "kv_store D" and "borsh_codec A" and ok: "accounts_ok A (db_get D d)"
  shows "\<exists>count d'. rewind_account_index_to_slot D A n d = (Ok count, d') \<and> accounts_ok A (db_get D d') \<and>
    account_at A (db_get D d') = account_at A (db_get D d) \<and>
    (\<forall>a. pointer_of (db_get D d') a = (case pointer_of (db_get D d) a of
        None \<Rightarrow> None | Some s \<Rightarrow> if s \<le> n then Some s else version_slot A (db_get D d) n a)) \<and>
    (\<forall>a. get_account_db D A a d' = (case pointer_of (db_get D d) a of
        None \<Rightarrow> (Ok None, d')
      | Some s \<Rightarrow> (fst (if s \<le> n then get_account_db D A a d else get_account_at_slot D A a n d), d'))) \<and>
    (\<forall>a s. pointer_of (db_get D d') a = Some s \<longrightarrow> s \<le> n) \<and>
    (\<forall>a. newest A (db_get D d) a \<longrightarrow> get_account_db D A a d' = (fst (get_account_at_slot D A a n d), d'))"
proof -
  have st: "account_store D A" using assms(1,2) by (rule account_store.intro)
  have eq: "(\<lambda>s. n < s) = (\<lambda>s. \<not> s \<le> n)" by (simp add: fun_eq_iff not_le)
  obtain count d' where run: "rewind_account_index_to_slot D A n d = (Ok count, d')"
    and d': "db_get D d' = fold apply_op (repoint_ops (version_slot A (db_get D d) n)
      (stale (\<lambda>s. \<not> s \<le> n) (db_seek D d CF_ACCOUNT_INDEX []))) (db_get D d)"
    using account_store.rewind_run [OF st ok, of n] by (auto simp: eq)
  have f: "\<forall>a s. version_slot A (db_get D d) n a = Some s \<longrightarrow> account_at A (db_get D d) a s \<noteq> None \<and> s \<le> n"
    by (auto simp: version_slot_def latest_Some)
  note mv = account_store.moved_pointers [OF st ok d' f]
  note get = account_store.get_account_run [OF st] and at = account_store.get_account_at_slot_run [OF st ok]
  have "get_account_db D A a d' = (case pointer_of (db_get D d) a of
        None \<Rightarrow> (Ok None, d')
      | Some s \<Rightarrow> (fst (if s \<le> n then get_account_db D A a d else get_account_at_slot D A a n d), d'))" for a
    using moved_read [OF mv(2) mv(3) [of a]] by (auto simp: get [OF mv(1)] get [OF ok] at split: option.splits)
  moreover have "get_account_db D A a d' = (fst (get_account_at_slot D A a n d), d')" if "newest A (db_get D d) a" for a
    using newest_as_of [OF that mv(2) mv(3)] by (simp add: get [OF mv(1)] at)
  ultimately show ?thesis using run mv by blast
qed

text \<open>Rewinding to an ancestry leaves only pointers to slots of the ancestry or at or below its root, and keeps every
  version and every pointer that was such already.\<close>

theorem rewind_ancestry_spec:
  assumes "kv_store D" and "borsh_codec A" and ok: "accounts_ok A (db_get D d)"
  shows "\<exists>count d'. rewind_account_index_for_ancestry D A S d = (Ok count, d') \<and> accounts_ok A (db_get D d') \<and>
    account_at A (db_get D d') = account_at A (db_get D d) \<and>
    (\<forall>a s. pointer_of (db_get D d') a = Some s \<longrightarrow> s \<le> root_of S \<or> s \<in> S) \<and>
    (\<forall>a s. pointer_of (db_get D d) a = Some s \<longrightarrow> pointer_of (db_get D d') a =
       (if s \<le> root_of S \<or> s \<in> S then Some s else best_slot A (db_get D d) (\<lambda>t. t \<le> root_of S \<or> t \<in> S) a))"
proof -
  have st: "account_store D A" using assms(1,2) by (rule account_store.intro)
  obtain count d' where run: "rewind_account_index_for_ancestry D A S d = (Ok count, d')"
    and d': "db_get D d' = fold apply_op (repoint_ops (best_slot A (db_get D d) (kept_slot S))
      (stale (\<lambda>s. \<not> kept_slot S s) (db_seek D d CF_ACCOUNT_INDEX []))) (db_get D d)"
    using account_store.rewind_ancestry_run [OF st ok, of S] by blast
  have f: "\<forall>a s. best_slot A (db_get D d) (kept_slot S) a = Some s \<longrightarrow> account_at A (db_get D d) a s \<noteq> None \<and> kept_slot S s"
    using best_slot_stored by blast
  note mv = account_store.moved_pointers [OF st ok d' f]
  have k: "kept_slot S = (\<lambda>t. t \<le> root_of S \<or> t \<in> S)" by (simp add: fun_eq_iff kept_slot_def)
  have "pointer_of (db_get D d') a = (if s \<le> root_of S \<or> s \<in> S then Some s
      else best_slot A (db_get D d) (\<lambda>t. t \<le> root_of S \<or> t \<in> S) a)" if "pointer_of (db_get D d) a = Some s" for a s
    using mv(3) [of a] that by (simp add: k)
  moreover have "s \<le> root_of S \<or> s \<in> S" if "pointer_of (db_get D d') a = Some s" for a s
    using mv(4) [OF that] by (simp add: kept_slot_def)
  ultimately show ?thesis using run mv(1,2) by blast
qed

section \<open>The owner index\<close>

text \<open>The index lists an address under an owner exactly if the current version of the account has that owner.\<close>

definition owner_ok :: "account codec \<Rightarrow> contents \<Rightarrow> bool" where
  "owner_ok A c \<longleftrightarrow>
     (\<forall>k v. c CF_OWNER_INDEX k = Some v \<longrightarrow> (\<exists>w a. k = owner_index_key w a)) \<and>
     (\<forall>w a. c CF_OWNER_INDEX (owner_index_key w a) \<noteq> None \<longleftrightarrow> map_option acc_owner (current A c a) = Some w)"

lemma owner_okD:
  assumes "owner_ok A c"
  shows "c CF_OWNER_INDEX k = Some v \<Longrightarrow> \<exists>w a. k = owner_index_key w a"
    and "c CF_OWNER_INDEX (owner_index_key w a) \<noteq> None \<longleftrightarrow> map_option acc_owner (current A c a) = Some w"
  using assms unfolding owner_ok_def by blast+

lemma owner_index_key_inj [simp]: "owner_index_key v a = owner_index_key w b \<longleftrightarrow> v = w \<and> a = b"
  by (auto simp: owner_index_key_def)

lemma owner_index_key_parts [simp]:
  "length (owner_index_key w a) = 128" "take 64 (owner_index_key w a) = hash_bytes w" "take 64 (drop 64 (owner_index_key w a)) = hash_bytes a"
  by (simp_all add: owner_index_key_def)

definition owner_changed :: "account option \<Rightarrow> account \<Rightarrow> bool" where
  "owner_changed old new \<longleftrightarrow> map_option acc_owner old \<noteq> Some (acc_owner new)"

lemma takeWhile_sorted:
  assumes "sorted_wrt (\<lambda>x y. fst x < fst y) xs"
    and "\<And>x y. x \<in> set xs \<Longrightarrow> y \<in> set xs \<Longrightarrow> fst x < fst y \<Longrightarrow> P y \<Longrightarrow> P x"
  shows "takeWhile P xs = filter P xs"
  using assms
proof (induction xs)
  case (Cons x xs)
  have IH: "takeWhile P xs = filter P xs" by (rule Cons.IH) (use Cons.prems in auto)
  have "\<forall>y \<in> set xs. \<not> P y" if "\<not> P x" using Cons.prems that by fastforce
  with IH show ?case by (auto simp: filter_empty_conv)
qed simp

lemma sorted_singleton: "set xs = {e} \<Longrightarrow> sorted_wrt (\<lambda>x y. fst x < (fst y :: 'k::linorder)) xs \<Longrightarrow> xs = [e]"
  by (cases xs) (auto, case_tac list, auto)

lemma index_ops_owner:
  "fold apply_op (index_ops a old new) c CF_OWNER_INDEX k =
     (if \<not> owner_changed old new then c CF_OWNER_INDEX k
      else if k = owner_index_key (acc_owner new) a then Some []
      else if map_option (\<lambda>x. owner_index_key (acc_owner x) a) old = Some k then None else c CF_OWNER_INDEX k)"
  by (cases old) (auto simp: index_ops_def write_index_updates_def batch_put_def batch_delete_def owner_changed_def Let_def)

lemma account_ops_owner:
  "fold apply_op (account_ops v a slot new old) c CF_OWNER_INDEX k =
     (if \<not> owner_changed old new then c CF_OWNER_INDEX k
      else if k = owner_index_key (acc_owner new) a then Some []
      else if map_option (\<lambda>x. owner_index_key (acc_owner x) a) old = Some k then None else c CF_OWNER_INDEX k)"
  by (simp add: account_ops_def index_ops_owner del: map_option_eq_Some)

context account_store
begin

lemma owner_ok_write:
  assumes ok: "owner_ok A c" and v: "to_vec A x = Inr v"
  shows "owner_ok A (fold apply_op (account_ops v a slot x (current A c a)) c)"
proof -
  let ?c = "fold apply_op (account_ops v a slot x (current A c a)) c"
  note o = account_ops_owner [of v a slot x "current A c a" c]
  have cur: "current A ?c b = (if b = a then Some x else current A c b)" for b
    unfolding current_def [of A ?c] write_view [OF v] by (simp add: current_def [of A c b])
  have "\<exists>w b. k = owner_index_key w b" if "?c CF_OWNER_INDEX k = Some u" for k u
    using that ok unfolding o owner_ok_def by (auto split: if_splits)
  moreover have "?c CF_OWNER_INDEX (owner_index_key w b) \<noteq> None \<longleftrightarrow> map_option acc_owner (current A ?c b) = Some w" for w b
  proof (cases "b = a")
    case True
    have "c CF_OWNER_INDEX (owner_index_key w a) \<noteq> None \<longleftrightarrow> map_option acc_owner (current A c a) = Some w"
      using ok by (simp add: owner_ok_def)
    then show ?thesis unfolding o cur True
      by (cases "current A c a"; cases "c CF_OWNER_INDEX (owner_index_key w a)") (auto simp: owner_changed_def)
  next
    case False
    have "c CF_OWNER_INDEX (owner_index_key w b) \<noteq> None \<longleftrightarrow> map_option acc_owner (current A c b) = Some w"
      using ok by (simp add: owner_ok_def)
    with False show ?thesis unfolding o cur by (cases "current A c a") simp_all
  qed
  ultimately show ?thesis unfolding owner_ok_def by blast
qed

text \<open>The entries of one owner at the front of a forward seek.\<close>

definition owned :: "hash \<Rightarrow> 'd \<Rightarrow> (bytes \<times> bytes) list \<Rightarrow> (hash \<times> account) list" where
  "owned w d iter = map (\<lambda>(k, _). let a = of_be (drop 64 k) in (a, the (current A (db_get D d) a)))
     (takeWhile (\<lambda>(k, _). length k = 128 \<and> take 64 k = hash_bytes w) iter)"

lemma query_each_run:
  assumes ok: "accounts_ok A (db_get D d)" "owner_ok A (db_get D d)"
    and "\<forall>e \<in> set iter. db_get D d CF_OWNER_INDEX (fst e) \<noteq> None" and "length results < limit"
  shows "query_each D A w limit iter results d = (Ok (results @ take (limit - length results) (owned w d iter)), d)"
  using assms(3,4)
proof (induction iter arbitrary: results)
  case (Cons e iter)
  obtain k v where e: "e = (k, v)" by fastforce
  with Cons.prems(1) ok(2) obtain u a where k: "k = owner_index_key u a"
    by (fastforce simp: owner_ok_def)
  from Cons.prems(1) ok(2) obtain x where x: "current A (db_get D d) a = Some x"
    by (auto simp: owner_ok_def e k)
  show ?case
  proof (cases "u = w")
    case True
    have h: "try_hash (hash_bytes a) m d = (Ok a, d)" for m by (simp add: try_hash_def run_simps)
    have "of_be (drop 64 (owner_index_key w a)) = a" by (simp add: owner_index_key_def)
    then have o: "owned w d (e # iter) = (a, x) # owned w d iter"
      by (simp add: owned_def e k True x)
    have q: "query_each D A w limit (e # iter) results d =
      (if limit \<le> length (results @ [(a, x)]) then (Ok (results @ [(a, x)]), d) else query_each D A w limit iter (results @ [(a, x)]) d)"
      by (simp add: e k True run_simps h get_account_run [OF ok(1)] x)
    show ?thesis
    proof (cases "limit \<le> length (results @ [(a, x)])")
      case True
      with Cons.prems(2) have "limit - length results = 1" by simp
      with q True show ?thesis by (simp add: o)
    next
      case False
      with Cons.prems(2) have "limit - length results = Suc (limit - length (results @ [(a, x)]))" by simp
      with q False Cons show ?thesis by (simp add: o)
    qed
  next
    case False
    then show ?thesis by (simp add: e k owned_def run_simps)
  qed
qed (simp add: owned_def run_simps)

lemma owned_set:
  assumes ok: "owner_ok A (db_get D d)"
  shows "set (owned w d (db_seek D d CF_OWNER_INDEX (hash_bytes w))) = {(a, x). current A (db_get D d) a = Some x \<and> acc_owner x = w}"
    and "distinct (map fst (owned w d (db_seek D d CF_OWNER_INDEX (hash_bytes w))))"
proof -
  let ?it = "db_seek D d CF_OWNER_INDEX (hash_bytes w)"
  let ?P = "\<lambda>(k :: bytes, _ :: bytes). length k = 128 \<and> take 64 k = hash_bytes w"
  have key: "\<exists>u a. fst e = owner_index_key u a \<and> w \<le> u \<and> (\<exists>x. current A (db_get D d) a = Some x \<and> acc_owner x = u)"
    if "e \<in> set ?it" for e
  proof -
    obtain k v where e: "e = (k, v)" by fastforce
    with that have g: "db_get D d CF_OWNER_INDEX k = Some v" "hash_bytes w \<le> k" by (simp_all add: seek_set)
    from owner_okD(1) [OF ok g(1)] obtain u a where k: "k = owner_index_key u a" by blast
    from owner_okD(2) [OF ok, of u a] g(1) have "map_option acc_owner (current A (db_get D d) a) = Some u" by (simp add: k)
    moreover have "w \<le> u"
    proof (rule ccontr)
      assume "\<not> w \<le> u"
      then have "hash_bytes u @ hash_bytes a < hash_bytes w @ []" by (subst append_less_prefix) (simp_all add: not_le)
      with g(2) show False by (simp add: k owner_index_key_def)
    qed
    ultimately show ?thesis using e k by auto
  qed
  have tw: "takeWhile ?P ?it = filter ?P ?it"
  proof (rule takeWhile_sorted [OF seek_sorted])
    fix e f
    assume ef: "e \<in> set ?it" "f \<in> set ?it" "fst e < fst f" "?P f"
    from key [OF ef(1)] obtain u a where e: "fst e = owner_index_key u a" "w \<le> u" by blast
    from key [OF ef(2)] ef(4) obtain b where f: "fst f = owner_index_key w b" by (cases f) auto
    from ef(3) e f have "u = w" by (auto simp: owner_index_key_def append_less_prefix)
    with e show "?P e" by (cases e) auto
  qed
  have a: "of_be (drop 64 (owner_index_key u a)) = a" for u a by (simp add: owner_index_key_def)
  show "set (owned w d ?it) = {(a, x). current A (db_get D d) a = Some x \<and> acc_owner x = w}" (is "?l = ?r")
  proof
    show "?l \<subseteq> ?r"
    proof
      fix r
      assume "r \<in> ?l"
      then obtain k v where kv: "(k, v) \<in> set ?it" "take 64 k = hash_bytes w"
        and r: "r = (of_be (drop 64 k), the (current A (db_get D d) (of_be (drop 64 k))))"
        by (auto simp: owned_def tw Let_def)
      from key [OF kv(1)] kv(2) obtain b x where "k = owner_index_key w b" "current A (db_get D d) b = Some x" "acc_owner x = w" by auto
      with r show "r \<in> ?r" by (simp add: a)
    qed
    show "?r \<subseteq> ?l"
    proof
      fix r
      assume "r \<in> ?r"
      then obtain b x where r: "r = (b, x)" "current A (db_get D d) b = Some x" "acc_owner x = w" by auto
      then obtain v where "db_get D d CF_OWNER_INDEX (owner_index_key w b) = Some v"
        using owner_okD(2) [OF ok, of w b] by auto
      moreover have "hash_bytes w \<le> owner_index_key w b" using append_le_same [of "hash_bytes w" "[]"] by (simp add: owner_index_key_def)
      ultimately have "(owner_index_key w b, v) \<in> set (filter ?P ?it)" by (simp add: seek_set)
      then show "r \<in> ?l" unfolding owned_def tw by (force simp: r a)
    qed
  qed
  have "distinct (map fst (filter ?P ?it))" using seek_distinct [of d CF_OWNER_INDEX "hash_bytes w"] by (rule distinct_map_filter)
  moreover have "inj_on (\<lambda>k. of_be (drop 64 k) :: hash) (fst ` set (filter ?P ?it))"
  proof (rule inj_onI)
    fix k l
    assume "k \<in> fst ` set (filter ?P ?it)" "l \<in> fst ` set (filter ?P ?it)" and eq: "(of_be (drop 64 k) :: hash) = of_be (drop 64 l)"
    then obtain b b' where "k = owner_index_key w b" "l = owner_index_key w b'" using key by (force simp: split_beta)
    with eq show "k = l" by (simp add: a)
  qed
  moreover have "map fst (owned w d ?it) = map (\<lambda>k. of_be (drop 64 k)) (map fst (filter ?P ?it))"
    by (simp add: owned_def tw Let_def split_beta comp_def)
  ultimately show "distinct (map fst (owned w d ?it))" by (simp add: distinct_map comp_inj_on)
qed

text \<open>A query when the index has a single entry.\<close>

lemma query_single:
  assumes o: "db_get D d CF_OWNER_INDEX = [owner_index_key w a \<mapsto> []]" and g: "get_account_db D A a d = (Ok (Some x), d)"
  shows "get_accounts_by_owner D A w None d = (Ok [(a, x)], d)"
    and "u \<noteq> w \<Longrightarrow> get_accounts_by_owner D A u None d = (Ok [], d)"
proof -
  have q: "get_accounts_by_owner D A u None d =
      query_each D A u DEFAULT_QUERY_LIMIT (db_seek D d CF_OWNER_INDEX (hash_bytes u)) [] d" for u
    by (simp add: get_accounts_by_owner_def query_index_cf_def cf_handle_def run_simps)
  have e: "(k, v) \<in> set (db_seek D d CF_OWNER_INDEX (hash_bytes u)) \<longleftrightarrow> hash_bytes u \<le> k \<and> k = owner_index_key w a \<and> v = []" for u k v
    by (auto simp: seek_set o split: if_splits)
  have "hash_bytes w \<le> owner_index_key w a"
    using append_le_same [of "hash_bytes w" "[]"] by (simp add: owner_index_key_def)
  then have "set (db_seek D d CF_OWNER_INDEX (hash_bytes w)) = {(owner_index_key w a, [])}" using e by auto
  then have "db_seek D d CF_OWNER_INDEX (hash_bytes w) = [(owner_index_key w a, [])]"
    by (rule sorted_singleton) (rule seek_sorted)
  then show "get_accounts_by_owner D A w None d = (Ok [(a, x)], d)"
    by (simp add: q run_simps try_hash_def g DEFAULT_QUERY_LIMIT_def)
  assume "u \<noteq> w"
  then show "get_accounts_by_owner D A u None d = (Ok [], d)"
  proof (cases "db_seek D d CF_OWNER_INDEX (hash_bytes u)")
    case (Cons f fs)
    then have "f \<in> set (db_seek D d CF_OWNER_INDEX (hash_bytes u))" by simp
    with e \<open>u \<noteq> w\<close> have "take 64 (fst f) \<noteq> hash_bytes u" by (cases f) auto
    with Cons show ?thesis by (cases f) (simp add: q run_simps)
  qed (simp add: q run_simps)
qed

end

text \<open>C32: As long as accounts are written with \<open>put_account\<close>, the owner index is exact: a query by owner returns accounts that
  have that owner, each once, and all of them unless the limit is reached.\<close>

theorem owner_index_exact:
  assumes "kv_store D" and "borsh_codec A" and ok: "accounts_ok A (db_get D d)" "owner_ok A (db_get D d)"
    and v: "to_vec A x = Inr v" and l: "0 < l"
  shows "\<exists>d' res. put_account D A a slot x d = (Ok (), d') \<and> owner_ok A (db_get D d') \<and>
    get_accounts_by_owner D A w (Some l) d' = (Ok res, d') \<and> distinct (map fst res) \<and>
    (\<forall>(b, y) \<in> set res. get_account_db D A b d' = (Ok (Some y), d') \<and> acc_owner y = w) \<and>
    (length res < l \<longrightarrow> (\<forall>b y. get_account_db D A b d' = (Ok (Some y), d') \<longrightarrow> acc_owner y = w \<longrightarrow> (b, y) \<in> set res))"
proof -
  have st: "account_store D A" using assms(1,2) by (rule account_store.intro)
  let ?ops = "account_ops v a slot x (current A (db_get D d) a)"
  let ?d = "db_apply D d ?ops"
  have c: "db_get D ?d = fold apply_op ?ops (db_get D d)" by (rule kv_store.get_apply [OF assms(1)])
  have ok': "accounts_ok A (db_get D ?d)" "owner_ok A (db_get D ?d)"
    unfolding c using account_store.write_view(3) [OF st v ok(1)] account_store.owner_ok_write [OF st ok(2) v] by auto
  let ?it = "db_seek D ?d CF_OWNER_INDEX (hash_bytes w)"
  let ?all = "account_store.owned D A w ?d ?it"
  have it: "\<forall>e \<in> set ?it. db_get D ?d CF_OWNER_INDEX (fst e) \<noteq> None"
    by (auto simp: kv_store.seek_set [OF assms(1)])
  have q: "get_accounts_by_owner D A w (Some l) ?d = (Ok (take l ?all), ?d)"
    using account_store.query_each_run [OF st ok' it, of "[]" l w] l
    by (simp add: get_accounts_by_owner_def query_index_cf_def cf_handle_def run_simps)
  note all = account_store.owned_set [OF st ok'(2), of w]
  have g: "get_account_db D A b ?d = (Ok (current A (db_get D ?d) b), ?d)" for b
    using account_store.get_account_run [OF st ok'(1)] .
  have "distinct (map fst (take l ?all))" using all(2) by (metis distinct_take take_map)
  moreover have "\<forall>(b, y) \<in> set (take l ?all). get_account_db D A b ?d = (Ok (Some y), ?d) \<and> acc_owner y = w"
    using all(1) by (auto simp: g dest: in_set_takeD)
  moreover have "\<forall>b y. get_account_db D A b ?d = (Ok (Some y), ?d) \<longrightarrow> acc_owner y = w \<longrightarrow> (b, y) \<in> set (take l ?all)"
    if "length (take l ?all) < l"
    using that all(1) by (auto simp: g)
  ultimately show ?thesis using account_store.put_account_run [OF st ok(1) v, of a slot] ok'(2) q by blast
qed

text \<open>A rewind moves the account pointers and leaves the owner index as it is. If an account that belonged to one owner at
  slot 1 was given to another at slot 2, then after rewinding to slot 1 a query for the second owner returns the account
  of the first, and a query for the first owner returns nothing.\<close>

theorem owner_index_stale:
  assumes "kv_store D" and "borsh_codec A" and empty: "\<And>cf k. db_get D d cf k = None"
    and v: "to_vec A x = Inr v" "to_vec A y = Inr u" and own: "acc_owner x \<noteq> acc_owner y"
  shows "\<exists>d1 d2 d3 n. put_account D A a 1 x d = (Ok (), d1) \<and> put_account D A a 2 y d1 = (Ok (), d2) \<and>
    rewind_account_index_to_slot D A 1 d2 = (Ok n, d3) \<and> get_account_db D A a d3 = (Ok (Some x), d3) \<and>
    get_accounts_by_owner D A (acc_owner y) None d3 = (Ok [(a, x)], d3) \<and>
    get_accounts_by_owner D A (acc_owner x) None d3 = (Ok [], d3)"
proof -
  have st: "account_store D A" using assms(1,2) by (rule account_store.intro)
  have c0: "accounts_ok A (db_get D d)" "current A (db_get D d) a = None"
    by (simp_all add: accounts_ok_def empty current_def pointer_of_def)
  let ?o1 = "account_ops v a 1 x None" and ?o2 = "account_ops u a 2 y (Some x)"
  let ?d1 = "db_apply D d ?o1" let ?d2 = "db_apply D ?d1 ?o2"
  have g1: "db_get D ?d1 = fold apply_op ?o1 (db_get D d)" and g2: "db_get D ?d2 = fold apply_op ?o2 (db_get D ?d1)"
    by (rule kv_store.get_apply [OF assms(1)])+
  note w1 = account_store.write_view [OF st v(1), where a = a and slot = 1 and old = None and c = "db_get D d", folded g1]
  note w2 = account_store.write_view [OF st v(2), where a = a and slot = 2 and old = "Some x" and c = "db_get D ?d1", folded g2]
  have cur1: "current A (db_get D ?d1) a = Some x" by (simp add: current_def w1)
  note ok1 = w1(3) [OF c0(1)] note ok2 = w2(3) [OF ok1]
  have p1: "put_account D A a 1 x d = (Ok (), ?d1)"
    using account_store.put_account_run [OF st c0(1) v(1), of a 1] by (simp add: c0)
  have p2: "put_account D A a 2 y ?d1 = (Ok (), ?d2)"
    using account_store.put_account_run [OF st ok1 v(2), of a 2] by (simp add: cur1)
  obtain n d3 where rw: "rewind_account_index_to_slot D A 1 ?d2 = (Ok n, d3)"
    and g3: "db_get D d3 = fold apply_op (repoint_ops (version_slot A (db_get D ?d2) 1)
      (stale (\<lambda>s. 1 < s) (db_seek D ?d2 CF_ACCOUNT_INDEX []))) (db_get D ?d2)"
    using account_store.rewind_run [OF st ok2, of 1] by blast
  have g3': "db_get D d3 = fold apply_op (repoint_ops (version_slot A (db_get D ?d2) 1)
      (stale (\<lambda>s. \<not> s \<le> 1) (db_seek D ?d2 CF_ACCOUNT_INDEX []))) (db_get D ?d2)"
    using g3 by (simp add: not_le)
  have at2: "account_at A (db_get D ?d2) a = [1 \<mapsto> x, 2 \<mapsto> y]"
    by (simp add: w1 w2 account_at_def fun_eq_iff empty)
  have two: "\<not> (2 :: u64) \<le> 1" by (simp add: word_le_nat_alt)
  have vs: "version_slot A (db_get D ?d2) 1 a = Some 1"
    using two by (simp add: version_slot_def at2 latest_Some)
  have f: "\<forall>b s. version_slot A (db_get D ?d2) 1 b = Some s \<longrightarrow> account_at A (db_get D ?d2) b s \<noteq> None \<and> s \<le> 1"
    by (auto simp: version_slot_def latest_Some)
  note mv = account_store.moved_pointers [OF st ok2 g3' f]
  have cur3: "current A (db_get D d3) a = Some x"
    using mv(3) [of a] two by (simp add: current_def mv(2) at2 w2(2) vs)
  have own3: "db_get D d3 CF_OWNER_INDEX = [owner_index_key (acc_owner y) a \<mapsto> []]"
    unfolding g3 by (simp add: g1 g2 account_ops_owner fun_eq_iff empty owner_changed_def own)
  have g: "get_account_db D A a d3 = (Ok (Some x), d3)"
    using account_store.get_account_run [OF st mv(1)] cur3 by simp
  note q = account_store.query_single [OF st own3 g]
  show ?thesis using p1 p2 rw g q(1) q(2) [OF own] by blast
qed

section \<open>Undoing a failed slot\<close>

definition cleanup_ops :: "(hash \<Rightarrow> u64 option) \<Rightarrow> u64 \<Rightarrow> hash list \<Rightarrow> write_batch" where
  "cleanup_ops f slot as = concat (map (\<lambda>a. [BatchDelete CF_ACCOUNTS (account_key a slot), repoint_op a (f a)]) as)"

lemma cleanup_ops_simps [simp]:
  "cleanup_ops f slot [] = []"
  "cleanup_ops f slot (a # as) = BatchDelete CF_ACCOUNTS (account_key a slot) # repoint_op a (f a) # cleanup_ops f slot as"
  by (simp_all add: cleanup_ops_def)

lemma ops_ok_cleanup [simp]: "ops_ok (cleanup_ops f slot as)"
  by (induction "as") (simp_all add: op_cf_def [of "BatchDelete _ _"])

lemma apply_repoint_op:
  "apply_op (repoint_op a t) c cf = (if cf = CF_ACCOUNT_INDEX then (c cf)(hash_bytes a := map_option slot_key t) else c cf)"
  by (cases t) (auto simp: repoint_op_def)

lemma cleanup_ops_tables:
  "fold apply_op (cleanup_ops f slot as) c CF_ACCOUNTS k = (if \<exists>a \<in> set as. k = account_key a slot then None else c CF_ACCOUNTS k)"
  "fold apply_op (cleanup_ops f slot as) c CF_ACCOUNT_INDEX (hash_bytes a) =
     (if a \<in> set as then map_option slot_key (f a) else c CF_ACCOUNT_INDEX (hash_bytes a))"
  by (induction "as" arbitrary: c) (auto simp: apply_repoint_op)

lemma cleanup_view:
  "pointer_of (fold apply_op (cleanup_ops f slot as) c) a = (if a \<in> set as then f a else pointer_of c a)"
  "account_at A (fold apply_op (cleanup_ops f slot as) c) a s = (if a \<in> set as \<and> s = slot then None else account_at A c a s)"
  by (cases "f a") (auto simp: pointer_of_def account_at_def cleanup_ops_tables slot_key_def)

lemma cleanup_index_other:
  "k \<notin> range hash_bytes \<Longrightarrow> fold apply_op (cleanup_ops f slot as) c CF_ACCOUNT_INDEX k = c CF_ACCOUNT_INDEX k"
  by (induction "as" arbitrary: c) (auto simp: apply_repoint_op)

context account_store
begin

lemma cleanup_each_run:
  assumes ok: "accounts_ok A (db_get D d)"
  shows "cleanup_each D A slot parent as batch count d =
    (Ok (batch @ cleanup_ops (version_slot A (db_get D d) parent) slot as, count + of_nat (length as)), d)"
  by (induction "as" arbitrary: batch count)
    (simp_all add: run_simps find_latest_run [OF ok] repoint_append batch_delete_def version_slot_def)

lemma cleanup_ancestry_each_run:
  assumes ok: "accounts_ok A (db_get D d)"
  shows "cleanup_ancestry_each D slot S as batch count d =
    (Ok (batch @ cleanup_ops (best_slot A (db_get D d) (\<lambda>s. s \<in> S)) slot as, count + of_nat (length as)), d)"
proof (induction "as" arbitrary: batch count)
  case (Cons a "as")
  have "best_version D (\<lambda>s. s \<in> S) (\<lambda>_. return ()) a d = (Ok (best_slot A (db_get D d) (\<lambda>s. s \<in> S) a), d)"
    by (rule best_version_run [OF ok]) (simp add: run_simps)
  with Cons show ?case by (simp add: run_simps repoint_append batch_delete_def)
qed (simp add: run_simps)

lemma cleanup_ok:
  assumes ok: "accounts_ok A c" and f: "\<forall>a s. a \<in> set as \<longrightarrow> f a = Some s \<longrightarrow> account_at A c a s \<noteq> None \<and> s \<noteq> slot"
  shows "accounts_ok A (fold apply_op (cleanup_ops f slot as) c)"
proof (rule accounts_okI)
  fix k v
  assume "fold apply_op (cleanup_ops f slot as) c CF_ACCOUNTS k = Some v"
  then show "\<exists>a s x. k = account_key a s \<and> to_vec A x = Inr v"
    using accounts_okD(1) [OF ok, of k v] by (auto simp: cleanup_ops_tables split: if_splits)
next
  fix k v
  assume kv: "fold apply_op (cleanup_ops f slot as) c CF_ACCOUNT_INDEX k = Some v"
  show "\<exists>a s. k = hash_bytes a \<and> v = slot_key s \<and> fold apply_op (cleanup_ops f slot as) c CF_ACCOUNTS (account_key a s) \<noteq> None"
  proof (cases "k \<in> range hash_bytes")
    case True
    then obtain a where k: "k = hash_bytes a" by blast
    show ?thesis
    proof (cases "a \<in> set as")
      case True
      with kv k obtain s where s: "f a = Some s" "v = slot_key s" by (auto simp: cleanup_ops_tables)
      with f True have "account_at A c a s \<noteq> None" "s \<noteq> slot" by blast+
      with k s show ?thesis by (auto simp: cleanup_ops_tables account_at_None [OF ok])
    next
      case False
      with kv k have "c CF_ACCOUNT_INDEX (hash_bytes a) = Some v" by (simp add: cleanup_ops_tables)
      from accounts_okD(2) [OF ok this] obtain s where "v = slot_key s" "c CF_ACCOUNTS (account_key a s) \<noteq> None" by auto
      with k False show ?thesis by (auto simp: cleanup_ops_tables)
    qed
  next
    case False
    with kv accounts_okD(2) [OF ok, of k v] show ?thesis by (auto simp: cleanup_index_other)
  qed
qed

lemma cleanup_run:
  assumes ok: "accounts_ok A (db_get D d)"
  shows "\<exists>n d'. cleanup_failed_slot D A slot parent as d = (Ok n, d') \<and>
      db_get D d' = fold apply_op (cleanup_ops (version_slot A (db_get D d) parent) slot as) (db_get D d)"
    and "\<exists>n d'. cleanup_failed_slot_for_ancestry D slot as S d = (Ok n, d') \<and>
      db_get D d' = fold apply_op (cleanup_ops (best_slot A (db_get D d) (\<lambda>s. s \<in> S)) slot as) (db_get D d)"
  using write_unless_empty_run [OF ops_ok_cleanup, of "version_slot A (db_get D d) parent" slot "as" "of_nat (length as)" d]
    write_unless_empty_run [OF ops_ok_cleanup, of "best_slot A (db_get D d) (\<lambda>s. s \<in> S)" slot "as" "of_nat (length as)" d]
  by (auto simp: cleanup_failed_slot_def cleanup_failed_slot_for_ancestry_def run_simps cleanup_each_run [OF ok] cleanup_ancestry_each_run [OF ok])

end

text \<open>Cleaning up a failed slot succeeds; afterwards the touched accounts read as of the parent slot and all other
  accounts read as before.\<close>

theorem cleanup_spec:
  assumes "kv_store D" and "borsh_codec A" and ok: "accounts_ok A (db_get D d)" and lt: "parent < slot"
  shows "\<exists>n d'. cleanup_failed_slot D A slot parent as d = (Ok n, d') \<and> accounts_ok A (db_get D d') \<and>
    (\<forall>a. a \<in> set as \<longrightarrow> get_account_db D A a d' = (fst (get_account_at_slot D A a parent d), d')) \<and>
    (\<forall>a. a \<notin> set as \<longrightarrow> get_account_db D A a d' = (fst (get_account_db D A a d), d'))"
proof -
  have st: "account_store D A" using assms(1,2) by (rule account_store.intro)
  let ?f = "version_slot A (db_get D d) parent"
  obtain n d' where run: "cleanup_failed_slot D A slot parent as d = (Ok n, d')"
    and d': "db_get D d' = fold apply_op (cleanup_ops ?f slot as) (db_get D d)"
    using account_store.cleanup_run(1) [OF st ok] by blast
  have "\<forall>a s. a \<in> set as \<longrightarrow> ?f a = Some s \<longrightarrow> account_at A (db_get D d) a s \<noteq> None \<and> s \<noteq> slot"
    using lt by (auto simp: version_slot_def latest_Some)
  from account_store.cleanup_ok [OF st ok this] have ok': "accounts_ok A (db_get D d')" by (simp add: d')
  have "current A (db_get D d') a = map_option snd (latest (account_at A (db_get D d) a) parent)" if "a \<in> set as" for a
    using that lt by (cases "latest (account_at A (db_get D d) a) parent")
      (auto simp: current_def d' cleanup_view version_slot_def latest_Some)
  moreover have "current A (db_get D d') a = current A (db_get D d) a" if "a \<notin> set as" for a
    using that by (cases "pointer_of (db_get D d) a") (simp_all add: current_def d' cleanup_view)
  ultimately show ?thesis
    using run ok' account_store.get_account_run [OF st ok'] account_store.get_account_run [OF st ok]
      account_store.get_account_at_slot_run [OF st ok] by auto
qed

text \<open>The clean-up along an ancestry considers only slots of the ancestry set, while the rewind along an ancestry also keeps
  everything at or below its root. An account whose only older version was finalised before the root is restored by
  the rewind, but its entry is removed by the clean-up.\<close>

theorem cleanup_ancestry_loses_finalized:
  assumes "kv_store D" and "borsh_codec A" and ok: "accounts_ok A (db_get D d)"
    and at: "account_at A (db_get D d) a = [s \<mapsto> x, slot \<mapsto> y]" and p: "pointer_of (db_get D d) a = Some slot"
    and s: "s \<le> root_of S" "s \<notin> S" and slot: "root_of S < slot" "slot \<notin> S"
  shows "(\<exists>n d'. cleanup_failed_slot_for_ancestry D slot [a] S d = (Ok n, d') \<and> get_account_db D A a d' = (Ok None, d')) \<and>
    (\<exists>n d'. rewind_account_index_for_ancestry D A S d = (Ok n, d') \<and> get_account_db D A a d' = (Ok (Some x), d'))"
proof
  have st: "account_store D A" using assms(1,2) by (rule account_store.intro)
  have none: "best_slot A (db_get D d) (\<lambda>t. t \<in> S) a = None"
    using s slot by (auto simp: best_slot_def latest_None at)
  obtain n d' where run: "cleanup_failed_slot_for_ancestry D slot [a] S d = (Ok n, d')"
    and d': "db_get D d' = fold apply_op (cleanup_ops (best_slot A (db_get D d) (\<lambda>t. t \<in> S)) slot [a]) (db_get D d)"
    using account_store.cleanup_run(2) [OF st ok] by blast
  have "pointer_of (db_get D d') a = None" unfolding d' cleanup_view by (simp add: none)
  then have "get_account_db D A a d' = (Ok None, d')" by (simp add: get_account_db_def run_simps get_cf_run pointer_of_def)
  with run show "\<exists>n d'. cleanup_failed_slot_for_ancestry D slot [a] S d = (Ok n, d') \<and> get_account_db D A a d' = (Ok None, d')" by blast
next
  have st: "account_store D A" using assms(1,2) by (rule account_store.intro)
  have "s < slot" using s(1) slot(1) by simp
  then have best: "best_slot A (db_get D d) (kept_slot S) a = Some s"
  proof -
    have "latest (\<lambda>t. if kept_slot S t then account_at A (db_get D d) a t else None) (- 1) = Some (s, x)"
      using s slot \<open>s < slot\<close> by (auto simp: latest_Some at kept_slot_def)
    then show ?thesis by (simp add: best_slot_def)
  qed
  obtain n d' where run: "rewind_account_index_for_ancestry D A S d = (Ok n, d')"
    and d': "db_get D d' = fold apply_op (repoint_ops (best_slot A (db_get D d) (kept_slot S))
      (stale (\<lambda>s. \<not> kept_slot S s) (db_seek D d CF_ACCOUNT_INDEX []))) (db_get D d)"
    using account_store.rewind_ancestry_run [OF st ok] by blast
  have f: "\<forall>a s. best_slot A (db_get D d) (kept_slot S) a = Some s \<longrightarrow> account_at A (db_get D d) a s \<noteq> None \<and> kept_slot S s"
    using best_slot_stored by blast
  note mv = account_store.moved_pointers [OF st ok d' f]
  have "\<not> kept_slot S slot" using slot by (auto simp: kept_slot_def)
  then have "pointer_of (db_get D d') a = Some s" using mv(3) [of a] p by (simp add: best)
  then have "current A (db_get D d') a = Some x" using \<open>s < slot\<close> by (simp add: current_def mv(2) at)
  with run account_store.get_account_run [OF st mv(1)]
  show "\<exists>n d'. rewind_account_index_for_ancestry D A S d = (Ok n, d') \<and> get_account_db D A a d' = (Ok (Some x), d')" by auto
qed

section \<open>The documented formats\<close>

definition account_codec :: "account codec" where
  "account_codec = iso_codec (\<lambda>x. (acc_lamports x, acc_data x, acc_owner x, acc_executable x, acc_rent_epoch x))
     (\<lambda>(a, b, c, d, e). \<lparr>acc_lamports = a, acc_data = b, acc_owner = c, acc_executable = d, acc_rent_epoch = e\<rparr>)
     (prod_codec u64_codec (prod_codec (vec_codec u8_codec) (prod_codec hash_codec (prod_codec bool_codec u64_codec))))"

lemma account_codec_borsh [borsh_intros]: "borsh_codec account_codec"
  unfolding account_codec_def by (auto intro!: iso_codec_borsh borsh_intros)

interpretation fmap_accounts: account_store fmap_rocksdb account_codec
  by (intro account_store.intro fmap_kv.kv_store_axioms account_codec_borsh)

section \<open>Witnesses\<close>

text \<open>A database without entries, and one where a single account has been written at slot 1.\<close>

definition empty_db :: fmap_db where
  "empty_db = (\<lambda>_. fmempty)"

lemma empty_db_get: "db_get fmap_rocksdb empty_db cf k = None"
  by (simp add: empty_db_def fmap_rocksdb_def)

lemma empty_db_ok:
  "accounts_ok account_codec (db_get fmap_rocksdb empty_db)" "owner_ok account_codec (db_get fmap_rocksdb empty_db)"
  by (simp_all add: accounts_ok_def owner_ok_def empty_db_get current_def pointer_of_def)

definition one_account_db :: "hash \<Rightarrow> account \<Rightarrow> fmap_db" where
  "one_account_db a x = snd (put_account fmap_rocksdb account_codec a 1 x empty_db)"

lemma one_account_db_view:
  assumes "\<exists>v. to_vec account_codec x = Inr v"
  shows "accounts_ok account_codec (db_get fmap_rocksdb (one_account_db a x)) \<and>
    get_account_db fmap_rocksdb account_codec a (one_account_db a x) = (Ok (Some x), one_account_db a x) \<and>
    account_at account_codec (db_get fmap_rocksdb (one_account_db a x)) a = [1 \<mapsto> x]"
proof -
  from assms obtain v where v: "to_vec account_codec x = Inr v" by blast
  have e: "current account_codec (db_get fmap_rocksdb empty_db) a = None" "account_at account_codec (db_get fmap_rocksdb empty_db) a = Map.empty"
    by (simp_all add: current_def pointer_of_def account_at_def fun_eq_iff empty_db_get)
  let ?d = "db_apply fmap_rocksdb empty_db (account_ops v a 1 x None)"
  have d: "one_account_db a x = ?d"
    using fmap_accounts.put_account_run [OF empty_db_ok(1) v, of a 1] by (simp add: one_account_db_def e)
  note view = fmap_accounts.write_view [OF v, where a = a and slot = 1 and old = None and c = "db_get fmap_rocksdb empty_db",
      folded fmap_kv.get_apply]
  have ok: "accounts_ok account_codec (db_get fmap_rocksdb ?d)" by (rule view(3) [OF empty_db_ok(1)])
  have "account_at account_codec (db_get fmap_rocksdb ?d) a = [1 \<mapsto> x]" "current account_codec (db_get fmap_rocksdb ?d) a = Some x"
    by (simp_all add: view current_def e)
  then show ?thesis unfolding d using ok fmap_accounts.get_account_run [OF ok] by simp
qed

lemma account_new_ser: "\<exists>v. to_vec account_codec (account_new l w) = Inr v"
  by (simp add: account_new_def account_codec_def iso_codec_def prod_codec_def vec_codec_def u64_codec_def le_codec_def hash_codec_def bool_codec_def)

theorem put_account_spec_witness:
  "\<exists>d'. put_account fmap_rocksdb account_codec 5 3 (account_new 100 9) empty_db = (Ok (), d') \<and>
    get_account_db fmap_rocksdb account_codec 5 d' = (Ok (Some (account_new 100 9)), d')"
proof -
  obtain v where v: "to_vec account_codec (account_new 100 9) = Inr v" using account_new_ser by blast
  show ?thesis using put_account_spec [OF fmap_kv.kv_store_axioms account_codec_borsh empty_db_ok(1) v] by blast
qed

theorem rewind_spec_witness:
  "\<exists>count d'. rewind_account_index_to_slot fmap_rocksdb account_codec 0 (one_account_db 5 (account_new 100 9)) = (Ok count, d') \<and>
    pointer_of (db_get fmap_rocksdb d') 5 = None \<and> get_account_db fmap_rocksdb account_codec 5 d' = (Ok None, d')"
proof -
  let ?d = "one_account_db 5 (account_new 100 9)"
  note view = one_account_db_view [OF account_new_ser, of 5 100 9]
  have ok: "accounts_ok account_codec (db_get fmap_rocksdb ?d)" using view by blast
  have p: "pointer_of (db_get fmap_rocksdb ?d) 5 = Some 1"
    using view fmap_accounts.get_account_run [OF ok, of 5] by (auto simp: current_def bind_eq_Some_conv split: if_splits)
  have v: "version_slot account_codec (db_get fmap_rocksdb ?d) 0 5 = None"
    using view by (auto simp: version_slot_def latest_None)
  have g: "fst (get_account_at_slot fmap_rocksdb account_codec 5 0 ?d) = Ok None"
    using v fmap_accounts.get_account_at_slot_run [OF ok, of 5 0] by (simp add: version_slot_def)
  obtain count d' where run: "rewind_account_index_to_slot fmap_rocksdb account_codec 0 ?d = (Ok count, d')"
    and ptr: "\<forall>a. pointer_of (db_get fmap_rocksdb d') a = (case pointer_of (db_get fmap_rocksdb ?d) a of
        None \<Rightarrow> None | Some s \<Rightarrow> if s \<le> 0 then Some s else version_slot account_codec (db_get fmap_rocksdb ?d) 0 a)"
    and read: "\<forall>a. get_account_db fmap_rocksdb account_codec a d' = (case pointer_of (db_get fmap_rocksdb ?d) a of
        None \<Rightarrow> (Ok None, d')
      | Some s \<Rightarrow> (fst (if s \<le> 0 then get_account_db fmap_rocksdb account_codec a ?d
          else get_account_at_slot fmap_rocksdb account_codec a 0 ?d), d'))"
    using rewind_spec [OF fmap_kv.kv_store_axioms account_codec_borsh ok, of 0] by blast
  show ?thesis using run ptr [rule_format, of 5] read [rule_format, of 5] p v g by auto
qed

theorem rewind_ancestry_spec_witness:
  "\<exists>count d'. rewind_account_index_for_ancestry fmap_rocksdb account_codec {2} (one_account_db 5 (account_new 100 9)) = (Ok count, d') \<and>
    (\<forall>a s. pointer_of (db_get fmap_rocksdb d') a = Some s \<longrightarrow> s \<le> root_of {2} \<or> s = 2)"
  using rewind_ancestry_spec [OF fmap_kv.kv_store_axioms account_codec_borsh, of "one_account_db 5 (account_new 100 9)" "{2}"]
    one_account_db_view [OF account_new_ser, of 5 100 9] by blast

theorem owner_index_exact_witness:
  "\<exists>d' res. put_account fmap_rocksdb account_codec 5 3 (account_new 100 9) empty_db = (Ok (), d') \<and>
    get_accounts_by_owner fmap_rocksdb account_codec 9 (Some 10) d' = (Ok res, d') \<and>
    (\<forall>(b, y) \<in> set res. acc_owner y = 9)"
proof -
  obtain v where v: "to_vec account_codec (account_new 100 9) = Inr v" using account_new_ser by blast
  show ?thesis
    using owner_index_exact [OF fmap_kv.kv_store_axioms account_codec_borsh empty_db_ok v, of 10 5 3 9] by fastforce
qed

theorem owner_index_stale_witness:
  "\<exists>d1 d2 d3 n. put_account fmap_rocksdb account_codec 5 1 (account_new 100 9) empty_db = (Ok (), d1) \<and>
    put_account fmap_rocksdb account_codec 5 2 (account_new 100 8) d1 = (Ok (), d2) \<and>
    rewind_account_index_to_slot fmap_rocksdb account_codec 1 d2 = (Ok n, d3) \<and>
    get_accounts_by_owner fmap_rocksdb account_codec 8 None d3 = (Ok [(5, account_new 100 9)], d3)"
proof -
  obtain v u where v: "to_vec account_codec (account_new 100 9) = Inr v" "to_vec account_codec (account_new 100 8) = Inr u"
    using account_new_ser by blast
  show ?thesis
    using owner_index_stale [OF fmap_kv.kv_store_axioms account_codec_borsh empty_db_get v, of 5] by (simp add: account_new_def) blast
qed

end
