(* ===== verification/Slot.thy ===== *)
theory Slot
  imports Executor Accounts_Db "HOL-Library.AList"
begin

text \<open>
  Execution of the transactions of a slot: \<open>runtime/src/slot_commit.rs\<close> (accumulating results),
  \<open>runtime/src/batch_executor.rs\<close> (one after the other), \<open>runtime/src/scheduler.rs\<close> (grouping into batches
  without conflicts) and \<open>runtime/src/parallel_executor.rs\<close> (batch by batch, each in parallel). The parallel
  executor is shown to compute what the sequential one does, for every order in which the threads deliver, if every
  fee payer is writable; without that condition the two differ, and a theorem shows an example.
\<close>

section \<open>Displaying errors\<close>

definition runtime_error_display :: "runtime_error \<Rightarrow> string" where
  "runtime_error_display e = (case e of
     AccountNotFound i \<Rightarrow> ''account not found: index '' @ show_nat i
   | AccountNotWritable i \<Rightarrow> ''account at index '' @ show_nat i @ '' is not writable''
   | AccountNotSigner i \<Rightarrow> ''account at index '' @ show_nat i @ '' is not a signer''
   | AccountAlreadyExists \<Rightarrow> ''account already exists''
   | AccountOwnerMismatch \<Rightarrow> ''account owner mismatch''
   | AccountDataTooLarge sz limit \<Rightarrow>
       ''account data too large: '' @ show_u64 sz @ '' bytes exceeds '' @ show_u64 limit @ '' byte limit''
   | AccountIndexAliasing a b \<Rightarrow>
       ''account index aliasing: index '' @ show_nat a @ '' and '' @ show_nat b @ '' refer to the same account''
   | InsufficientFunds needed available \<Rightarrow>
       ''insufficient funds: need '' @ show_u64 needed @ '', have '' @ show_u64 available
   | LamportsOverflow \<Rightarrow> ''lamports overflow''
   | RentNotMet needed available \<Rightarrow> ''rent not met: need '' @ show_u64 needed @ '', have '' @ show_u64 available
   | InsufficientComputeUnits needed remaining \<Rightarrow>
       ''insufficient compute units: need '' @ show_u64 needed @ '', have '' @ show_u64 remaining
   | ComputeUnitLimitExceeded \<Rightarrow> ''compute unit limit exceeded''
   | InvalidInstructionData s \<Rightarrow> ''invalid instruction data: '' @ s
   | InvalidAccountData s \<Rightarrow> ''invalid account data: '' @ s
   | InvalidComputeBudget s \<Rightarrow> ''invalid compute budget: '' @ s
   | UnknownProgram s \<Rightarrow> ''unknown program: '' @ s
   | ProgramError p s \<Rightarrow> ''program '' @ p @ '' error: '' @ s
   | SignatureVerificationFailed s \<Rightarrow> ''signature verification failed: '' @ s
   | BlockhashNotFound \<Rightarrow> ''blockhash not found''
   | DuplicateTransaction \<Rightarrow> ''duplicate transaction''
   | MissingRequiredSigner i \<Rightarrow> ''missing required signer at index '' @ show_nat i
   | ReadonlyAccountModified i \<Rightarrow> ''readonly account modified at index '' @ show_nat i
   | ExecutableAccountModified \<Rightarrow> ''executable account modified''
   | LoadedAccountsDataSizeExceeded sz limit \<Rightarrow>
       ''loaded accounts data size exceeded: '' @ show_u64 sz @ '' > '' @ show_u64 limit
   | WasmError s \<Rightarrow> ''wasm execution error: '' @ s
   | CpiDepthExceeded d m \<Rightarrow> ''CPI depth exceeded: '' @ show_u64 d @ '' > '' @ show_u64 m
   | ProgramNotExecutable s \<Rightarrow> ''program not executable: '' @ s
   | ReentrancyNotAllowed s \<Rightarrow> ''reentrancy not allowed: '' @ s
   | CpiPrivilegeEscalation s \<Rightarrow> ''CPI privilege escalation: '' @ s
   | Storage s \<Rightarrow> ''storage error: '' @ s
   | Core e \<Rightarrow> ''core error: '' @ core_error_display e
   | Crypto s \<Rightarrow> ''crypto error: '' @ s)"

section \<open>Transaction statuses\<close>

datatype tx_status = TxSuccess | TxFailed string

record tx_status_meta =
  ts_slot :: u64
  ts_status :: tx_status
  ts_fee :: u64
  ts_pre_balances :: "u64 list"
  ts_post_balances :: "u64 list"
  ts_compute :: u64

definition append_transaction_status :: "tx_status_meta codec \<Rightarrow> write_batch \<Rightarrow> hash \<Rightarrow> tx_status_meta \<Rightarrow> ('d, write_batch) st" where
  "append_transaction_status T batch txh meta =
     bind_r (encode T meta) (\<lambda>value. return (batch_put CF_TRANSACTIONS (hash_bytes txh) value batch))"

definition append_address_signature :: "write_batch \<Rightarrow> hash \<Rightarrow> u64 \<Rightarrow> u32 \<Rightarrow> hash \<Rightarrow> write_batch" where
  "append_address_signature batch address slot tx_index txh =
     batch_put CF_ADDRESS_SIGNATURES (address_sig_key address slot tx_index) (hash_bytes txh) batch"

section \<open>Committing results\<close>

text \<open>
  The committer. The hasher is the bytes fed to it; the cache is an association list with one entry per address.
\<close>

record slot_committer =
  sc_executed :: u64
  sc_succeeded :: u64
  sc_failed :: u64
  sc_fees :: u64
  sc_compute :: u64
  sc_hashed :: bytes
  sc_batch :: write_batch
  sc_statuses :: "(hash \<times> string) list"
  sc_cache :: "(hash \<times> account) list"

definition committer_new :: slot_committer where
  "committer_new = \<lparr>sc_executed = 0, sc_succeeded = 0, sc_failed = 0, sc_fees = 0, sc_compute = 0, sc_hashed = [],
     sc_batch = [], sc_statuses = [], sc_cache = []\<rparr>"

type_synonym 'a commit = "(slot_committer, runtime_error, 'a) rm"

text \<open>A storage call that needs no database, with its error raised as one of ours.\<close>

definition lift_storage :: "(unit, 'a) st \<Rightarrow> (storage_error \<Rightarrow> runtime_error) \<Rightarrow> 'a commit" where
  "lift_storage m f = (case fst (m ()) of Ok x \<Rightarrow> return x | Err e \<Rightarrow> fail (f e) | Panic \<Rightarrow> panic)"

definition account_hash_input :: "hash \<Rightarrow> account \<Rightarrow> bytes" where
  "account_hash_input address a =
     hash_bytes address @ le_enc 8 (unat (acc_lamports a)) @ le_enc 4 (unat (of_nat (length (acc_data a)) :: u32)) @ acc_data a @
     hash_bytes (acc_owner a) @ [if acc_executable a then 1 else 0] @ le_enc 8 (unat (acc_rent_epoch a))"

fun commit_deltas :: "account codec \<Rightarrow> u64 \<Rightarrow> (hash \<times> account) list \<Rightarrow> (hash \<times> account) list \<Rightarrow> unit commit" where
  "commit_deltas A slot loaded [] = return ()"
| "commit_deltas A slot loaded ((address, account) # deltas) =
    bind_r (gets sc_batch) (\<lambda>batch.
    bind_r (lift_storage (append_account_write_with_old A batch address slot account (map_of loaded address))
              (\<lambda>e. InvalidAccountData (storage_error_display e))) (\<lambda>batch.
    then_r (modify (\<lambda>c. c\<lparr>sc_batch := batch, sc_hashed := sc_hashed c @ account_hash_input address account,
                           sc_cache := AList.update address account (sc_cache c)\<rparr>))
    (commit_deltas A slot loaded deltas)))"

definition commit_result :: "account codec \<Rightarrow> tx_status_meta codec \<Rightarrow> nat \<Rightarrow> tx_result \<Rightarrow> u64 \<Rightarrow> unit commit" where
  "commit_result A T tx_idx result slot =
    (let (status, status_str) = (case res_status result of
           Inr _ \<Rightarrow> (TxSuccess, ''success'')
         | Inl e \<Rightarrow> (TxFailed (runtime_error_display e), ''failed: '' @ runtime_error_display e)) in
     then_r (modify (\<lambda>c. c\<lparr>sc_executed := sc_executed c + 1, sc_fees := sc_fees c + res_fee result,
                            sc_compute := sc_compute c + res_compute result\<rparr>))
     (then_r (modify (\<lambda>c. case status of TxSuccess \<Rightarrow> c\<lparr>sc_succeeded := sc_succeeded c + 1\<rparr>
                                        | TxFailed _ \<Rightarrow> c\<lparr>sc_failed := sc_failed c + 1\<rparr>))
     (then_r (modify (\<lambda>c. c\<lparr>sc_statuses := sc_statuses c @ [(res_hash result, status_str)]\<rparr>))
     (then_r (commit_deltas A slot (res_loaded result) (res_deltas result))
     (bind_r (gets sc_batch) (\<lambda>batch.
      bind_r (lift_storage (append_transaction_status T batch (res_hash result)
                \<lparr>ts_slot = slot, ts_status = status, ts_fee = res_fee result, ts_pre_balances = res_pre_balances result,
                 ts_post_balances = res_post_balances result, ts_compute = res_compute result\<rparr>)
                (\<lambda>e. Storage (storage_error_display e))) (\<lambda>batch.
      modify (\<lambda>c. c\<lparr>sc_batch := fold (\<lambda>(address, _) b. append_address_signature b address slot (of_nat tx_idx) (res_hash result))
                     (res_deltas result) batch\<rparr>))))))))"

definition account_cache :: "slot_committer \<Rightarrow> hash \<rightharpoonup> account" where
  "account_cache c = map_of (sc_cache c)"

definition flush_all :: "'d rocksdb \<Rightarrow> slot_committer \<Rightarrow> ('d, runtime_error, unit) rm" where
  "flush_all D c = (if sc_batch c \<noteq> []
     then (\<lambda>d. case storage_write D (sc_batch c) d of
             (Ok _, d) \<Rightarrow> (Ok (), d) | (Err e, d) \<Rightarrow> (Err (Storage (storage_error_display e)), d) | (Panic, d) \<Rightarrow> (Panic, d))
     else return ())"

record slot_result =
  sr_slot :: u64
  sr_executed :: u64
  sr_succeeded :: u64
  sr_failed :: u64
  sr_fees :: u64
  sr_compute :: u64
  sr_delta_hash :: hash
  sr_deltas :: "(hash \<times> account) list"
  sr_statuses :: "(hash \<times> string) list"

definition finalize :: "env \<Rightarrow> u64 \<Rightarrow> slot_committer \<Rightarrow> slot_result" where
  "finalize E slot c =
     \<lparr>sr_slot = slot, sr_executed = sc_executed c, sr_succeeded = sc_succeeded c, sr_failed = sc_failed c,
      sr_fees = sc_fees c, sr_compute = sc_compute c, sr_delta_hash = sha3_512 E (sc_hashed c),
      sr_deltas = sort_key fst (sc_cache c), sr_statuses = sc_statuses c\<rparr>"

definition take_write_batch :: "slot_committer \<Rightarrow> write_batch \<times> slot_committer" where
  "take_write_batch c = (sc_batch c, c\<lparr>sc_batch := []\<rparr>)"

section \<open>One after the other\<close>

text \<open>Reads of the database while the slot executes.\<close>

definition storage_of :: "'d rocksdb \<Rightarrow> account codec \<Rightarrow> 'd \<Rightarrow> storage" where
  "storage_of D A d = (\<lambda>address. case fst (get_account_db D A address d) of
     Ok r \<Rightarrow> Inr r | Err e \<Rightarrow> Inl (storage_error_display e) | Panic \<Rightarrow> Inl ''panic'')"

text \<open>A transaction run with a snapshot of the committed accounts; the signatures have been verified before.\<close>

definition run_tx_in :: "env \<Rightarrow> storage \<Rightarrow> sysvar_cache \<Rightarrow> u64 \<Rightarrow> u64 \<Rightarrow> (hash \<rightharpoonup> account) \<Rightarrow> transaction \<Rightarrow> (unit, tx_result) outcome" where
  "run_tx_in E storage sysvars lamports_per_signature slot cache tx =
     execute_transaction E tx storage sysvars lamports_per_signature slot (Some cache) True"

fun execute_seq :: "(transaction \<Rightarrow> (hash \<rightharpoonup> account) \<Rightarrow> (unit, tx_result) outcome) \<Rightarrow> account codec \<Rightarrow> tx_status_meta codec \<Rightarrow> u64 \<Rightarrow>
    (nat \<times> transaction) list \<Rightarrow> unit commit" where
  "execute_seq run A T slot [] = return ()"
| "execute_seq run A T slot ((tx_index, tx) # rest) =
    bind_r (gets account_cache) (\<lambda>cache.
    case run tx cache of
      Ok result \<Rightarrow> then_r (commit_result A T tx_index result slot) (execute_seq run A T slot rest)
    | _ \<Rightarrow> panic)"

text \<open>Run the committer, then write its batch and assemble the result.\<close>

definition finish_slot :: "env \<Rightarrow> 'd rocksdb \<Rightarrow> u64 \<Rightarrow> (runtime_error, unit) outcome \<times> slot_committer \<Rightarrow> ('d, runtime_error, slot_result) rm" where
  "finish_slot E D slot = (\<lambda>(r, c). case r of
     Ok _ \<Rightarrow> then_r (flush_all D c) (return (finalize E slot c))
   | Err e \<Rightarrow> fail e
   | Panic \<Rightarrow> panic)"

definition execute_slot :: "env \<Rightarrow> 'd rocksdb \<Rightarrow> account codec \<Rightarrow> tx_status_meta codec \<Rightarrow> u64 \<Rightarrow> transaction list \<Rightarrow> sysvar_cache \<Rightarrow> u64 \<Rightarrow>
    ('d, runtime_error, slot_result) rm" where
  "execute_slot E D A T slot transactions sysvars lamports_per_signature =
    (\<lambda>d. finish_slot E D slot
      (execute_seq (\<lambda>tx cache. run_tx_in E (storage_of D A d) sysvars lamports_per_signature slot cache tx) A T slot
         (enumerate 0 transactions) committer_new) d)"

section \<open>Batches without conflicts\<close>

record access_set =
  as_writable :: "hash list"
  as_readable :: "hash list"

definition extract_access_set :: "transaction \<Rightarrow> access_set" where
  "extract_access_set tx =
    (let msg = tx_message tx; keys = enumerate 0 (account_keys msg) in
     \<lparr>as_writable = map snd (filter (\<lambda>(i, _). is_writable msg i) keys),
      as_readable = map snd (filter (\<lambda>(i, _). \<not> is_writable msg i) keys)\<rparr>)"

fun schedule_each :: "(nat \<times> transaction) list \<Rightarrow> nat list \<Rightarrow> hash set \<Rightarrow> hash set \<Rightarrow> nat list list" where
  "schedule_each [] current_batch write_locked read_locked = (if current_batch \<noteq> [] then [current_batch] else [])"
| "schedule_each ((i, tx) # rest) current_batch write_locked read_locked =
    (let access = extract_access_set tx;
         conflicts = ((\<exists>a \<in> set (as_writable access). a \<in> write_locked \<or> a \<in> read_locked) \<or>
                      (\<exists>a \<in> set (as_readable access). a \<in> write_locked))
     in if conflicts
        then current_batch # schedule_each rest [i] (set (as_writable access)) (set (as_readable access))
        else schedule_each rest (current_batch @ [i]) (write_locked \<union> set (as_writable access)) (read_locked \<union> set (as_readable access)))"

definition schedule :: "transaction list \<Rightarrow> nat list list" where
  "schedule transactions = (if transactions = [] then [] else schedule_each (enumerate 0 transactions) [] {} {})"

section \<open>Batch by batch\<close>

text \<open>
  A batch is executed by the \<open>rayon\<close> crate, from outside the repository: its parameter \<open>deliver\<close> is the order in which the
  results arrive. A panic in one of the threads is propagated.
\<close>

fun collect_results :: "(nat \<times> (unit, tx_result) outcome) list \<Rightarrow> (nat \<times> tx_result) list option" where
  "collect_results [] = Some []"
| "collect_results ((i, r) # rest) = (case r of
     Ok result \<Rightarrow> map_option ((#) (i, result)) (collect_results rest)
   | _ \<Rightarrow> None)"

fun commit_all :: "account codec \<Rightarrow> tx_status_meta codec \<Rightarrow> u64 \<Rightarrow> (nat \<times> tx_result) list \<Rightarrow> unit commit" where
  "commit_all A T slot [] = return ()"
| "commit_all A T slot ((tx_idx, result) # rest) = then_r (commit_result A T tx_idx result slot) (commit_all A T slot rest)"

fun execute_batches :: "(transaction \<Rightarrow> (hash \<rightharpoonup> account) \<Rightarrow> (unit, tx_result) outcome) \<Rightarrow> account codec \<Rightarrow> tx_status_meta codec \<Rightarrow> u64 \<Rightarrow>
    ((nat \<times> tx_result) list \<Rightarrow> (nat \<times> tx_result) list) \<Rightarrow> transaction list \<Rightarrow> nat list list \<Rightarrow> unit commit" where
  "execute_batches run A T slot deliver transactions [] = return ()"
| "execute_batches run A T slot deliver transactions (batch # batches) =
    bind_r (gets account_cache) (\<lambda>cache.
    case collect_results (map (\<lambda>tx_idx. (tx_idx, run (transactions ! tx_idx) cache)) batch) of
      Some results \<Rightarrow> then_r (commit_all A T slot (sort_key fst (deliver results)))
                        (execute_batches run A T slot deliver transactions batches)
    | None \<Rightarrow> panic)"

definition execute_slot_parallel :: "env \<Rightarrow> 'd rocksdb \<Rightarrow> account codec \<Rightarrow> tx_status_meta codec \<Rightarrow>
    ((nat \<times> tx_result) list \<Rightarrow> (nat \<times> tx_result) list) \<Rightarrow> u64 \<Rightarrow> transaction list \<Rightarrow> sysvar_cache \<Rightarrow> u64 \<Rightarrow>
    ('d, runtime_error, slot_result) rm" where
  "execute_slot_parallel E D A T deliver slot transactions sysvars lamports_per_signature =
    (\<lambda>d. finish_slot E D slot
      (execute_batches (\<lambda>tx cache. run_tx_in E (storage_of D A d) sysvars lamports_per_signature slot cache tx) A T slot
         deliver transactions (schedule transactions) committer_new) d)"

text \<open>The deferred variant reads the database but does not write it.\<close>

definition execute_slot_parallel_deferred :: "env \<Rightarrow> 'd rocksdb \<Rightarrow> account codec \<Rightarrow> tx_status_meta codec \<Rightarrow>
    ((nat \<times> tx_result) list \<Rightarrow> (nat \<times> tx_result) list) \<Rightarrow> u64 \<Rightarrow> transaction list \<Rightarrow> sysvar_cache \<Rightarrow> u64 \<Rightarrow>
    ('d, runtime_error, slot_result \<times> write_batch) rm" where
  "execute_slot_parallel_deferred E D A T deliver slot transactions sysvars lamports_per_signature =
    (\<lambda>d. case execute_batches (\<lambda>tx cache. run_tx_in E (storage_of D A d) sysvars lamports_per_signature slot cache tx) A T slot
           deliver transactions (schedule transactions) committer_new of
         (Ok _, c) \<Rightarrow> (let (write_batch, c) = take_write_batch c in (Ok (finalize E slot c, write_batch), d))
       | (Err e, _) \<Rightarrow> (Err e, d)
       | (Panic, _) \<Rightarrow> (Panic, d))"

section \<open>What a transaction reads and writes\<close>

lemma load_each_cong:
  "(\<And>k. k \<in> set ks \<Longrightarrow> lookup_account st c k = lookup_account st c' k) \<Longrightarrow> load_each st c limit n ks = load_each st c' limit n ks"
  by (induction ks arbitrary: n) (simp_all add: Let_def split: sum.split)

lemma execute_cong:
  assumes "\<And>k. k \<in> set (account_keys (tx_message tx)) \<Longrightarrow> lookup_account st c k = lookup_account st c' k"
  shows "execute_transaction E tx st sysvars lps slot c skip = execute_transaction E tx st sysvars lps slot c' skip"
proof -
  have l: "load_each st c limit 0 (account_keys (tx_message tx)) = load_each st c' limit 0 (account_keys (tx_message tx))" for limit
    by (rule load_each_cong) (rule assms)
  have a: "load_accounts st (account_keys (tx_message tx)) limit c = load_accounts st (account_keys (tx_message tx)) limit c'" for limit
    unfolding load_accounts_def l ..
  show ?thesis unfolding execute_transaction_def a ..
qed

lemma writable_set: "set (as_writable (extract_access_set tx)) =
    {account_keys (tx_message tx) ! i | i. i < length (account_keys (tx_message tx)) \<and> is_writable (tx_message tx) i}"
  by (auto simp: extract_access_set_def Let_def in_set_enumerate_eq image_iff)

lemma readable_set: "set (as_readable (extract_access_set tx)) =
    {account_keys (tx_message tx) ! i | i. i < length (account_keys (tx_message tx)) \<and> \<not> is_writable (tx_message tx) i}"
  by (auto simp: extract_access_set_def Let_def in_set_enumerate_eq image_iff)

lemma access_keys: "k \<in> set (account_keys (tx_message tx)) \<Longrightarrow>
    k \<in> set (as_writable (extract_access_set tx)) \<or> k \<in> set (as_readable (extract_access_set tx))"
  unfolding writable_set readable_set by (auto simp: in_set_conv_nth)

text \<open>The fee payer, the first account of the message, is marked writable.\<close>

definition payer_writable :: "transaction \<Rightarrow> bool" where
  "payer_writable tx \<longleftrightarrow> is_writable (tx_message tx) 0"

lemma deltas_writable:
  assumes run: "execute_transaction E tx st sysvars lps slot cache skip = Ok r"
    and eng: "engine_keeps_keys E" and pw: "payer_writable tx" and kd: "(k, a) \<in> set (res_deltas r)"
  shows "k \<in> set (as_writable (extract_access_set tx))"
  using run eng
proof (cases rule: execute_transaction_Ok)
  case (stale loaded)
  then obtain b rest where l: "loaded = (k, b) # rest" using kd by (cases loaded) (auto simp: charge_def)
  have "account_keys (tx_message tx) = k # map fst rest" using stale(1) by (simp add: l)
  then have "k = account_keys (tx_message tx) ! 0" "0 < length (account_keys (tx_message tx))" by simp_all
  with pw show ?thesis unfolding writable_set payer_writable_def by blast
next
  case (ran loaded limit h)
  have keys: "0 < length (account_keys (tx_message tx))" using ran(1,4) by auto
  from ran(7) eng show ?thesis
  proof (cases rule: run_in_context_Ok)
    case (ok t)
    have d: "distinct (map fst loaded)" using ran(1,2) by simp
    obtain i where "i < length loaded" "fst (loaded ! i) = k" "is_writable (tx_message tx) i"
      using succeeded_total(3) [OF d ran(4,5) ok(1,2), of k a] kd by (auto simp: ok(3) tx_succeeded_def)
    then show ?thesis unfolding writable_set using ran(1) by (metis (mono_tags, lifting) length_map mem_Collect_eq nth_map)
  next
    case (failed t e)
    have mf: "map fst (ctx_accounts t) = account_keys (tx_message tx)"
      using failed(1) ran(1,4) by (cases loaded) (auto simp: ctx_shape_def ctx_new_def charge_def)
    then have "ctx_accounts t \<noteq> []" using keys by auto
    with failed(2) kd have "(k, a) = ctx_accounts t ! 0" by (auto simp: tx_failed_def)
    with mf keys have "k = account_keys (tx_message tx) ! 0" by (metis fst_conv length_map nth_map)
    with pw keys show ?thesis unfolding writable_set payer_writable_def by blast
  qed
qed (use kd in \<open>auto simp: tx_rejected_def\<close>)

section \<open>What a commit does to the cache\<close>

lemma lift_storage_Ok: "lift_storage m f c = (Ok x, c') \<longleftrightarrow> fst (m ()) = Ok x \<and> c' = c"
  by (auto simp: lift_storage_def run_simps ok_iff split: outcome.splits)

lemma lift_append_status:
  "lift_storage (append_transaction_status T b h m) f c = (Ok x, c') \<longleftrightarrow>
     (\<exists>v. to_vec T m = Inr v \<and> x = b @ [BatchPut CF_TRANSACTIONS (hash_bytes h) v] \<and> c' = c)"
  by (cases "to_vec T m") (auto simp: lift_storage_Ok append_transaction_status_def encode_def batch_put_def run_simps)

lemma fold_signatures:
  "fold (\<lambda>(address, _) b. append_address_signature b address slot i h) ds b =
     b @ map (\<lambda>(address, _). BatchPut CF_ADDRESS_SIGNATURES (address_sig_key address slot i) (hash_bytes h)) ds"
  by (induction ds arbitrary: b) (auto simp: append_address_signature_def batch_put_def)

lemma write_account_fail:
  "to_vec A x = Inl e \<Longrightarrow> write_account_to_batch A batch a slot x old d = (Err (SE_Serialization e), d)"
  by (simp add: write_account_to_batch_def encode_def run_simps)

lemma commit_deltas_cache:
  "commit_deltas A slot loaded ds c = (Ok (), c') \<Longrightarrow> map_of (sc_cache c') = map_of (sc_cache c) ++ map_of (rev ds)"
proof (induction ds arbitrary: c)
  case (Cons d ds)
  obtain a x where d: "d = (a, x)" by fastforce
  from Cons.prems obtain b where "commit_deltas A slot loaded ds
      (c\<lparr>sc_batch := b, sc_hashed := sc_hashed c @ account_hash_input a x, sc_cache := AList.update a x (sc_cache c)\<rparr>) = (Ok (), c')"
    by (auto simp: d ok_iff lift_storage_Ok)
  from Cons.IH [OF this] show ?case by (simp add: d update_conv' map_add_upd_left fun_eq_iff map_add_def split: option.splits)
qed (simp add: ok_iff)

lemma commit_result_cache:
  assumes "commit_result A T i r slot c = (Ok (), c')"
  shows "account_cache c' = account_cache c ++ map_of (rev (res_deltas r))"
proof -
  from assms obtain c1 c2 where "commit_deltas A slot (res_loaded r) (res_deltas r) c1 = (Ok (), c2)"
    "sc_cache c1 = sc_cache c" "sc_cache c' = sc_cache c2"
    by (auto simp: commit_result_def Let_def ok_iff lift_storage_Ok split: sum.splits prod.splits tx_status.splits)
  with commit_deltas_cache show ?thesis by (auto simp: account_cache_def)
qed

section \<open>Batches are independent\<close>

abbreviation keys_of :: "transaction \<Rightarrow> hash set" where
  "keys_of tx \<equiv> set (account_keys (tx_message tx))"

abbreviation writes_of :: "transaction \<Rightarrow> hash set" where
  "writes_of tx \<equiv> set (as_writable (extract_access_set tx))"

text \<open>No transaction of the list uses an account that is locked or that an earlier one may write.\<close>

fun independent :: "hash set \<Rightarrow> transaction list \<Rightarrow> bool" where
  "independent W [] = True"
| "independent W (tx # txs) \<longleftrightarrow> keys_of tx \<inter> W = {} \<and> independent (W \<union> writes_of tx) txs"

lemma independent_snoc: "independent W (txs @ [tx]) \<longleftrightarrow> independent W txs \<and> keys_of tx \<inter> (W \<union> \<Union> (writes_of ` set txs)) = {}"
  by (induction txs arbitrary: W) (auto simp: Un_assoc)

lemma schedule_each_concat: "concat (schedule_each xs cur W R) = cur @ map fst xs"
  by (induction xs arbitrary: cur W R) (auto simp: Let_def)

lemma schedule_each_independent:
  assumes "\<forall>(i, tx) \<in> set xs. i < length txs \<and> txs ! i = tx"
    and "independent {} (map ((!) txs) cur)" and "W = \<Union> (writes_of ` set (map ((!) txs) cur))"
    and "b \<in> set (schedule_each xs cur W R)"
  shows "independent {} (map ((!) txs) b)"
  using assms
proof (induction xs arbitrary: cur W R)
  case (Cons x rest)
  obtain i tx where x: "x = (i, tx)" by fastforce
  let ?a = "extract_access_set tx"
  let ?conf = "(\<exists>a \<in> set (as_writable ?a). a \<in> W \<or> a \<in> R) \<or> (\<exists>a \<in> set (as_readable ?a). a \<in> W)"
  have tx: "txs ! i = tx" and rest: "\<forall>(i, tx) \<in> set rest. i < length txs \<and> txs ! i = tx" using Cons.prems(1) by (auto simp: x)
  show ?case
  proof (cases ?conf)
    case True
    then have "b = cur \<or> b \<in> set (schedule_each rest [i] (set (as_writable ?a)) (set (as_readable ?a)))"
      using Cons.prems(4) by (simp add: x Let_def)
    then show ?thesis using Cons.IH [OF rest, of "[i]"] Cons.prems(2) by (auto simp: tx)
  next
    case False
    then have "keys_of tx \<inter> W = {}" using access_keys [of _ tx] by blast
    then have ind: "independent {} (map ((!) txs) (cur @ [i]))" using Cons.prems(2,3) by (simp add: independent_snoc tx image_image)
    have W: "W \<union> set (as_writable ?a) = \<Union> (writes_of ` set (map ((!) txs) (cur @ [i])))" by (auto simp: Cons.prems(3) tx)
    have "b \<in> set (schedule_each rest (cur @ [i]) (W \<union> set (as_writable ?a)) (R \<union> set (as_readable ?a)))"
      using Cons.prems(4) False by (simp add: x Let_def)
    then show ?thesis by (rule Cons.IH [OF rest ind W])
  qed
qed (auto split: if_splits)

lemma schedule_concat: "concat (schedule txs) = [0..<length txs]"
  by (auto simp: schedule_def schedule_each_concat)

lemma schedule_independent:
  assumes "b \<in> set (schedule txs)"
  shows "independent {} (map ((!) txs) b)"
proof (rule schedule_each_independent)
  show "b \<in> set (schedule_each (enumerate 0 txs) [] {} {})" using assms by (simp add: schedule_def split: if_splits)
  show "\<forall>(i, tx) \<in> set (enumerate 0 txs). i < length txs \<and> txs ! i = tx" by (auto simp: in_set_enumerate_eq)
qed simp_all

lemma schedule_sorted: "b \<in> set (schedule txs) \<Longrightarrow> sorted b \<and> distinct b"
proof -
  assume "b \<in> set (schedule txs)"
  then obtain xs ys where "schedule txs = xs @ b # ys" by (auto dest: split_list)
  then have e: "concat xs @ b @ concat ys = [0..<length txs]" using schedule_concat [of txs] by simp
  have "sorted (concat xs @ b @ concat ys)" "distinct (concat xs @ b @ concat ys)" unfolding e by simp_all
  then show ?thesis by (simp add: sorted_append)
qed

section \<open>The parallel executor computes what the sequential one does\<close>

lemma execute_seq_append: "execute_seq run A T slot (xs @ ys) = then_r (execute_seq run A T slot xs) (execute_seq run A T slot ys)"
proof (induction xs)
  case (Cons x xs)
  obtain i tx where x: "x = (i, tx)" by fastforce
  have c: "(case r of Ok result \<Rightarrow> then_r (commit_result A T i result slot) (then_r m n) | _ \<Rightarrow> panic) =
        then_r (case r of Ok result \<Rightarrow> then_r (commit_result A T i result slot) m | _ \<Rightarrow> panic) n" for r and m n :: "unit commit"
    by (cases r) simp_all
  show ?case unfolding x append_Cons execute_seq.simps Cons.IH c bind_assoc ..
qed simp

lemma batch_seq:
  assumes cong: "\<And>tx c c'. (\<And>k. k \<in> keys_of tx \<Longrightarrow> c k = c' k) \<Longrightarrow> run tx c = run tx c'"
    and writes: "\<And>tx c r k. tx \<in> snd ` set b \<Longrightarrow> run tx c = Ok r \<Longrightarrow> k \<in> fst ` set (res_deltas r) \<Longrightarrow> k \<in> writes_of tx"
    and "independent W (map snd b)" and "\<And>k. k \<notin> W \<Longrightarrow> account_cache c k = c0 k"
  shows "execute_seq run A T slot b c = (Ok (), c') \<longleftrightarrow>
    (\<exists>rs. collect_results (map (\<lambda>(i, tx). (i, run tx c0)) b) = Some rs \<and> map fst rs = map fst b \<and> commit_all A T slot rs c = (Ok (), c'))"
  using assms(2-)
proof (induction b arbitrary: c W)
  case (Cons x b)
  obtain i tx where x: "x = (i, tx)" by fastforce
  have eq: "run tx (account_cache c) = run tx c0" by (rule cong) (use Cons.prems(2,3) in \<open>auto simp: x\<close>)
  show ?case
  proof (cases "run tx c0")
    case (Ok r)
    have step: "execute_seq run A T slot b c1 = (Ok (), c') \<longleftrightarrow>
      (\<exists>rs. collect_results (map (\<lambda>(i, tx). (i, run tx c0)) b) = Some rs \<and> map fst rs = map fst b \<and> commit_all A T slot rs c1 = (Ok (), c'))"
      if cm: "commit_result A T i r slot c = (Ok (), c1)" for c1
    proof (rule Cons.IH)
      show "independent (W \<union> writes_of tx) (map snd b)" using Cons.prems(2) by (simp add: x)
      fix k
      assume k: "k \<notin> W \<union> writes_of tx"
      have "k \<notin> fst ` set (res_deltas r)" using Cons.prems(1) [of tx c0 r k] Ok k by (auto simp: x)
      then have "map_of (rev (res_deltas r)) k = None" by (simp add: map_of_eq_None_iff)
      then show "account_cache c1 k = c0 k"
        using commit_result_cache [OF cm] Cons.prems(3) [of k] k by (simp add: map_add_def)
    qed (use Cons.prems(1) in auto)
    have "execute_seq run A T slot (x # b) c = (Ok (), c') \<longleftrightarrow>
        (\<exists>c1. commit_result A T i r slot c = (Ok (), c1) \<and> execute_seq run A T slot b c1 = (Ok (), c'))"
      by (simp add: x run_simps eq Ok bind_Ok_iff)
    also have "\<dots> \<longleftrightarrow> (\<exists>rs. collect_results (map (\<lambda>(i, tx). (i, run tx c0)) b) = Some rs \<and> map fst rs = map fst b \<and>
        (\<exists>c1. commit_result A T i r slot c = (Ok (), c1) \<and> commit_all A T slot rs c1 = (Ok (), c')))"
      using step by blast
    also have "\<dots> \<longleftrightarrow> (\<exists>rs. collect_results (map (\<lambda>(i, tx). (i, run tx c0)) b) = Some rs \<and> map fst rs = map fst b \<and>
        commit_all A T slot ((i, r) # rs) c = (Ok (), c'))"
      by (simp add: bind_Ok_iff)
    finally show ?thesis by (auto simp: x Ok)
  qed (simp_all add: x eq run_simps ok_iff)
qed (simp add: ok_iff)

lemma sort_delivered:
  assumes "\<And>xs. mset (deliver xs) = mset xs" and "sorted (map fst rs)" and "distinct (map fst rs)"
  shows "sort_key fst (deliver rs) = (rs :: (nat \<times> 'r) list)"
proof (rule sort_key_inj_key_eq)
  show "mset (deliver rs) = mset rs" by (rule assms(1))
  then have "set (deliver rs) = set rs" by (rule mset_eq_setD)
  with assms(3) show "inj_on fst (set (deliver rs))" by (simp add: distinct_map)
qed (rule assms(2))

lemma execute_batches_seq:
  assumes cong: "\<And>tx c c'. (\<And>k. k \<in> keys_of tx \<Longrightarrow> c k = c' k) \<Longrightarrow> run tx c = run tx c'"
    and writes: "\<And>tx c r k. tx \<in> set txs \<Longrightarrow> run tx c = Ok r \<Longrightarrow> k \<in> fst ` set (res_deltas r) \<Longrightarrow> k \<in> writes_of tx"
    and deliver: "\<And>xs. mset (deliver xs) = mset xs"
    and "\<forall>b \<in> set bs. independent {} (map ((!) txs) b) \<and> sorted b \<and> distinct b \<and> (\<forall>i \<in> set b. i < length txs)"
  shows "execute_batches run A T slot deliver txs bs c = (Ok (), c') \<longleftrightarrow>
    execute_seq run A T slot (map (\<lambda>i. (i, txs ! i)) (concat bs)) c = (Ok (), c')"
  using assms(4)
proof (induction bs arbitrary: c)
  case (Cons b bs)
  let ?b = "map (\<lambda>i. (i, txs ! i)) b"
  have b: "independent {} (map ((!) txs) b)" "sorted b" "distinct b" "\<forall>i \<in> set b. i < length txs" using Cons.prems by auto
  have run_b: "map (\<lambda>(i, tx). (i, run tx (account_cache c))) ?b = map (\<lambda>i. (i, run (txs ! i) (account_cache c))) b" by simp
  have seq: "execute_seq run A T slot ?b c = (Ok (), c1) \<longleftrightarrow>
    (\<exists>rs. collect_results (map (\<lambda>i. (i, run (txs ! i) (account_cache c))) b) = Some rs \<and> map fst rs = b \<and> commit_all A T slot rs c = (Ok (), c1))" for c1
  proof -
    have ind: "independent {} (map snd ?b)" using b(1) by (simp add: comp_def)
    have w: "k \<in> writes_of tx" if "tx \<in> snd ` set ?b" "run tx c = Ok r" "k \<in> fst ` set (res_deltas r)" for tx c r k
    proof (rule writes [OF _ that(2,3)])
      show "tx \<in> set txs" using that(1) b(4) by auto
    qed
    have "map fst ?b = b" by (simp add: comp_def)
    then show ?thesis using batch_seq [of run ?b "{}" c "account_cache c" A T slot c1, OF cong w ind refl] unfolding run_b by simp
  qed
  have srt: "sort_key fst (deliver rs) = rs" if "map fst rs = b" for rs
    by (rule sort_delivered [OF deliver]) (simp_all add: that b)
  have col: "map fst rs = b" if "collect_results (map (\<lambda>i. (i, run (txs ! i) (account_cache c))) b) = Some rs" for rs
    using that by (induction b arbitrary: rs) (auto split: outcome.splits)
  have "execute_batches run A T slot deliver txs (b # bs) c = (Ok (), c') \<longleftrightarrow>
      (\<exists>rs c1. collect_results (map (\<lambda>i. (i, run (txs ! i) (account_cache c))) b) = Some rs \<and> commit_all A T slot rs c = (Ok (), c1) \<and>
         execute_batches run A T slot deliver txs bs c1 = (Ok (), c'))"
    using col srt by (auto simp: run_simps bind_Ok_iff ok_iff split: option.splits)
  also have "\<dots> \<longleftrightarrow> (\<exists>c1. execute_seq run A T slot ?b c = (Ok (), c1) \<and> execute_batches run A T slot deliver txs bs c1 = (Ok (), c'))"
    unfolding seq using col by blast
  also have "\<dots> \<longleftrightarrow> (\<exists>c1. execute_seq run A T slot ?b c = (Ok (), c1) \<and>
      execute_seq run A T slot (map (\<lambda>i. (i, txs ! i)) (concat bs)) c1 = (Ok (), c'))"
    using Cons.IH Cons.prems by simp
  finally show ?case by (simp add: execute_seq_append bind_Ok_iff)
qed simp

lemma run_tx_in_cong: "(\<And>k. k \<in> keys_of tx \<Longrightarrow> c k = c' k) \<Longrightarrow> run_tx_in E st sysvars lps slot c tx = run_tx_in E st sysvars lps slot c' tx"
  unfolding run_tx_in_def by (rule execute_cong) (simp add: lookup_account_def)

lemma parallel_committer:
  assumes "engine_keeps_keys E" and "\<forall>tx \<in> set txs. payer_writable tx" and "\<And>xs. mset (deliver xs) = mset xs"
    and run: "run = (\<lambda>tx cache. run_tx_in E st sysvars lps slot cache tx)"
  shows "execute_batches run A T slot deliver txs (schedule txs) c = (Ok (), c') \<longleftrightarrow>
    execute_seq run A T slot (enumerate 0 txs) c = (Ok (), c')"
proof -
  have "\<forall>i \<in> set b. i < length txs" if "b \<in> set (schedule txs)" for b
    using that schedule_concat [of txs] by (metis UN_I atLeastLessThan_iff set_concat set_upt)
  then have bs: "\<forall>b \<in> set (schedule txs). independent {} (map ((!) txs) b) \<and> sorted b \<and> distinct b \<and> (\<forall>i \<in> set b. i < length txs)"
    using schedule_independent schedule_sorted by blast
  have "execute_batches run A T slot deliver txs (schedule txs) c = (Ok (), c') \<longleftrightarrow>
    execute_seq run A T slot (map (\<lambda>i. (i, txs ! i)) (concat (schedule txs))) c = (Ok (), c')"
  proof (rule execute_batches_seq)
    show "run tx c = run tx c'" if "\<And>k. k \<in> keys_of tx \<Longrightarrow> c k = c' k" for tx c c'
      unfolding run by (rule run_tx_in_cong [OF that])
    show "k \<in> writes_of tx" if "tx \<in> set txs" "run tx c = Ok r" "k \<in> fst ` set (res_deltas r)" for tx c r k
      using that deltas_writable [OF _ assms(1)] assms(2) unfolding run run_tx_in_def by fastforce
  qed (use assms(3) bs in auto)
  moreover have "map (\<lambda>i. (i, txs ! i)) [0..<length txs] = enumerate 0 txs"
    by (rule nth_equalityI) (simp_all add: nth_enumerate_eq)
  ultimately show ?thesis by (simp add: schedule_concat)
qed

text \<open>C2: For transactions whose fee payer is writable, executing a slot in parallel batches returns a result exactly if executing
  it sequentially does, with the same result and the same database, in whatever order the threads deliver.\<close>

theorem parallel_equals_sequential:
  assumes "engine_keeps_keys E" and "\<forall>tx \<in> set txs. payer_writable tx" and "\<And>xs. mset (deliver xs) = mset xs"
  shows "execute_slot_parallel E D A T deliver slot txs sysvars lps d = (Ok r, d') \<longleftrightarrow>
    execute_slot E D A T slot txs sysvars lps d = (Ok r, d')"
proof -
  have fin: "finish_slot E D slot x d = (Ok r, d') \<longleftrightarrow> (\<exists>c. x = (Ok (), c) \<and> then_r (flush_all D c) (return (finalize E slot c)) d = (Ok r, d'))" for x
    by (cases x; cases "fst x") (auto simp: finish_slot_def ok_iff)
  show ?thesis
    unfolding execute_slot_parallel_def execute_slot_def fin
    using parallel_committer [OF assms refl, of "storage_of D A d" sysvars lps slot A T committer_new] by blast
qed

section \<open>What a slot writes\<close>

lemma tx_cf_neq [simp]:
  "CF_TRANSACTIONS \<noteq> CF_ACCOUNTS" "CF_TRANSACTIONS \<noteq> CF_ACCOUNT_INDEX" "CF_TRANSACTIONS \<noteq> CF_OWNER_INDEX"
  "CF_ADDRESS_SIGNATURES \<noteq> CF_ACCOUNTS" "CF_ADDRESS_SIGNATURES \<noteq> CF_ACCOUNT_INDEX" "CF_ADDRESS_SIGNATURES \<noteq> CF_OWNER_INDEX"
  by (simp_all add: cf_defs)

text \<open>The batch of a committer, applied to the database the slot started from, has the accounts of its cache.\<close>

definition batch_matches :: "account codec \<Rightarrow> contents \<Rightarrow> slot_committer \<Rightarrow> bool" where
  "batch_matches A c0 c \<longleftrightarrow> ops_ok (sc_batch c) \<and> distinct (map fst (sc_cache c)) \<and>
     accounts_ok A (fold apply_op (sc_batch c) c0) \<and>
     (\<forall>a. current A (fold apply_op (sc_batch c) c0) a = (case account_cache c a of Some x \<Rightarrow> Some x | None \<Rightarrow> current A c0 a))"

lemma batch_matches_cong: "sc_batch c' = sc_batch c \<Longrightarrow> sc_cache c' = sc_cache c \<Longrightarrow> batch_matches A c0 c' = batch_matches A c0 c"
  by (simp add: batch_matches_def account_cache_def)

lemma batch_matches_other:
  assumes m: "batch_matches A c0 c" and b: "sc_batch c' = sc_batch c @ ops" "sc_cache c' = sc_cache c"
    and ops: "\<forall>op \<in> set ops. op_cf op \<in> {CF_TRANSACTIONS, CF_ADDRESS_SIGNATURES}"
  shows "batch_matches A c0 c'"
proof -
  let ?c = "fold apply_op (sc_batch c) c0"
  have "fold apply_op ops ?c CF_ACCOUNTS = ?c CF_ACCOUNTS" "fold apply_op ops ?c CF_ACCOUNT_INDEX = ?c CF_ACCOUNT_INDEX"
    by (rule apply_other_cf, use ops in force)+
  note same = tables_cong(3) [OF this, of A] tables_cong(4) [OF this, of A]
  have "ops_ok ops" using ops by (fastforce simp: ops_ok_def op_cf_def)
  with m same show ?thesis by (simp add: batch_matches_def b account_cache_def)
qed

context account_store
begin

lemma commit_deltas_matches:
  "batch_matches A c0 c \<Longrightarrow> commit_deltas A slot loaded ds c = (Ok (), c') \<Longrightarrow> batch_matches A c0 c'"
proof (induction ds arbitrary: c)
  case (Cons d ds)
  obtain a x where d: "d = (a, x)" by fastforce
  from Cons.prems(2) obtain v where v: "to_vec A x = Inr v"
    and rest: "commit_deltas A slot loaded ds
      (c\<lparr>sc_batch := sc_batch c @ account_ops v a slot x (map_of loaded a), sc_hashed := sc_hashed c @ account_hash_input a x,
         sc_cache := AList.update a x (sc_cache c)\<rparr>) = (Ok (), c')"
    by (cases "to_vec A x") (auto simp: d ok_iff lift_storage_Ok append_account_write_with_old_def write_account_run write_account_fail)
  let ?c = "fold apply_op (sc_batch c) c0" and ?o = "account_ops v a slot x (map_of loaded a)"
  note w = write_view [OF v, where a = a and slot = slot and old = "map_of loaded a" and c = ?c]
  have cur: "current A (fold apply_op ?o ?c) b = (if b = a then Some x else current A ?c b)" for b
    unfolding current_def [of A "fold apply_op ?o ?c"] w by (simp add: current_def [of A ?c b])
  have "batch_matches A c0 (c\<lparr>sc_batch := sc_batch c @ ?o, sc_hashed := sc_hashed c @ account_hash_input a x,
         sc_cache := AList.update a x (sc_cache c)\<rparr>)"
    using Cons.prems(1) w(3) cur by (auto simp: batch_matches_def account_cache_def update_conv' distinct_update split: option.splits)
  then show ?case using rest by (rule Cons.IH)
qed (simp add: ok_iff)

lemma commit_result_matches:
  assumes m: "batch_matches A c0 c" and run: "commit_result A T i r slot c = (Ok (), c')"
  shows "batch_matches A c0 c'"
proof -
  from run obtain c1 c2 v where c1: "commit_deltas A slot (res_loaded r) (res_deltas r) c1 = (Ok (), c2)"
    "sc_cache c1 = sc_cache c" "sc_batch c1 = sc_batch c"
    and c': "sc_cache c' = sc_cache c2" "sc_batch c' = fold (\<lambda>(address, _) b. append_address_signature b address slot (of_nat i) (res_hash r))
                     (res_deltas r) (sc_batch c2 @ [BatchPut CF_TRANSACTIONS (hash_bytes (res_hash r)) v])"
    by (auto simp: commit_result_def Let_def ok_iff lift_append_status
        split: sum.splits prod.splits tx_status.splits)
  have "batch_matches A c0 c1" using m unfolding batch_matches_cong [OF c1(3,2)] .
  from commit_deltas_matches [OF this c1(1)] have m2: "batch_matches A c0 c2" .
  show ?thesis
    by (rule batch_matches_other [OF m2 c'(2) [unfolded fold_signatures append_assoc] c'(1)]) (auto simp: op_cf_def)
qed

lemma execute_seq_matches:
  "batch_matches A c0 c \<Longrightarrow> execute_seq run A T slot xs c = (Ok (), c') \<Longrightarrow> batch_matches A c0 c'"
proof (induction xs arbitrary: c)
  case (Cons x xs)
  obtain i tx where x: "x = (i, tx)" by fastforce
  from Cons.prems(2) obtain r c1 where "commit_result A T i r slot c = (Ok (), c1)" "execute_seq run A T slot xs c1 = (Ok (), c')"
    by (auto simp: x ok_iff split: outcome.splits)
  with commit_result_matches [OF Cons.prems(1)] Cons.IH show ?case by blast
qed (simp add: ok_iff)

end

text \<open>C3: After a slot has been executed and written, the database reads back the final version of every account in the result, each of
  which is listed once, and all other accounts read as before; the account tables stay well-formed.\<close>

theorem slot_result_written:
  assumes kv: "kv_store D" and "borsh_codec A" and ok: "accounts_ok A (db_get D d)"
    and run: "execute_slot E D A T slot txs sysvars lps d = (Ok r, d')"
  shows "accounts_ok A (db_get D d') \<and> distinct (map fst (sr_deltas r)) \<and>
    (\<forall>(a, x) \<in> set (sr_deltas r). get_account_db D A a d' = (Ok (Some x), d')) \<and>
    (\<forall>a. a \<notin> fst ` set (sr_deltas r) \<longrightarrow> get_account_db D A a d' = (fst (get_account_db D A a d), d'))"
proof -
  have st: "account_store D A" using assms(1,2) by (rule account_store.intro)
  obtain c where seq: "execute_seq (\<lambda>tx cache. run_tx_in E (storage_of D A d) sysvars lps slot cache tx) A T slot (enumerate 0 txs) committer_new = (Ok (), c)"
    and fl: "flush_all D c d = (Ok (), d')" and r: "r = finalize E slot c"
    using run by (auto simp: execute_slot_def finish_slot_def ok_iff split: prod.splits outcome.splits)
  have "batch_matches A (db_get D d) committer_new" using ok by (simp add: batch_matches_def committer_new_def account_cache_def)
  from account_store.execute_seq_matches [OF st this seq] have m: "batch_matches A (db_get D d) c" .
  have d': "db_get D d' = fold apply_op (sc_batch c) (db_get D d)"
    using fl m by (cases "sc_batch c = []") (auto simp: flush_all_def run_simps storage_write_run batch_matches_def kv_store.get_apply [OF kv])
  have dis: "distinct (map fst (sc_cache c))" and cur: "current A (db_get D d') a = (case account_cache c a of Some x \<Rightarrow> Some x | None \<Rightarrow> current A (db_get D d) a)"
    and ok': "accounts_ok A (db_get D d')" for a
    using m by (simp_all add: batch_matches_def d')
  have set: "set (sr_deltas r) = set (sc_cache c)" by (simp add: r finalize_def)
  have "distinct (map fst (sr_deltas r))" using dis by (simp add: r finalize_def distinct_map distinct_sort)
  moreover have "get_account_db D A a d' = (Ok (Some x), d')" if "(a, x) \<in> set (sr_deltas r)" for a x
    using that dis by (simp add: account_store.get_account_run [OF st ok'] cur account_cache_def set)
  moreover have "get_account_db D A a d' = (fst (get_account_db D A a d), d')" if "a \<notin> fst ` set (sr_deltas r)" for a
  proof -
    have "account_cache c a = None" using that by (simp add: account_cache_def map_of_eq_None_iff set)
    then show ?thesis by (simp add: account_store.get_account_run [OF st ok'] account_store.get_account_run [OF st ok] cur)
  qed
  ultimately show ?thesis using ok' by blast
qed

section \<open>The fee payer and the scheduler\<close>

text \<open>A message without instructions whose only account signs and pays, with the number of read-only signers left open.\<close>

definition payer_tx :: "u8 \<Rightarrow> hash \<Rightarrow> hash \<Rightarrow> transaction" where
  "payer_tx readonly payer blockhash = \<lparr>signatures = [[]], signer_pubkeys = [[]],
     tx_message = \<lparr>num_required_signatures = 1, num_readonly_signed = readonly, num_readonly_unsigned = 0, account_keys = [payer],
                   recent_blockhash = blockhash, instructions = []\<rparr>\<rparr>"

definition charged :: "u64 \<Rightarrow> account \<Rightarrow> account" where
  "charged fee a = a\<lparr>acc_lamports := acc_lamports a - fee\<rparr>"

definition stale_result :: "env \<Rightarrow> bytes \<Rightarrow> hash \<Rightarrow> u64 \<Rightarrow> account \<Rightarrow> tx_result" where
  "stale_result E b payer fee q = \<lparr>res_hash = sha3_512 E b, res_status = Inl BlockhashNotFound, res_fee = fee, res_compute = 0,
     res_deltas = [(payer, charged fee q)], res_pre_balances = [acc_lamports q], res_post_balances = [acc_lamports (charged fee q)],
     res_loaded = [(payer, q)]\<rparr>"

definition stale_meta :: "u64 \<Rightarrow> u64 \<Rightarrow> u64 \<Rightarrow> u64 \<Rightarrow> tx_status_meta" where
  "stale_meta slot fee pre post = \<lparr>ts_slot = slot, ts_status = TxFailed (runtime_error_display BlockhashNotFound), ts_fee = fee,
     ts_pre_balances = [pre], ts_post_balances = [post], ts_compute = 0\<rparr>"

lemma stale_run:
  assumes b: "to_vec (message_fmt E) (tx_message (payer_tx ro payer bh)) = Inr b"
    and look: "lookup_account st (Some cache) payer = Inr q" "acc_data q = []" and fee: "calculate_fee lps 1 \<le> acc_lamports q"
    and bh: "bh \<notin> set (sv_recent_blockhashes sysvars)" "slot \<noteq> 0"
  shows "run_tx_in E st sysvars lps slot cache (payer_tx ro payer bh) = Ok (stale_result E b payer (calculate_fee lps 1) q)"
proof -
  let ?tx = "payer_tx ro payer bh"
  have l: "load_accounts st (account_keys (tx_message ?tx)) (loaded_accounts_data_size_limit compute_budget_default) (Some cache) = Ok [(payer, q)]"
    using look by (simp add: load_accounts_def payer_tx_def Let_def not_less)
  have p: "parse_compute_budget E (tx_message ?tx) = Ok compute_budget_default"
    by (rule parse_no_instructions) (simp add: payer_tx_def)
  have s: "sanitize_message (tx_message ?tx) = Ok ()" by (simp add: sanitize_message_def payer_tx_def)
  have h: "num_required_signatures (tx_message ?tx) = 1" "recent_blockhash (tx_message ?tx) = bh" by (simp_all add: payer_tx_def)
  show ?thesis
    unfolding run_tx_in_def execute_transaction_loaded [OF b s p l] h
    using fee bh by (simp add: execute_loaded_def h Let_def contains_blockhash_def not_less stale_result_def charged_def)
qed

lemma commit_stale:
  assumes T: "\<forall>fee pre post. \<exists>v. to_vec T (stale_meta slot fee pre post) = Inr v"
    and A: "\<forall>x. acc_data x = [] \<longrightarrow> (\<exists>v. to_vec A x = Inr v)" and q: "acc_data q = []" and ok: "ops_ok (sc_batch c)"
  shows "\<exists>c'. commit_result A T i (stale_result E b payer fee q) slot c = (Ok (), c') \<and> sc_fees c' = sc_fees c + fee \<and>
    sc_cache c' = AList.update payer (charged fee q) (sc_cache c) \<and> ops_ok (sc_batch c')"
proof -
  from A q obtain v where v: "to_vec A (charged fee q) = Inr v" by (metis account.simps(9) account.ext_inject account.surjective charged_def account.update_convs(1))
  obtain u where u: "to_vec T (stale_meta slot fee (acc_lamports q) (acc_lamports (charged fee q))) = Inr u" using T by blast
  show ?thesis
    using ok u by (simp add: commit_result_def stale_result_def run_simps lift_storage_def append_account_write_with_old_def stale_meta_def
        write_account_run [OF v] append_transaction_status_def encode_def append_address_signature_def batch_put_def op_cf_def)
qed

text \<open>Two such transactions with an unknown block hash: in sequence the payer is charged twice, in one batch once.\<close>

lemma stale_pair:
  assumes T: "\<forall>fee pre post. \<exists>v. to_vec T (stale_meta slot fee pre post) = Inr v"
    and A: "\<forall>x. acc_data x = [] \<longrightarrow> (\<exists>v. to_vec A x = Inr v)"
    and b: "to_vec (message_fmt E) (tx_message (payer_tx ro payer bh)) = Inr b"
    and p: "get_account_db D A payer d = (Ok (Some p), d)" "acc_data p = []" "2 * unat (calculate_fee lps 1) \<le> unat (acc_lamports p)"
    and bh: "bh \<notin> set (sv_recent_blockhashes sysvars)" "slot \<noteq> 0"
  defines "fee \<equiv> calculate_fee lps 1" and "tx \<equiv> payer_tx ro payer bh"
  shows "\<exists>c2 d1 c3 d2. execute_slot E D A T slot [tx, tx] sysvars lps d = (Ok (finalize E slot c2), d1) \<and>
      (schedule [tx, tx] = [[0, 1]] \<longrightarrow>
        execute_slot_parallel E D A T (\<lambda>xs. xs) slot [tx, tx] sysvars lps d = (Ok (finalize E slot c3), d2)) \<and>
      sc_cache c2 = [(payer, charged fee (charged fee p))] \<and> sc_cache c3 = [(payer, charged fee p)] \<and>
      sc_fees c2 = fee + fee \<and> sc_fees c3 = fee + fee"
proof -
  let ?run = "\<lambda>tx cache. run_tx_in E (storage_of D A d) sysvars lps slot cache tx"
  have f1: "fee \<le> acc_lamports p" and f2: "fee \<le> acc_lamports (charged fee p)"
    using p(3) by (simp_all add: fee_def word_le_nat_alt charged_def unat_sub_le)
  have st: "storage_of D A d payer = Inr (Some p)" by (simp add: storage_of_def p)
  have l1: "lookup_account (storage_of D A d) (Some Map.empty) payer = Inr p" by (simp add: lookup_account_def st)
  have r1: "?run tx Map.empty = Ok (stale_result E b payer fee p)"
    unfolding tx_def fee_def by (rule stale_run [OF b l1 p(2) f1 [unfolded fee_def] bh])
  have r2: "?run tx cache = Ok (stale_result E b payer fee (charged fee p))" if "cache payer = Some (charged fee p)" for cache
    unfolding tx_def fee_def
    by (rule stale_run [OF b _ _ f2 [unfolded fee_def] bh]) (simp_all add: lookup_account_def that [unfolded fee_def] charged_def p(2))
  note commit = commit_stale [OF T A, where E = E and b = b and payer = payer and fee = fee]
  have new: "sc_fees committer_new = 0" "sc_cache committer_new = []" "ops_ok (sc_batch committer_new)" by (simp_all add: committer_new_def)
  obtain c1 where c1: "commit_result A T 0 (stale_result E b payer fee p) slot committer_new = (Ok (), c1)"
    "sc_fees c1 = fee" "sc_cache c1 = [(payer, charged fee p)]" "ops_ok (sc_batch c1)"
    using commit [OF p(2) new(3), of 0] by (auto simp: new)
  have q: "acc_data (charged fee p) = []" using p(2) by (simp add: charged_def)
  obtain c2 where c2: "commit_result A T 1 (stale_result E b payer fee (charged fee p)) slot c1 = (Ok (), c2)"
    "sc_fees c2 = fee + fee" "sc_cache c2 = [(payer, charged fee (charged fee p))]" "ops_ok (sc_batch c2)"
    using commit [OF q c1(4), of 1] c1(2,3) by auto
  obtain c3 where c3: "commit_result A T 1 (stale_result E b payer fee p) slot c1 = (Ok (), c3)"
    "sc_fees c3 = fee + fee" "sc_cache c3 = [(payer, charged fee p)]" "ops_ok (sc_batch c3)"
    using commit [OF p(2) c1(4), of 1] c1(2,3) by auto
  have ch: "account_cache committer_new = Map.empty" "account_cache c1 payer = Some (charged fee p)"
    by (simp_all add: account_cache_def committer_new_def c1)
  have seq: "execute_seq ?run A T slot (enumerate 0 [tx, tx]) committer_new = (Ok (), c2)"
    using c1(1) c2(1) r1 r2 [of "account_cache c1", OF ch(2)] ch(1) by (simp add: run_simps)
  have par: "execute_batches ?run A T slot (\<lambda>xs. xs) [tx, tx] [[0, 1]] committer_new = (Ok (), c3)"
    using c1(1) c3(1) r1 ch(1) by (simp add: run_simps)
  have fl: "\<exists>d'. flush_all D c d = (Ok (), d')" if "ops_ok (sc_batch c)" for c
    using that by (cases "sc_batch c = []") (simp_all add: flush_all_def run_simps storage_write_run)
  obtain d1 d2 where fl2: "flush_all D c2 d = (Ok (), d1)" "flush_all D c3 d = (Ok (), d2)" using fl c2(4) c3(4) by blast
  have "execute_slot E D A T slot [tx, tx] sysvars lps d = (Ok (finalize E slot c2), d1)"
    unfolding execute_slot_def seq using fl2 by (simp add: finish_slot_def run_simps)
  moreover have "execute_slot_parallel E D A T (\<lambda>xs. xs) slot [tx, tx] sysvars lps d = (Ok (finalize E slot c3), d2)"
    if sch: "schedule [tx, tx] = [[0, 1]]"
    unfolding execute_slot_parallel_def sch par using fl2 by (simp add: finish_slot_def run_simps)
  ultimately show ?thesis using c2(2,3) c3(2,3) by blast
qed

text \<open>C39: Without the condition on the payer the two executors disagree. Two transactions of the same payer, which their messages mark
  read-only, and with an unknown block hash, end up in one batch. Executed sequentially they take the fee twice, executed in parallel
  the second overwrites the first and the payer is charged once; both report the same fees.\<close>

theorem readonly_payer_diverges:
  assumes T: "\<forall>fee pre post. \<exists>v. to_vec T (stale_meta slot fee pre post) = Inr v"
    and A: "\<forall>x. acc_data x = [] \<longrightarrow> (\<exists>v. to_vec A x = Inr v)"
    and b: "to_vec (message_fmt E) (tx_message (payer_tx 1 payer bh)) = Inr b"
    and p: "get_account_db D A payer d = (Ok (Some p), d)" "acc_data p = []" "2 * unat (calculate_fee lps 1) \<le> unat (acc_lamports p)"
    and bh: "bh \<notin> set (sv_recent_blockhashes sysvars)" "slot \<noteq> 0"
  shows "\<exists>r1 d1 r2 d2. let fee = calculate_fee lps 1; txs = [payer_tx 1 payer bh, payer_tx 1 payer bh] in
    execute_slot E D A T slot txs sysvars lps d = (Ok r1, d1) \<and>
    execute_slot_parallel E D A T (\<lambda>xs. xs) slot txs sysvars lps d = (Ok r2, d2) \<and>
    sr_deltas r1 = [(payer, p\<lparr>acc_lamports := acc_lamports p - fee - fee\<rparr>)] \<and>
    sr_deltas r2 = [(payer, p\<lparr>acc_lamports := acc_lamports p - fee\<rparr>)] \<and> sr_fees r1 = fee + fee \<and> sr_fees r2 = fee + fee"
proof -
  have "as_writable (extract_access_set (payer_tx 1 payer bh)) = []"
    by (simp add: extract_access_set_def payer_tx_def is_writable_def is_signer_def)
  then have "schedule [payer_tx 1 payer bh, payer_tx 1 payer bh] = [[0, 1]]" by (simp add: schedule_def Let_def)
  with stale_pair [OF T A b p bh] show ?thesis unfolding Let_def by (auto simp: finalize_def charged_def)
qed

section \<open>Witnesses\<close>

text \<open>The documented format of a transaction status, and a database that holds one account.\<close>

definition tx_status_codec :: "tx_status codec" where
  "tx_status_codec = enum_codec (\<lambda>s. case s of TxSuccess \<Rightarrow> 0 | TxFailed _ \<Rightarrow> 1)
     [iso_codec (\<lambda>_. ()) (\<lambda>_. TxSuccess) unit_codec, iso_codec (\<lambda>s. case s of TxFailed e \<Rightarrow> e | TxSuccess \<Rightarrow> []) TxFailed string_codec]"

definition tx_status_meta_codec :: "tx_status_meta codec" where
  "tx_status_meta_codec = iso_codec (\<lambda>m. (ts_slot m, ts_status m, ts_fee m, ts_pre_balances m, ts_post_balances m, ts_compute m))
     (\<lambda>(s, st, f, pre, post, cu). \<lparr>ts_slot = s, ts_status = st, ts_fee = f, ts_pre_balances = pre, ts_post_balances = post, ts_compute = cu\<rparr>)
     (prod_codec u64_codec (prod_codec tx_status_codec (prod_codec u64_codec (prod_codec (vec_codec u64_codec)
       (prod_codec (vec_codec u64_codec) u64_codec)))))"

lemma stale_meta_ser: "\<exists>v. to_vec tx_status_meta_codec (stale_meta slot fee pre post) = Inr v"
  by (simp add: tx_status_meta_codec_def stale_meta_def iso_codec_def prod_codec_def vec_codec_def u64_codec_def le_codec_def
      tx_status_codec_def enum_codec_def string_codec_def u8_codec_def runtime_error_display_def)

lemma payer_tx_ser: "\<exists>b. to_vec (message_fmt sample_env) (tx_message (payer_tx ro payer bh)) = Inr b"
  by (simp add: payer_tx_def sample_env_def message_codec_def iso_codec_def prod_codec_def vec_codec_def u8_codec_def le_codec_def hash_codec_def)

lemma idle_account_ser: "acc_data x = [] \<Longrightarrow> \<exists>v. to_vec account_codec x = Inr v"
  by (cases x) (simp add: account_codec_def iso_codec_def prod_codec_def vec_codec_def u64_codec_def le_codec_def hash_codec_def bool_codec_def)

text \<open>The account 5, which holds 30000 lamports.\<close>

lemma one_account_run:
  "accounts_ok account_codec (db_get fmap_rocksdb (one_account_db 5 (account_new 30000 9)))"
  "get_account_db fmap_rocksdb account_codec 5 (one_account_db 5 (account_new 30000 9)) =
    (Ok (Some (account_new 30000 9)), one_account_db 5 (account_new 30000 9))"
  using one_account_db_view [of "account_new 30000 9" 5] by (auto simp: account_new_def idle_account_ser)

lemma payer_pair_run:
  "\<exists>r d'. execute_slot sample_env fmap_rocksdb account_codec tx_status_meta_codec 7 [payer_tx ro 5 42, payer_tx ro 5 42] sample_sysvars 5000
      (one_account_db 5 (account_new 30000 9)) = (Ok r, d') \<and> sr_deltas r = [(5, account_new 20000 9)]"
proof -
  obtain b where b: "to_vec (message_fmt sample_env) (tx_message (payer_tx ro 5 42)) = Inr b" using payer_tx_ser by blast
  show ?thesis
    using stale_pair [where slot = 7 and T = tx_status_meta_codec and A = account_codec and lps = 5000 and sysvars = sample_sysvars,
        OF _ _ b one_account_run(2)] stale_meta_ser idle_account_ser
    by (force simp: account_new_def calculate_fee_def saturating_mul_def sample_sysvars_def finalize_def charged_def)
qed

theorem parallel_equals_sequential_witness:
  "\<exists>r d'. execute_slot_parallel sample_env fmap_rocksdb account_codec tx_status_meta_codec rev 7 [payer_tx 0 5 42, payer_tx 0 5 42] sample_sysvars 5000
      (one_account_db 5 (account_new 30000 9)) = (Ok r, d') \<and> sr_deltas r = [(5, account_new 20000 9)]"
proof -
  have w: "\<forall>tx \<in> set [payer_tx 0 5 42, payer_tx 0 5 42]. payer_writable tx"
    by (simp add: payer_writable_def payer_tx_def is_writable_def is_signer_def)
  show ?thesis unfolding parallel_equals_sequential [OF sample_engine w mset_rev] by (rule payer_pair_run)
qed

theorem slot_result_written_witness:
  "\<exists>d'. get_account_db fmap_rocksdb account_codec 5 d' = (Ok (Some (account_new 20000 9)), d')"
proof -
  obtain r d' where r: "execute_slot sample_env fmap_rocksdb account_codec tx_status_meta_codec 7 [payer_tx 0 5 42, payer_tx 0 5 42] sample_sysvars 5000
      (one_account_db 5 (account_new 30000 9)) = (Ok r, d')" "sr_deltas r = [(5, account_new 20000 9)]" using payer_pair_run by blast
  from slot_result_written [OF fmap_kv.kv_store_axioms account_codec_borsh one_account_run(1) r(1)] r(2) show ?thesis by auto
qed

theorem readonly_payer_diverges_witness:
  "\<exists>r1 d1 r2 d2. let txs = [payer_tx 1 5 42, payer_tx 1 5 42]; d = one_account_db 5 (account_new 30000 9) in
    execute_slot sample_env fmap_rocksdb account_codec tx_status_meta_codec 7 txs sample_sysvars 5000 d = (Ok r1, d1) \<and>
    execute_slot_parallel sample_env fmap_rocksdb account_codec tx_status_meta_codec (\<lambda>xs. xs) 7 txs sample_sysvars 5000 d = (Ok r2, d2) \<and>
    sr_deltas r1 = [(5, account_new 20000 9)] \<and> sr_deltas r2 = [(5, account_new 25000 9)] \<and> sr_fees r2 = 10000"
proof -
  obtain b where b: "to_vec (message_fmt sample_env) (tx_message (payer_tx 1 5 42)) = Inr b" using payer_tx_ser by blast
  have fee: "calculate_fee 5000 1 = 5000" by (simp add: calculate_fee_def saturating_mul_def)
  have T: "\<forall>fee pre post. \<exists>v. to_vec tx_status_meta_codec (stale_meta 7 fee pre post) = Inr v" using stale_meta_ser by blast
  have A: "\<forall>x. acc_data x = [] \<longrightarrow> (\<exists>v. to_vec account_codec x = Inr v)" using idle_account_ser by blast
  have "2 * unat (calculate_fee 5000 1) \<le> unat (acc_lamports (account_new 30000 9))" "acc_data (account_new 30000 9) = []"
    "42 \<notin> set (sv_recent_blockhashes sample_sysvars)" by (simp_all add: fee account_new_def sample_sysvars_def)
  note d = readonly_payer_diverges [OF T A b one_account_run(2) this(2,1,3), unfolded fee]
  show ?thesis using d unfolding Let_def by (fastforce simp: account_new_def)
qed

end
