(* ===== verification/Snapshot.thy ===== *)
theory Snapshot
  imports Accounts_Db
begin

text \<open>
  Snapshots of the account tables: \<open>storage/src/snapshot.rs\<close> and \<open>storage/src/snapshot_archive.rs\<close> without the
  file functions. An archive lists the current accounts; restoring it writes them in one batch behind a marker that
  tells an interrupted restore from a finished one.
\<close>

record snapshot_manifest =
  sm_slot :: u64
  sm_bank_hash :: hash
  sm_account_count :: u64
  sm_timestamp :: i64

record snapshot_archive =
  sa_manifest :: snapshot_manifest
  sa_accounts :: "(hash \<times> account) list"

definition SNAPSHOT_RESTORE_MARKER :: bytes where
  "SNAPSHOT_RESTORE_MARKER = str_bytes ''snapshot_restore_in_progress''"

definition put_snapshot :: "'d rocksdb \<Rightarrow> snapshot_manifest codec \<Rightarrow> snapshot_manifest \<Rightarrow> ('d, unit) st" where
  "put_snapshot D M manifest =
     bind_r (encode M manifest) (\<lambda>value. put_cf D CF_SNAPSHOTS (slot_key (sm_slot manifest)) value)"

definition get_snapshot :: "'d rocksdb \<Rightarrow> snapshot_manifest codec \<Rightarrow> u64 \<Rightarrow> ('d, snapshot_manifest option) st" where
  "get_snapshot D M slot =
    bind_r (get_cf D CF_SNAPSHOTS (slot_key slot)) (\<lambda>r.
    case r of Some bytes \<Rightarrow> bind_r (decode M bytes) (\<lambda>m. return (Some m)) | None \<Rightarrow> return None)"

definition get_latest_snapshot :: "'d rocksdb \<Rightarrow> snapshot_manifest codec \<Rightarrow> ('d, snapshot_manifest option) st" where
  "get_latest_snapshot D M =
    then_r (cf_handle CF_SNAPSHOTS)
    (bind_r (gets (\<lambda>d. db_rev D d CF_SNAPSHOTS)) (\<lambda>iter.
    case iter of (_, value) # _ \<Rightarrow> bind_r (decode M value) (\<lambda>m. return (Some m)) | [] \<Rightarrow> return None))"

fun snapshot_accounts :: "'d rocksdb \<Rightarrow> account codec \<Rightarrow> (bytes \<times> bytes) list \<Rightarrow> ('d, (hash \<times> account) list) st" where
  "snapshot_accounts D A [] = return []"
| "snapshot_accounts D A ((key, _) # iter) =
    (if length key \<noteq> 64 then snapshot_accounts D A iter
     else bind_r (try_hash (take 64 key) ''invalid address'') (\<lambda>address.
          bind_r (get_account_db D A address) (\<lambda>r.
          bind_r (snapshot_accounts D A iter) (\<lambda>accounts.
          return (case r of Some account \<Rightarrow> (address, account) # accounts | None \<Rightarrow> accounts)))))"

definition create_snapshot :: "'d rocksdb \<Rightarrow> account codec \<Rightarrow> snapshot_manifest codec \<Rightarrow> u64 \<Rightarrow> hash \<Rightarrow> i64 \<Rightarrow> ('d, snapshot_archive) st" where
  "create_snapshot D A M slot bank_hash timestamp =
    then_r (cf_handle CF_ACCOUNT_INDEX)
    (bind_r (gets (\<lambda>d. db_seek D d CF_ACCOUNT_INDEX [])) (\<lambda>iter.
    bind_r (snapshot_accounts D A iter) (\<lambda>accounts.
    let manifest = \<lparr>sm_slot = slot, sm_bank_hash = bank_hash, sm_account_count = of_nat (length accounts),
                    sm_timestamp = timestamp\<rparr> in
    then_r (put_snapshot D M manifest)
    (return \<lparr>sa_manifest = manifest, sa_accounts = accounts\<rparr>))))"

fun append_all :: "'d rocksdb \<Rightarrow> account codec \<Rightarrow> u64 \<Rightarrow> (hash \<times> account) list \<Rightarrow> write_batch \<Rightarrow> ('d, write_batch) st" where
  "append_all D A slot [] batch = return batch"
| "append_all D A slot ((address, account) # accounts) batch =
    bind_r (append_account_write D A batch address slot account) (append_all D A slot accounts)"

definition bootstrap_from_snapshot :: "'d rocksdb \<Rightarrow> account codec \<Rightarrow> snapshot_manifest codec \<Rightarrow> snapshot_archive \<Rightarrow> ('d, unit) st" where
  "bootstrap_from_snapshot D A M archive =
    (let slot = sm_slot (sa_manifest archive) in
     bind_r (append_all D A slot (sa_accounts archive) []) (\<lambda>batch.
     bind_r (encode M (sa_manifest archive)) (\<lambda>manifest_value.
     storage_write D (batch_put CF_SNAPSHOTS (slot_key slot) manifest_value batch))))"

definition restore_snapshot :: "'d rocksdb \<Rightarrow> account codec \<Rightarrow> snapshot_manifest codec \<Rightarrow> snapshot_archive \<Rightarrow> ('d, unit) st" where
  "restore_snapshot D A M archive =
    (let slot = sm_slot (sa_manifest archive) in
     then_r (put_cf D CF_DEFAULT SNAPSHOT_RESTORE_MARKER (le_enc 8 (unat slot)))
     (bind_r (append_all D A slot (sa_accounts archive) []) (\<lambda>batch.
      bind_r (encode M (sa_manifest archive)) (\<lambda>manifest_value.
      storage_write D
        (batch_delete CF_DEFAULT SNAPSHOT_RESTORE_MARKER
        (batch_put CF_BANK_HASHES (slot_key slot) (hash_bytes (sm_bank_hash (sa_manifest archive)))
        (batch_put CF_ROOTS (slot_key slot) []
        (batch_put CF_SNAPSHOTS (slot_key slot) manifest_value batch))))))))"

definition cleanup_partial_snapshot_restore :: "'d rocksdb \<Rightarrow> ('d, bool) st" where
  "cleanup_partial_snapshot_restore D =
    bind_r (get_cf D CF_DEFAULT SNAPSHOT_RESTORE_MARKER) (\<lambda>r.
    case r of
      Some _ \<Rightarrow> then_r (delete_cf D CF_DEFAULT SNAPSHOT_RESTORE_MARKER) (return True)
    | None \<Rightarrow> return False)"

section \<open>What an archive holds\<close>

lemma map_fst_map_filter:
  "map fst (List.map_filter (\<lambda>(k, _). map_option (Pair (g k)) (f (g k))) xs) = map g (filter (\<lambda>k. f (g k) \<noteq> None) (map fst xs))"
  by (induction xs) (auto simp: List.map_filter_simps split: option.splits)

lemma table_neq [simp]:
  "CF_DEFAULT \<noteq> CF_ACCOUNTS" "CF_ACCOUNTS \<noteq> CF_DEFAULT" "CF_DEFAULT \<noteq> CF_ACCOUNT_INDEX" "CF_ACCOUNT_INDEX \<noteq> CF_DEFAULT"
  "CF_DEFAULT \<noteq> CF_OWNER_INDEX" "CF_OWNER_INDEX \<noteq> CF_DEFAULT" "CF_DEFAULT \<noteq> CF_PROGRAM_INDEX" "CF_PROGRAM_INDEX \<noteq> CF_DEFAULT"
  "CF_SNAPSHOTS \<noteq> CF_ACCOUNTS" "CF_ACCOUNTS \<noteq> CF_SNAPSHOTS" "CF_SNAPSHOTS \<noteq> CF_ACCOUNT_INDEX" "CF_ACCOUNT_INDEX \<noteq> CF_SNAPSHOTS"
  "CF_SNAPSHOTS \<noteq> CF_OWNER_INDEX" "CF_OWNER_INDEX \<noteq> CF_SNAPSHOTS" "CF_SNAPSHOTS \<noteq> CF_PROGRAM_INDEX" "CF_PROGRAM_INDEX \<noteq> CF_SNAPSHOTS"
  "CF_ROOTS \<noteq> CF_ACCOUNTS" "CF_ACCOUNTS \<noteq> CF_ROOTS" "CF_ROOTS \<noteq> CF_ACCOUNT_INDEX" "CF_ACCOUNT_INDEX \<noteq> CF_ROOTS"
  "CF_ROOTS \<noteq> CF_OWNER_INDEX" "CF_OWNER_INDEX \<noteq> CF_ROOTS" "CF_ROOTS \<noteq> CF_PROGRAM_INDEX" "CF_PROGRAM_INDEX \<noteq> CF_ROOTS"
  "CF_BANK_HASHES \<noteq> CF_ACCOUNTS" "CF_ACCOUNTS \<noteq> CF_BANK_HASHES" "CF_BANK_HASHES \<noteq> CF_ACCOUNT_INDEX" "CF_ACCOUNT_INDEX \<noteq> CF_BANK_HASHES"
  "CF_BANK_HASHES \<noteq> CF_OWNER_INDEX" "CF_OWNER_INDEX \<noteq> CF_BANK_HASHES" "CF_BANK_HASHES \<noteq> CF_PROGRAM_INDEX" "CF_PROGRAM_INDEX \<noteq> CF_BANK_HASHES"
  "CF_DEFAULT \<noteq> CF_SNAPSHOTS" "CF_DEFAULT \<noteq> CF_ROOTS" "CF_DEFAULT \<noteq> CF_BANK_HASHES" "CF_SNAPSHOTS \<noteq> CF_DEFAULT"
  "CF_SNAPSHOTS \<noteq> CF_ROOTS" "CF_SNAPSHOTS \<noteq> CF_BANK_HASHES" "CF_ROOTS \<noteq> CF_DEFAULT" "CF_ROOTS \<noteq> CF_SNAPSHOTS"
  "CF_ROOTS \<noteq> CF_BANK_HASHES" "CF_BANK_HASHES \<noteq> CF_DEFAULT" "CF_BANK_HASHES \<noteq> CF_SNAPSHOTS" "CF_BANK_HASHES \<noteq> CF_ROOTS"
  by (simp_all add: cf_defs)

context account_store
begin

lemma snapshot_accounts_run:
  assumes ok: "accounts_ok A (db_get D d)"
    and "\<forall>e \<in> set iter. \<exists>a s. e = (hash_bytes a, slot_key s)"
  shows "snapshot_accounts D A iter d =
    (Ok (List.map_filter (\<lambda>(k, _). map_option (Pair (of_be k :: hash)) (current A (db_get D d) (of_be k))) iter), d)"
  using assms(2)
proof (induction iter)
  case (Cons e iter)
  then obtain a s where e: "e = (hash_bytes a, slot_key s)" by auto
  show ?case
    using Cons by (cases "current A (db_get D d) a")
      (simp_all add: e run_simps index_entry_run get_account_run [OF ok] List.map_filter_simps)
qed (simp add: run_simps List.map_filter_simps)

lemma snapshot_set:
  assumes ok: "accounts_ok A (db_get D d)"
  defines "acs \<equiv> List.map_filter (\<lambda>(k, _). map_option (Pair (of_be k :: hash)) (current A (db_get D d) (of_be k)))
    (db_seek D d CF_ACCOUNT_INDEX [])"
  shows "map_of acs = current A (db_get D d)" and "distinct (map fst acs)"
proof -
  let ?it = "db_seek D d CF_ACCOUNT_INDEX []"
  have mem: "(a, x) \<in> set acs \<longleftrightarrow> current A (db_get D d) a = Some x" for a x
  proof
    assume "(a, x) \<in> set acs"
    then show "current A (db_get D d) a = Some x" by (auto simp: acs_def List.map_filter_def)
  next
    assume cur: "current A (db_get D d) a = Some x"
    then obtain s where "pointer_of (db_get D d) a = Some s" by (cases "pointer_of (db_get D d) a") (auto simp: current_def)
    from pointer_stored [OF ok this] obtain v where "db_get D d CF_ACCOUNT_INDEX (hash_bytes a) = Some v" by blast
    then have "(hash_bytes a, v) \<in> set ?it" by (simp add: seek_set)
    with cur show "(a, x) \<in> set acs" by (force simp: acs_def List.map_filter_def)
  qed
  have "map fst acs = map of_be (filter (\<lambda>k. current A (db_get D d) (of_be k) \<noteq> None) (map fst ?it))"
    unfolding acs_def by (rule map_fst_map_filter)
  moreover have "inj_on (of_be :: bytes \<Rightarrow> hash) (set (map fst ?it))"
    by (rule inj_onI) (auto elim!: index_entries [OF ok])
  ultimately show d: "distinct (map fst acs)"
    using seek_distinct [of d CF_ACCOUNT_INDEX "[]"] by (auto simp: distinct_map intro: inj_on_subset)
  show "map_of acs = current A (db_get D d)"
  proof
    fix a
    show "map_of acs a = current A (db_get D d) a"
      using mem [of a] map_of_eq_Some_iff [OF d, of a] by (cases "current A (db_get D d) a"; cases "map_of acs a") auto
  qed
qed

text \<open>The batch of a restore into tables without accounts, and what it makes of them.\<close>

fun restore_ops :: "u64 \<Rightarrow> (hash \<times> account) list \<Rightarrow> write_batch" where
  "restore_ops slot [] = []"
| "restore_ops slot ((a, x) # acs) = account_ops (projr (to_vec A x)) a slot x None @ restore_ops slot acs"

lemma append_all_run:
  assumes ok: "accounts_ok A (db_get D e)" and none: "\<And>a. pointer_of (db_get D e) a = None"
    and "\<forall>(a, x) \<in> set acs. \<exists>v. to_vec A x = Inr v"
  shows "append_all D A slot acs batch e = (Ok (batch @ restore_ops slot acs), e)"
  using assms(3)
proof (induction acs arbitrary: batch)
  case (Cons p acs)
  then obtain a x v where p: "p = (a, x)" and v: "to_vec A x = Inr v" by (cases p) auto
  have "current A (db_get D e) a = None" by (simp add: current_def none)
  with Cons show ?case
    by (simp add: p append_account_write_def run_simps get_account_run [OF ok] write_account_run [OF v] v)
qed (simp add: run_simps)

lemma restore_ops_ok [simp]: "ops_ok (restore_ops slot acs)"
  by (induction acs rule: restore_ops.induct) simp_all

lemma restore_ops_cf: "cf \<notin> {CF_ACCOUNTS, CF_ACCOUNT_INDEX, CF_OWNER_INDEX, CF_PROGRAM_INDEX} \<Longrightarrow> fold apply_op (restore_ops slot acs) c cf = c cf"
  by (induction acs arbitrary: c rule: restore_ops.induct) (simp_all add: account_ops_def index_ops_keep)

lemma restore_view:
  assumes "accounts_ok A c" and "\<forall>(a, x) \<in> set acs. \<exists>v. to_vec A x = Inr v" and "distinct (map fst acs)"
  shows "accounts_ok A (fold apply_op (restore_ops slot acs) c) \<and>
    current A (fold apply_op (restore_ops slot acs) c) b = (case map_of acs b of Some x \<Rightarrow> Some x | None \<Rightarrow> current A c b)"
  using assms
proof (induction acs arbitrary: c)
  case (Cons p acs)
  then obtain a x v where p: "p = (a, x)" and v: "to_vec A x = Inr v" by (cases p) auto
  let ?c = "fold apply_op (account_ops v a slot x None) c"
  note view = write_view [OF v, where a = a and slot = slot and old = None and c = c]
  have cur: "current A ?c b = (if b = a then Some x else current A c b)"
    unfolding current_def [of A ?c] view by (simp add: current_def [of A c b])
  have "map_of acs a = None" using Cons.prems(3) by (simp add: p map_of_eq_None_iff)
  moreover have "accounts_ok A (fold apply_op (restore_ops slot acs) ?c) \<and>
      current A (fold apply_op (restore_ops slot acs) ?c) b = (case map_of acs b of Some x \<Rightarrow> Some x | None \<Rightarrow> current A ?c b)"
    by (rule Cons.IH [OF view(3)]) (use Cons.prems in \<open>simp_all add: p\<close>)
  ultimately show ?case using cur by (cases "b = a"; cases "map_of acs b") (simp_all add: p v)
qed simp

lemma create_snapshot_Ok:
  assumes ok: "accounts_ok A (db_get D d)" and cr: "create_snapshot D A M slot bank_hash timestamp d = (Ok archive, d')"
  shows "map_of (sa_accounts archive) = current A (db_get D d) \<and> distinct (map fst (sa_accounts archive)) \<and>
    (\<forall>(a, x) \<in> set (sa_accounts archive). \<exists>v. to_vec A x = Inr v) \<and> (\<exists>m. to_vec M (sa_manifest archive) = Inr m) \<and>
    sm_slot (sa_manifest archive) = slot \<and> sm_bank_hash (sa_manifest archive) = bank_hash"
proof -
  let ?it = "db_seek D d CF_ACCOUNT_INDEX []"
  let ?acs = "List.map_filter (\<lambda>(k, _). map_option (Pair (of_be k :: hash)) (current A (db_get D d) (of_be k))) ?it"
  have "\<forall>e \<in> set ?it. \<exists>a s. e = (hash_bytes a, slot_key s)" using index_entries [OF ok] by blast
  note run = snapshot_accounts_run [OF ok this]
  note set = snapshot_set [OF ok]
  have "\<exists>v. to_vec A x = Inr v" if "(a, x) \<in> set ?acs" for a x
  proof -
    have "current A (db_get D d) a = Some x" using map_of_is_SomeI [OF set(2) that] set(1) by simp
    then obtain s where "account_at A (db_get D d) a s = Some x" by (cases "pointer_of (db_get D d) a") (auto simp: current_def)
    then show ?thesis using account_at_Some [OF ok, of a s] account_at_None [OF ok, of a s] by auto
  qed
  then have enc: "\<forall>(a, x) \<in> set ?acs. \<exists>v. to_vec A x = Inr v" by blast
  from cr run have ar: "sa_accounts archive = ?acs" "sm_slot (sa_manifest archive) = slot" "sm_bank_hash (sa_manifest archive) = bank_hash"
    "\<exists>m. to_vec M (sa_manifest archive) = Inr m"
    by (auto simp: create_snapshot_def ok_iff cf_handle_def put_snapshot_def encode_def Let_def)
  show ?thesis unfolding ar(1) using set enc ar(2-4) by blast
qed

end

section \<open>Restoring\<close>

text \<open>C30: A snapshot of one database, restored into another that holds no accounts, makes every account read as in the first. The
  snapshot slot becomes a root with the recorded bank hash, and the marker of an unfinished restore is gone.\<close>

theorem snapshot_roundtrip:
  assumes kv: "kv_store D" and "borsh_codec A"
    and ok: "accounts_ok A (db_get D d)" and cr: "create_snapshot D A M slot bank_hash timestamp d = (Ok archive, d')"
    and empty: "\<And>k. db_get D e CF_ACCOUNTS k = None" "\<And>k. db_get D e CF_ACCOUNT_INDEX k = None"
  shows "\<exists>e'. restore_snapshot D A M archive e = (Ok (), e') \<and>
    (\<forall>a. get_account_db D A a e' = (fst (get_account_db D A a d), e')) \<and>
    db_get D e' CF_ROOTS (slot_key slot) = Some [] \<and> db_get D e' CF_BANK_HASHES (slot_key slot) = Some (hash_bytes bank_hash) \<and>
    cleanup_partial_snapshot_restore D e' = (Ok False, e')"
proof -
  have st: "account_store D A" using assms(1,2) by (rule account_store.intro)
  obtain m where acs: "map_of (sa_accounts archive) = current A (db_get D d)" "distinct (map fst (sa_accounts archive))"
      "\<forall>(a, x) \<in> set (sa_accounts archive). \<exists>v. to_vec A x = Inr v"
    and m: "to_vec M (sa_manifest archive) = Inr m"
    and man: "sm_slot (sa_manifest archive) = slot" "sm_bank_hash (sa_manifest archive) = bank_hash"
    using account_store.create_snapshot_Ok [OF st ok cr] by blast
  let ?e1 = "db_apply D e [BatchPut CF_DEFAULT SNAPSHOT_RESTORE_MARKER (le_enc 8 (unat slot))]"
  let ?r = "account_store.restore_ops A slot (sa_accounts archive)"
  let ?ops = "?r @ [BatchPut CF_SNAPSHOTS (slot_key slot) m, BatchPut CF_ROOTS (slot_key slot) [],
    BatchPut CF_BANK_HASHES (slot_key slot) (hash_bytes bank_hash), BatchDelete CF_DEFAULT SNAPSHOT_RESTORE_MARKER]"
  let ?e2 = "db_apply D ?e1 ?ops"
  have g1: "db_get D ?e1 cf = db_get D e cf" if "cf \<noteq> CF_DEFAULT" for cf using that by (simp add: kv_store.get_apply [OF kv])
  have none: "pointer_of (db_get D ?e1) a = None" and ok1: "accounts_ok A (db_get D ?e1)" for a
    by (simp_all add: pointer_of_def accounts_ok_def g1 empty)
  have run: "restore_snapshot D A M archive e = (Ok (), ?e2)"
    by (simp add: restore_snapshot_def Let_def man run_simps put_cf_run account_store.append_all_run [OF st ok1 none acs(3)]
        encode_def m batch_put_def batch_delete_def storage_write_run account_store.restore_ops_ok [OF st] op_cf_def)
  have g2: "db_get D ?e2 cf = fold apply_op ?r (db_get D ?e1) cf" if "cf \<in> {CF_ACCOUNTS, CF_ACCOUNT_INDEX}" for cf
    using that by (auto simp: kv_store.get_apply [OF kv])
  have same: "current A (db_get D ?e2) = current A (fold apply_op ?r (db_get D ?e1))"
    "accounts_ok A (db_get D ?e2) = accounts_ok A (fold apply_op ?r (db_get D ?e1))"
    by (rule tables_cong; simp add: g2)+
  have view: "accounts_ok A (db_get D ?e2)" "current A (db_get D ?e2) a = current A (db_get D d) a" for a
    using account_store.restore_view [OF st ok1 acs(3) acs(2), of slot a]
    by (simp_all add: same acs(1) current_def [of A "db_get D ?e1"] none split: option.splits)
  have "get_account_db D A a ?e2 = (fst (get_account_db D A a d), ?e2)" for a
    using account_store.get_account_run [OF st view(1)] account_store.get_account_run [OF st ok] view(2) by simp
  moreover have "db_get D ?e2 CF_ROOTS (slot_key slot) = Some []" "db_get D ?e2 CF_BANK_HASHES (slot_key slot) = Some (hash_bytes bank_hash)"
    "db_get D ?e2 CF_DEFAULT SNAPSHOT_RESTORE_MARKER = None"
    by (simp_all add: kv_store.get_apply [OF kv] account_store.restore_ops_cf [OF st])
  moreover from this(3) have "cleanup_partial_snapshot_restore D ?e2 = (Ok False, ?e2)"
    by (simp add: cleanup_partial_snapshot_restore_def run_simps get_cf_run)
  ultimately show ?thesis using run by blast
qed

text \<open>A restore that is interrupted after its first write is detected, and cleaning it up gives back the database as it was.\<close>

theorem interrupted_restore_undone:
  assumes kv: "kv_store D" and none: "db_get D e CF_DEFAULT SNAPSHOT_RESTORE_MARKER = None"
  shows "\<exists>e1 e2. put_cf D CF_DEFAULT SNAPSHOT_RESTORE_MARKER (le_enc 8 (unat (slot :: u64))) e = (Ok (), e1) \<and>
    cleanup_partial_snapshot_restore D e1 = (Ok True, e2) \<and> db_get D e2 = db_get D e"
  using none by (simp add: put_cf_run cleanup_partial_snapshot_restore_def run_simps get_cf_run delete_cf_def cf_handle_def
      kv_store.get_apply [OF kv] fun_eq_iff)

section \<open>Witnesses\<close>

definition snapshot_manifest_codec :: "snapshot_manifest codec" where
  "snapshot_manifest_codec = iso_codec (\<lambda>m. (sm_slot m, sm_bank_hash m, sm_account_count m, sm_timestamp m))
     (\<lambda>(s, h, n, t). \<lparr>sm_slot = s, sm_bank_hash = h, sm_account_count = n, sm_timestamp = t\<rparr>)
     (prod_codec u64_codec (prod_codec hash_codec (prod_codec u64_codec (le_codec 8))))"

lemma put_snapshot_Ok: "\<exists>d'. put_snapshot fmap_rocksdb snapshot_manifest_codec m d = (Ok (), d')"
  by (simp add: put_snapshot_def run_simps encode_def put_cf_run snapshot_manifest_codec_def iso_codec_def prod_codec_def u64_codec_def
      le_codec_def hash_codec_def)

lemma create_snapshot_ok:
  assumes "accounts_ok account_codec (db_get fmap_rocksdb d)"
  shows "\<exists>archive d'. create_snapshot fmap_rocksdb account_codec snapshot_manifest_codec 2 77 0 d = (Ok archive, d')"
proof -
  let ?it = "db_seek fmap_rocksdb d CF_ACCOUNT_INDEX []"
  have "\<forall>e \<in> set ?it. \<exists>a s. e = (hash_bytes a, slot_key s)" using fmap_accounts.index_entries [OF assms] by blast
  note run = fmap_accounts.snapshot_accounts_run [OF assms this]
  let ?acs = "List.map_filter (\<lambda>(k, _). map_option (Pair (of_be k :: hash)) (current account_codec (db_get fmap_rocksdb d) (of_be k))) ?it"
  obtain d' where "put_snapshot fmap_rocksdb snapshot_manifest_codec
      \<lparr>sm_slot = 2, sm_bank_hash = 77, sm_account_count = of_nat (length ?acs), sm_timestamp = 0\<rparr> d = (Ok (), d')"
    using put_snapshot_Ok by blast
  then show ?thesis by (simp add: create_snapshot_def run_simps run cf_handle_def Let_def)
qed

theorem snapshot_roundtrip_witness:
  "\<exists>archive d' e'. create_snapshot fmap_rocksdb account_codec snapshot_manifest_codec 2 77 0 (one_account_db 5 (account_new 100 9)) = (Ok archive, d') \<and>
    restore_snapshot fmap_rocksdb account_codec snapshot_manifest_codec archive empty_db = (Ok (), e') \<and>
    get_account_db fmap_rocksdb account_codec 5 e' = (Ok (Some (account_new 100 9)), e')"
proof -
  note one = one_account_db_view [OF account_new_ser, of 5 100 9]
  obtain archive d' where cr: "create_snapshot fmap_rocksdb account_codec snapshot_manifest_codec 2 77 0 (one_account_db 5 (account_new 100 9)) = (Ok archive, d')"
    using create_snapshot_ok one by blast
  show ?thesis
    using snapshot_roundtrip [OF fmap_kv.kv_store_axioms account_codec_borsh _ cr empty_db_get empty_db_get] one cr by (metis fst_conv)
qed

end
