(* ===== verification/Ordered_Map.thy ===== *)
theory Ordered_Map
  imports Prelude "HOL-Library.Multiset"
begin

text \<open>
  The containers of the Rust standard library that the services use. A \<open>BTreeMap\<close> is an association list with
  strictly increasing keys, so iteration order, \<open>first\<close>, \<open>last\<close>, \<open>pop_first\<close> and \<open>split_off\<close> are those of the list. A
  \<open>HashMap\<close> is a partial map and a \<open>HashSet\<close> a set; where the code iterates over one, the order is a parameter.
\<close>

lemma unat_inc:
  fixes w :: "'a::len word"
  assumes "w \<noteq> - 1"
  shows "unat (w + 1) = unat w + 1"
proof -
  have "unat w \<noteq> 2 ^ LENGTH('a) - 1" using assms unat_minus_1 [where 'a = 'a] by (metis unsigned_word_eqI)
  then have "unat w + 1 < 2 ^ LENGTH('a)" using unat_bound [of w] by linarith
  then have "unat w + unat (1 :: 'a word) < 2 ^ LENGTH('a)" by simp
  then show ?thesis using unat_add_lem_less [of w 1] by simp
qed

text \<open>Reading a truth value and going on.\<close>

lemma run_bind_gets [run_simps]: "bind_r (gets f) g s = g (f s) s"
  by (simp add: bind_r_def gets_def)

section \<open>BTreeMap\<close>

definition bt_ok :: "('k::linorder \<times> 'v) list \<Rightarrow> bool" where
  "bt_ok m \<longleftrightarrow> sorted_wrt (<) (map fst m)"

fun bt_insert :: "'k::linorder \<Rightarrow> 'v \<Rightarrow> ('k \<times> 'v) list \<Rightarrow> ('k \<times> 'v) list" where
  "bt_insert k v [] = [(k, v)]"
| "bt_insert k v ((l, w) # m) =
    (if k < l then (k, v) # (l, w) # m else if k = l then (k, v) # m else (l, w) # bt_insert k v m)"

definition bt_remove :: "'k \<Rightarrow> ('k \<times> 'v) list \<Rightarrow> ('k \<times> 'v) list" where
  "bt_remove k m = filter (\<lambda>(l, _). l \<noteq> k) m"

text \<open>The part of the map at or above a key: \<open>split_off\<close>.\<close>

definition bt_from :: "'k::linorder \<Rightarrow> ('k \<times> 'v) list \<Rightarrow> ('k \<times> 'v) list" where
  "bt_from k m = filter (\<lambda>(l, _). k \<le> l) m"

lemma bt_ok_Nil [simp]: "bt_ok []"
  by (simp add: bt_ok_def)

lemma bt_ok_Cons: "bt_ok ((k, v) # m) \<longleftrightarrow> (\<forall>l \<in> fst ` set m. k < l) \<and> bt_ok m"
  by (auto simp: bt_ok_def)

lemma bt_ok_distinct: "bt_ok m \<Longrightarrow> distinct (map fst m)"
  by (simp add: bt_ok_def strict_sorted_iff)

lemma bt_ok_append: "bt_ok (a @ b) \<longleftrightarrow> bt_ok a \<and> bt_ok b \<and> (\<forall>k \<in> fst ` set a. \<forall>l \<in> fst ` set b. k < l)"
  by (auto simp: bt_ok_def sorted_wrt_append)

lemma bt_ok_filter: "bt_ok m \<Longrightarrow> bt_ok (filter P m)"
  by (induction m) (auto simp: bt_ok_Cons)

lemma bt_ok_eq: "bt_ok a \<Longrightarrow> bt_ok b \<Longrightarrow> set a = set b \<Longrightarrow> a = b"
  unfolding bt_ok_def by (rule map_sorted_distinct_set_unique [of fst]) (auto simp: strict_sorted_iff inj_on_def distinct_map dest: eq_key_imp_eq_value)

lemma fst_set_insert [simp]: "fst ` set (bt_insert k v m) = insert k (fst ` set m)"
  by (induction k v m rule: bt_insert.induct) auto

lemma bt_insert_ok [simp]: "bt_ok m \<Longrightarrow> bt_ok (bt_insert k v m)"
  by (induction k v m rule: bt_insert.induct) (auto simp: bt_ok_Cons)

lemma bt_insert_lookup: "bt_ok m \<Longrightarrow> map_of (bt_insert k v m) = (map_of m)(k \<mapsto> v)"
proof (induction k v m rule: bt_insert.induct)
  case (2 k v l w m)
  then show ?case by (auto simp: bt_ok_Cons fun_eq_iff)
qed (simp add: fun_eq_iff)

lemma bt_insert_new_set: "k \<notin> fst ` set m \<Longrightarrow> set (bt_insert k v m) = insert (k, v) (set m)"
  by (induction k v m rule: bt_insert.induct) auto

lemma bt_insert_new_mset: "k \<notin> fst ` set m \<Longrightarrow> mset (bt_insert k v m) = mset ((k, v) # m)"
  by (induction k v m rule: bt_insert.induct) auto

lemma bt_insert_new_map: "k \<notin> fst ` set m \<Longrightarrow> distinct (map f (bt_insert k v m)) \<longleftrightarrow> distinct (map f ((k, v) # m))"
  by (metis bt_insert_new_mset mset_map mset_eq_imp_distinct_iff)

lemma bt_insert_new_filter:
  "k \<notin> fst ` set m \<Longrightarrow> length (filter P (bt_insert k v m)) = length (filter P ((k, v) # m))"
  by (metis bt_insert_new_mset mset_filter size_mset)

lemma bt_insert_new_length: "k \<notin> fst ` set m \<Longrightarrow> length (bt_insert k v m) = Suc (length m)"
  by (induction k v m rule: bt_insert.induct) auto

lemma bt_insert_old: "bt_ok m \<Longrightarrow> k \<in> fst ` set m \<Longrightarrow> map fst (bt_insert k v m) = map fst m"
proof (induction k v m rule: bt_insert.induct)
  case (2 k v l w m)
  then show ?case by (force simp: bt_ok_Cons)
qed simp

lemma bt_remove_ok [simp]: "bt_ok m \<Longrightarrow> bt_ok (bt_remove k m)"
  by (simp add: bt_remove_def bt_ok_filter)

lemma bt_remove_lookup: "map_of (bt_remove k m) = (map_of m)(k := None)"
  by (induction m) (auto simp: bt_remove_def fun_eq_iff)

lemma bt_remove_set: "set (bt_remove k m) = {(l, v) \<in> set m. l \<noteq> k}"
  by (auto simp: bt_remove_def)

lemma bt_remove_split: "bt_ok (a @ (k, v) # b) \<Longrightarrow> bt_remove k (a @ (k, v) # b) = a @ b"
proof -
  assume ok: "bt_ok (a @ (k, v) # b)"
  then have "\<forall>(l, w) \<in> set a. l \<noteq> k" "\<forall>(l, w) \<in> set b. l \<noteq> k" by (force simp: bt_ok_append bt_ok_Cons)+
  then have "filter (\<lambda>(l, _). l \<noteq> k) a = a" "filter (\<lambda>(l, _). l \<noteq> k) b = b" by (auto intro!: filter_True)
  then show ?thesis by (simp add: bt_remove_def)
qed

lemma bt_split:
  assumes "bt_ok m" and "(k, v) \<in> set m"
  obtains a b where "m = a @ (k, v) # b" and "bt_remove k m = a @ b"
proof -
  from assms(2) obtain a b where m: "m = a @ (k, v) # b" by (meson split_list)
  then have "bt_remove k m = a @ b" using bt_remove_split [of a k v b] assms(1) by simp
  with m show thesis by (rule that)
qed

lemma bt_from_ok [simp]: "bt_ok m \<Longrightarrow> bt_ok (bt_from k m)"
  by (simp add: bt_from_def bt_ok_filter)

lemma bt_from_lookup: "map_of (bt_from k m) l = (if k \<le> l then map_of m l else None)"
  by (induction m) (auto simp: bt_from_def)

section \<open>Iteration over hashed containers\<close>

text \<open>The order is unspecified, but every element is visited once.\<close>

locale hash_iteration =
  fixes order :: "'a set \<Rightarrow> 'a list"
  assumes order_set: "finite S \<Longrightarrow> set (order S) = S"
    and order_distinct: "finite S \<Longrightarrow> distinct (order S)"
begin

lemma order_length: "finite S \<Longrightarrow> length (order S) = card S"
  using distinct_card [OF order_distinct] order_set by fastforce

lemma order_empty [simp]: "order {} = []"
  using order_set [of "{}"] by simp

end

interpretation sorted_iteration: hash_iteration "sorted_list_of_set :: 'a::linorder set \<Rightarrow> 'a list"
  by unfold_locales simp_all

end
