(* ===== verification/Mempool.thy ===== *)
theory Mempool
  imports Transaction Compute_Budget Ordered_Map
begin

text \<open>
  The transaction pool: \<open>mempool/src/pool.rs\<close>. Four structures are kept in step under one lock: the transactions by
  priority, the set of their hashes, the number of transactions per payer, and the keys by block hash. Every
  operation keeps them consistent and never panics; draining returns the best transactions, oldest first among equals.

  Metrics and log messages are left out. Counters of type \<open>usize\<close> are natural numbers, since they count entries
  held in memory; taking one from zero wraps.
\<close>

section \<open>State\<close>

definition DEFAULT_MAX_SIZE :: u64 where
  "DEFAULT_MAX_SIZE = 50000"

definition DEFAULT_EXPIRY_SLOT_WINDOW :: u64 where
  "DEFAULT_EXPIRY_SLOT_WINDOW = 150"

definition MAX_TXS_PER_ACCOUNT :: u64 where
  "MAX_TXS_PER_ACCOUNT = 64"

text \<open>The first field is wrapped in \<open>Reverse\<close>: a higher price comes first. Ties are broken by age.\<close>

datatype mempool_key = MempoolKey (neg_priority: u64) (key_sequence: u64)

instantiation mempool_key :: linorder
begin

definition less_eq_mempool_key :: "mempool_key \<Rightarrow> mempool_key \<Rightarrow> bool" where
  "less_eq_mempool_key k l \<longleftrightarrow>
    neg_priority l < neg_priority k \<or> neg_priority k = neg_priority l \<and> key_sequence k \<le> key_sequence l"

definition less_mempool_key :: "mempool_key \<Rightarrow> mempool_key \<Rightarrow> bool" where
  "less_mempool_key k l \<longleftrightarrow>
    neg_priority l < neg_priority k \<or> neg_priority k = neg_priority l \<and> key_sequence k < key_sequence l"

instance
  by standard (auto simp: less_eq_mempool_key_def less_mempool_key_def intro: mempool_key.expand)

end

record mempool_entry =
  me_transaction :: transaction
  me_hash :: hash
  me_payer :: hash

record mempool_inner =
  mp_pool :: "(mempool_key \<times> mempool_entry) list"
  mp_dedup :: "hash set"
  mp_counts :: "hash \<rightharpoonup> nat"
  mp_index :: "hash \<rightharpoonup> mempool_key set"
  mp_sequence :: u64

definition inner_new :: mempool_inner where
  "inner_new = \<lparr>mp_pool = [], mp_dedup = {}, mp_counts = Map.empty, mp_index = Map.empty, mp_sequence = 0\<rparr>"

text \<open>The limits that are fixed when the pool is made; the mutable part is threaded through the operations.\<close>

record mempool =
  max_capacity :: nat
  max_txs_per_account :: nat

definition mempool_new :: "nat \<Rightarrow> ('e, mempool \<times> mempool_inner) outcome" where
  "mempool_new capacity =
    (if capacity > 0 then Ok (\<lparr>max_capacity = capacity, max_txs_per_account = unat MAX_TXS_PER_ACCOUNT\<rparr>, inner_new) else Panic)"

datatype mempool_error =
    ME_Full nat
  | ME_DuplicateTransaction
  | ME_Expired
  | ME_AccountLimitExceeded hash nat
  | ME_Malformed string

type_synonym 'a pool = "(mempool_inner, mempool_error, 'a) rm"

section \<open>Operations\<close>

definition extract_priority :: "env \<Rightarrow> transaction \<Rightarrow> u64" where
  "extract_priority E tx =
    (case parse_compute_budget E (tx_message tx) of Ok budget \<Rightarrow> compute_unit_price budget | _ \<Rightarrow> 0)"

definition usize_pred :: "nat \<Rightarrow> nat" where
  "usize_pred c = (if c = 0 then 2 ^ 64 - 1 else c - 1)"

text \<open>Duplicate and per-payer checks, made under the read lock and again under the write lock.\<close>

definition admission :: "mempool \<Rightarrow> hash \<Rightarrow> hash \<Rightarrow> unit pool" where
  "admission M h payer =
    bind_r (gets (\<lambda>i. h \<in> mp_dedup i)) (\<lambda>dup.
    then_r (require (\<not> dup) ME_DuplicateTransaction)
    (bind_r (gets (\<lambda>i. mp_counts i payer)) (\<lambda>count.
     require (case count of Some c \<Rightarrow> \<not> max_txs_per_account M \<le> c | None \<Rightarrow> True)
       (ME_AccountLimitExceeded payer (max_txs_per_account M)))))"

text \<open>What every removal does with the hash and the payer of the entry.\<close>

definition release_entry :: "mempool_entry \<Rightarrow> unit pool" where
  "release_entry e =
    then_r (modify (\<lambda>i. i\<lparr>mp_dedup := mp_dedup i - {me_hash e}\<rparr>))
    (bind_r (gets (\<lambda>i. mp_counts i (me_payer e))) (\<lambda>count.
     case count of
       None \<Rightarrow> panic
     | Some c \<Rightarrow> modify (\<lambda>i. i\<lparr>mp_counts := (mp_counts i)(me_payer e := (if usize_pred c = 0 then None else Some (usize_pred c)))\<rparr>)))"

definition drop_from_bucket :: "mempool_key \<Rightarrow> hash \<Rightarrow> unit pool" where
  "drop_from_bucket key bh =
    bind_r (gets (\<lambda>i. mp_index i bh)) (\<lambda>b.
    case b of
      None \<Rightarrow> return ()
    | Some bucket \<Rightarrow> modify (\<lambda>i. i\<lparr>mp_index := (mp_index i)(bh := (if bucket - {key} = {} then None else Some (bucket - {key})))\<rparr>))"

definition evict_if_full :: "mempool \<Rightarrow> u64 \<Rightarrow> unit pool" where
  "evict_if_full M price =
    bind_r (gets mp_pool) (\<lambda>pool.
    if length pool < max_capacity M then return ()
    else if pool = [] then panic
    else let (worst_key, evicted) = last pool in
      then_r (require (\<not> price \<le> neg_priority worst_key) (ME_Full (max_capacity M)))
      (then_r (modify (\<lambda>i. i\<lparr>mp_pool := bt_remove worst_key (mp_pool i)\<rparr>))
      (then_r (release_entry evicted)
       (drop_from_bucket worst_key (recent_blockhash (tx_message (me_transaction evicted)))))))"

definition add_entry :: "u64 \<Rightarrow> mempool_entry \<Rightarrow> mempool_inner \<Rightarrow> mempool_inner" where
  "add_entry price e i =
    (let key = MempoolKey price (mp_sequence i); bh = recent_blockhash (tx_message (me_transaction e)) in
     i\<lparr>mp_sequence := mp_sequence i + 1,
       mp_dedup := insert (me_hash e) (mp_dedup i),
       mp_counts := (mp_counts i)(me_payer e \<mapsto> (case mp_counts i (me_payer e) of Some c \<Rightarrow> c | None \<Rightarrow> 0) + 1),
       mp_index := (mp_index i)(bh \<mapsto> insert key (case mp_index i bh of Some b \<Rightarrow> b | None \<Rightarrow> {})),
       mp_pool := bt_insert key e (mp_pool i)\<rparr>)"

text \<open>The part of \<open>insert\<close> that runs under the write lock.\<close>

definition insert_locked :: "env \<Rightarrow> mempool \<Rightarrow> transaction \<Rightarrow> hash \<Rightarrow> hash \<Rightarrow> unit pool" where
  "insert_locked E M tx h payer =
    then_r (admission M h payer)
    (then_r (evict_if_full M (extract_priority E tx))
     (modify (add_entry (extract_priority E tx) \<lparr>me_transaction = tx, me_hash = h, me_payer = payer\<rparr>)))"

text \<open>The part before it: validation and the first check, under the read lock.\<close>

definition insert_check :: "env \<Rightarrow> mempool \<Rightarrow> transaction \<Rightarrow> (hash \<times> hash) pool" where
  "insert_check E M tx =
    then_r (require (account_keys (tx_message tx) \<noteq> []) (ME_Malformed ''account_keys is empty; payer missing''))
    (then_r (require (length (signatures tx) = unat (num_required_signatures (tx_message tx)))
       (ME_Malformed ''signatures length does not match num_required_signatures''))
    (case tx_hash E tx of
       Ok h \<Rightarrow> (let payer = account_keys (tx_message tx) ! 0 in then_r (admission M h payer) (return (h, payer)))
     | Err e \<Rightarrow> fail e
     | Panic \<Rightarrow> panic))"

definition mempool_insert :: "env \<Rightarrow> mempool \<Rightarrow> transaction \<Rightarrow> unit pool" where
  "mempool_insert E M tx = bind_r (insert_check E M tx) (\<lambda>(h, payer). insert_locked E M tx h payer)"

fun drain_each :: "nat \<Rightarrow> transaction list pool" where
  "drain_each 0 = return []"
| "drain_each (Suc n) =
    bind_r (gets mp_pool) (\<lambda>pool.
    case pool of
      [] \<Rightarrow> return []
    | (key, entry) # rest \<Rightarrow>
        then_r (modify (\<lambda>i. i\<lparr>mp_pool := rest\<rparr>))
        (then_r (release_entry entry)
        (then_r (drop_from_bucket key (recent_blockhash (tx_message (me_transaction entry))))
        (bind_r (drain_each n) (\<lambda>result. return (me_transaction entry # result))))))"

definition drain_by_priority :: "nat \<Rightarrow> transaction list pool" where
  "drain_by_priority n = bind_r (gets (\<lambda>i. length (mp_pool i))) (\<lambda>len. drain_each (min n len))"

fun remove_keys :: "mempool_key list \<Rightarrow> unit pool" where
  "remove_keys [] = return ()"
| "remove_keys (key # keys) =
    bind_r (gets (\<lambda>i. map_of (mp_pool i) key)) (\<lambda>e.
    case e of
      None \<Rightarrow> remove_keys keys
    | Some entry \<Rightarrow>
        then_r (modify (\<lambda>i. i\<lparr>mp_pool := bt_remove key (mp_pool i)\<rparr>))
        (then_r (release_entry entry) (remove_keys keys)))"

fun remove_buckets :: "(mempool_key set \<Rightarrow> mempool_key list) \<Rightarrow> hash list \<Rightarrow> unit pool" where
  "remove_buckets korder [] = return ()"
| "remove_buckets korder (bh # bhs) =
    bind_r (gets (\<lambda>i. mp_index i bh)) (\<lambda>b.
    case b of
      None \<Rightarrow> remove_buckets korder bhs
    | Some bucket \<Rightarrow>
        then_r (modify (\<lambda>i. i\<lparr>mp_index := (mp_index i)(bh := None)\<rparr>))
        (then_r (remove_keys (korder bucket)) (remove_buckets korder bhs)))"

text \<open>The iteration orders of the two hashed containers are the first arguments.\<close>

definition remove_expired ::
  "(hash set \<Rightarrow> hash list) \<Rightarrow> (mempool_key set \<Rightarrow> mempool_key list) \<Rightarrow> hash set \<Rightarrow> unit pool" where
  "remove_expired horder korder valid_blockhashes =
    bind_r (gets (\<lambda>i. filter (\<lambda>bh. bh \<notin> valid_blockhashes) (horder (dom (mp_index i))))) (remove_buckets korder)"

definition pool_len :: "mempool_inner \<Rightarrow> nat" where
  "pool_len i = length (mp_pool i)"

definition pool_is_empty :: "mempool_inner \<Rightarrow> bool" where
  "pool_is_empty i \<longleftrightarrow> mp_pool i = []"

definition pool_contains :: "mempool_inner \<Rightarrow> hash \<Rightarrow> bool" where
  "pool_contains i h \<longleftrightarrow> h \<in> mp_dedup i"

text \<open>The consistency check of the debug build.\<close>

definition assert_invariants :: "mempool_inner \<Rightarrow> bool" where
  "assert_invariants i \<longleftrightarrow>
    length (mp_pool i) = card (mp_dedup i) \<and>
    length (mp_pool i) = (\<Sum>p \<in> dom (mp_counts i). the (mp_counts i p)) \<and>
    length (mp_pool i) = (\<Sum>bh \<in> dom (mp_index i). card (the (mp_index i bh)))"

section \<open>The four structures agree\<close>

text \<open>What the pool says about hashes, payers and block hashes.\<close>

definition pool_hashes :: "(mempool_key \<times> mempool_entry) list \<Rightarrow> hash list" where
  "pool_hashes pool = map (\<lambda>x. me_hash (snd x)) pool"

definition payer_count :: "(mempool_key \<times> mempool_entry) list \<Rightarrow> hash \<Rightarrow> nat" where
  "payer_count pool p = length (filter (\<lambda>x. me_payer (snd x) = p) pool)"

abbreviation entry_blockhash :: "mempool_entry \<Rightarrow> hash" where
  "entry_blockhash e \<equiv> recent_blockhash (tx_message (me_transaction e))"

definition bucket_of :: "(mempool_key \<times> mempool_entry) list \<Rightarrow> hash \<Rightarrow> mempool_key set" where
  "bucket_of pool bh = {k. \<exists>e. (k, e) \<in> set pool \<and> entry_blockhash e = bh}"

abbreviation nonempty :: "'a set \<Rightarrow> 'a set option" where
  "nonempty S \<equiv> (if S = {} then None else Some S)"

abbreviation positive :: "nat \<Rightarrow> nat option" where
  "positive n \<equiv> (if n = 0 then None else Some n)"

text \<open>All but the block hash index, and the index up to a set of keys whose bucket is being emptied.\<close>

definition core_inv :: "mempool_inner \<Rightarrow> bool" where
  "core_inv i \<longleftrightarrow> bt_ok (mp_pool i) \<and> distinct (pool_hashes (mp_pool i)) \<and> mp_dedup i = set (pool_hashes (mp_pool i)) \<and>
    (\<forall>p. mp_counts i p = positive (payer_count (mp_pool i) p)) \<and>
    (\<forall>k \<in> fst ` set (mp_pool i). key_sequence k < mp_sequence i)"

definition index_inv :: "mempool_key set \<Rightarrow> mempool_inner \<Rightarrow> bool" where
  "index_inv K i \<longleftrightarrow> (\<forall>bh. mp_index i bh = nonempty (bucket_of (mp_pool i) bh - K))"

definition pool_inv :: "mempool_inner \<Rightarrow> bool" where
  "pool_inv i \<longleftrightarrow> core_inv i \<and> index_inv {} i"

lemma core_invD:
  assumes "core_inv i"
  shows "bt_ok (mp_pool i)" "distinct (pool_hashes (mp_pool i))" "mp_dedup i = set (pool_hashes (mp_pool i))"
    "mp_counts i p = positive (payer_count (mp_pool i) p)" "k \<in> fst ` set (mp_pool i) \<Longrightarrow> key_sequence k < mp_sequence i"
  using assms unfolding core_inv_def by auto

lemma core_invI:
  assumes "bt_ok (mp_pool i)" and "distinct (pool_hashes (mp_pool i))" and "mp_dedup i = set (pool_hashes (mp_pool i))"
    and "\<And>p. mp_counts i p = positive (payer_count (mp_pool i) p)"
    and "\<And>k. k \<in> fst ` set (mp_pool i) \<Longrightarrow> key_sequence k < mp_sequence i"
  shows "core_inv i"
  using assms unfolding core_inv_def by blast

lemma inner_new_inv: "pool_inv inner_new"
  by (simp add: pool_inv_def core_inv_def index_inv_def inner_new_def pool_hashes_def payer_count_def bucket_of_def)

lemma sum_filter_length:
  "finite S \<Longrightarrow> f ` set xs \<subseteq> S \<Longrightarrow> (\<Sum>p \<in> S. length (filter (\<lambda>x. f x = p) xs)) = length xs"
proof (induction xs)
  case (Cons x xs)
  have "(\<Sum>p \<in> S. length (filter (\<lambda>y. f y = p) (x # xs))) = (\<Sum>p \<in> S. (if f x = p then 1 else 0) + length (filter (\<lambda>y. f y = p) xs))"
    by (rule sum.cong) auto
  also have "\<dots> = (\<Sum>p \<in> S. if f x = p then 1 else 0) + length xs" using Cons by (simp add: sum.distrib)
  also have "(\<Sum>p \<in> S. if f x = p then 1 else 0) = (1 :: nat)" using Cons.prems by (simp add: sum.delta)
  finally show ?case by simp
qed simp

lemma bucket_card:
  assumes "bt_ok pool"
  shows "card (bucket_of pool bh) = length (filter (\<lambda>x. entry_blockhash (snd x) = bh) pool)"
proof -
  let ?f = "filter (\<lambda>x. entry_blockhash (snd x) = bh) pool"
  have "bucket_of pool bh = set (map fst ?f)" by (force simp: bucket_of_def)
  moreover have "distinct (map fst ?f)" using bt_ok_distinct [OF bt_ok_filter [OF assms]] .
  ultimately show ?thesis using distinct_card by fastforce
qed

text \<open>The invariant contains the check of the debug build.\<close>

lemma pool_inv_asserted:
  assumes "pool_inv i"
  shows "assert_invariants i"
proof -
  have core: "core_inv i" and idx: "\<And>bh. mp_index i bh = nonempty (bucket_of (mp_pool i) bh)"
    using assms by (simp_all add: pool_inv_def index_inv_def)
  note c = core_invD [OF core]
  have "card (mp_dedup i) = length (mp_pool i)" using distinct_card [OF c(2)] c(3) by (simp add: pool_hashes_def)
  moreover have "(\<Sum>p \<in> dom (mp_counts i). the (mp_counts i p)) = length (mp_pool i)"
  proof -
    let ?S = "(\<lambda>x. me_payer (snd x)) ` set (mp_pool i)"
    have dom: "dom (mp_counts i) = ?S" by (force simp: dom_def c(4) payer_count_def filter_empty_conv split: if_splits)
    have "(\<Sum>p \<in> ?S. the (mp_counts i p)) = (\<Sum>p \<in> ?S. length (filter (\<lambda>x. me_payer (snd x) = p) (mp_pool i)))"
      by (rule sum.cong) (auto simp: c(4) payer_count_def filter_empty_conv)
    then show ?thesis unfolding dom using sum_filter_length [of ?S "\<lambda>x. me_payer (snd x)" "mp_pool i"] by simp
  qed
  moreover have "(\<Sum>bh \<in> dom (mp_index i). card (the (mp_index i bh))) = length (mp_pool i)"
  proof -
    let ?S = "(\<lambda>x. entry_blockhash (snd x)) ` set (mp_pool i)"
    have dom: "dom (mp_index i) = ?S" by (force simp: dom_def idx bucket_of_def split: if_splits)
    have "(\<Sum>bh \<in> ?S. card (the (mp_index i bh))) = (\<Sum>bh \<in> ?S. length (filter (\<lambda>x. entry_blockhash (snd x) = bh) (mp_pool i)))"
    proof (rule sum.cong)
      fix bh
      assume "bh \<in> ?S"
      then have "mp_index i bh = Some (bucket_of (mp_pool i) bh)" by (force simp: idx bucket_of_def)
      then show "card (the (mp_index i bh)) = length (filter (\<lambda>x. entry_blockhash (snd x) = bh) (mp_pool i))"
        by (simp add: bucket_card [OF c(1)])
    qed simp
    then show ?thesis unfolding dom using sum_filter_length [of ?S "\<lambda>x. entry_blockhash (snd x)" "mp_pool i"] by simp
  qed
  ultimately show ?thesis by (simp add: assert_invariants_def)
qed

section \<open>Removing and adding one entry\<close>

lemma entry_split:
  assumes "core_inv i" and "(k, e) \<in> set (mp_pool i)"
  obtains a b where "mp_pool i = a @ (k, e) # b" and "bt_remove k (mp_pool i) = a @ b"
  using bt_split [OF core_invD(1) [OF assms(1)] assms(2)] by blast

definition released :: "mempool_key \<Rightarrow> mempool_entry \<Rightarrow> mempool_inner \<Rightarrow> mempool_inner" where
  "released k e i = i\<lparr>mp_pool := bt_remove k (mp_pool i), mp_dedup := mp_dedup i - {me_hash e},
     mp_counts := (mp_counts i)(me_payer e := positive (payer_count (mp_pool i) (me_payer e) - 1))\<rparr>"

lemma release_run:
  assumes "core_inv i" and "(k, e) \<in> set (mp_pool i)"
  shows "release_entry e (i\<lparr>mp_pool := bt_remove k (mp_pool i)\<rparr>) = (Ok (), released k e i)"
proof -
  have "payer_count (mp_pool i) (me_payer e) \<noteq> 0" using assms(2) by (force simp: payer_count_def filter_empty_conv)
  with core_invD(4) [OF assms(1), of "me_payer e"] show ?thesis
    by (simp add: release_entry_def run_simps released_def usize_pred_def)
qed

lemma released_core:
  assumes "core_inv i" and "(k, e) \<in> set (mp_pool i)"
  shows "core_inv (released k e i)"
proof -
  from assms obtain a b where m: "mp_pool i = a @ (k, e) # b" "bt_remove k (mp_pool i) = a @ b" by (rule entry_split)
  note c = core_invD [OF assms(1)]
  have p: "mp_pool (released k e i) = a @ b" by (simp add: released_def m(2))
  show ?thesis
  proof (rule core_invI)
    show "bt_ok (mp_pool (released k e i))" using c(1) by (simp add: released_def)
    show "distinct (pool_hashes (mp_pool (released k e i)))" "mp_dedup (released k e i) = set (pool_hashes (mp_pool (released k e i)))"
      unfolding p using c(2,3) by (auto simp: released_def m(1) pool_hashes_def)
    show "mp_counts (released k e i) q = positive (payer_count (mp_pool (released k e i)) q)" for q
      unfolding p using c(4) [of q] by (auto simp: released_def m(1) payer_count_def)
    show "key_sequence l < mp_sequence (released k e i)" if "l \<in> fst ` set (mp_pool (released k e i))" for l
      using that c(5) [of l] by (auto simp: released_def bt_remove_set)
  qed
qed

lemma bucket_removed: "bucket_of (bt_remove k pool) bh = bucket_of pool bh - {k}"
  by (auto simp: bucket_of_def bt_remove_set)

lemma released_index: "index_inv K i \<Longrightarrow> k \<in> K \<Longrightarrow> index_inv (K - {k}) (released k e i)"
proof -
  assume i: "index_inv K i" and k: "k \<in> K"
  have "bucket_of (mp_pool i) bh - {k} - (K - {k}) = bucket_of (mp_pool i) bh - K" for bh using k by blast
  with i show ?thesis by (simp add: index_inv_def released_def bucket_removed)
qed

lemma bucket_sub: "bucket_of pool bh \<subseteq> fst ` set pool"
proof
  fix k
  assume "k \<in> bucket_of pool bh"
  then obtain e where "(k, e) \<in> set pool" unfolding bucket_of_def by blast
  then show "k \<in> fst ` set pool" by (rule image_eqI [rotated]) simp
qed

lemma entry_bucket:
  assumes "core_inv i" and "(k, e) \<in> set (mp_pool i)"
  shows "k \<in> bucket_of (mp_pool i) bh \<longleftrightarrow> bh = entry_blockhash e"
proof -
  have "e' = e" if "(k, e') \<in> set (mp_pool i)" for e'
    using eq_key_imp_eq_value [OF bt_ok_distinct [OF core_invD(1) [OF assms(1)]] that assms(2)] .
  with assms(2) show ?thesis unfolding bucket_of_def by blast
qed

text \<open>Removing an entry from the pool and from every index.\<close>

lemma remove_entry:
  assumes inv: "pool_inv i" and m: "(k, e) \<in> set (mp_pool i)"
  obtains i' where "drop_from_bucket k (entry_blockhash e) (released k e i) = (Ok (), i')" and "pool_inv i'"
    and "mp_pool i' = bt_remove k (mp_pool i)" and "mp_sequence i' = mp_sequence i"
proof -
  have core: "core_inv i" and idx: "\<And>bh. mp_index i bh = nonempty (bucket_of (mp_pool i) bh)"
    using inv by (simp_all add: pool_inv_def index_inv_def)
  let ?bh = "entry_blockhash e"
  let ?i = "(released k e i)\<lparr>mp_index := (mp_index i)(?bh := nonempty (bucket_of (mp_pool i) ?bh - {k}))\<rparr>"
  have "mp_index i ?bh = Some (bucket_of (mp_pool i) ?bh)" using entry_bucket [OF core m, of ?bh] by (auto simp: idx)
  then have run: "drop_from_bucket k ?bh (released k e i) = (Ok (), ?i)"
    by (simp add: drop_from_bucket_def run_simps released_def)
  have "core_inv ?i" using released_core [OF core m] by (simp add: core_inv_def)
  moreover have "index_inv {} ?i"
    using entry_bucket [OF core m] by (auto simp: index_inv_def released_def bucket_removed idx)
  ultimately have "pool_inv ?i" by (simp add: pool_inv_def)
  with run show thesis by (rule that) (simp_all add: released_def)
qed

lemma add_entry_inv:
  assumes inv: "pool_inv i" and h: "me_hash e \<notin> mp_dedup i" and s: "mp_sequence i \<noteq> - 1"
  shows "pool_inv (add_entry price e i)"
    and "mp_pool (add_entry price e i) = bt_insert (MempoolKey price (mp_sequence i)) e (mp_pool i)"
    and "MempoolKey price (mp_sequence i) \<notin> fst ` set (mp_pool i)"
proof -
  have core: "core_inv i" and idx: "\<And>bh. mp_index i bh = nonempty (bucket_of (mp_pool i) bh)"
    using inv by (simp_all add: pool_inv_def index_inv_def)
  note c = core_invD [OF core]
  let ?k = "MempoolKey price (mp_sequence i)" and ?i = "add_entry price e i"
  have new: "?k \<notin> fst ` set (mp_pool i)" using c(5) [of ?k] by auto
  have pool: "mp_pool ?i = bt_insert ?k e (mp_pool i)" by (simp add: add_entry_def Let_def)
  have seq: "mp_sequence i < mp_sequence ?i" using unat_inc [OF s] by (simp add: add_entry_def Let_def word_less_nat_alt)
  have "core_inv ?i"
  proof (rule core_invI)
    show "bt_ok (mp_pool ?i)" using c(1) by (simp add: pool)
    show "distinct (pool_hashes (mp_pool ?i))"
      using h c(2,3) by (simp add: pool pool_hashes_def bt_insert_new_map [OF new])
    show "mp_dedup ?i = set (pool_hashes (mp_pool ?i))"
      using c(3) by (simp add: pool pool_hashes_def bt_insert_new_set [OF new]) (simp add: add_entry_def Let_def pool_hashes_def)
    show "mp_counts ?i p = positive (payer_count (mp_pool ?i) p)" for p
      by (simp add: pool payer_count_def bt_insert_new_filter [OF new]) (simp add: add_entry_def Let_def c(4) payer_count_def)
    show "key_sequence l < mp_sequence ?i" if "l \<in> fst ` set (mp_pool ?i)" for l
    proof -
      from that have "l = ?k \<or> l \<in> fst ` set (mp_pool i)" unfolding pool by simp
      then show ?thesis using c(5) [of l] seq by (elim disjE) (simp, metis order.strict_trans)
    qed
  qed
  moreover have "bucket_of (mp_pool ?i) bh = (if bh = entry_blockhash e then insert ?k (bucket_of (mp_pool i) bh) else bucket_of (mp_pool i) bh)" for bh
    by (auto simp: bucket_of_def pool bt_insert_new_set [OF new])
  then have "index_inv {} ?i" by (auto simp: index_inv_def idx add_entry_def Let_def)
  ultimately show "pool_inv ?i" by (simp add: pool_inv_def)
  show "mp_pool ?i = bt_insert ?k e (mp_pool i)" by (rule pool)
  show "?k \<notin> fst ` set (mp_pool i)" by (rule new)
qed

section \<open>The operations\<close>

definition within_limits :: "mempool \<Rightarrow> mempool_inner \<Rightarrow> bool" where
  "within_limits M i \<longleftrightarrow> length (mp_pool i) \<le> max_capacity M \<and> (\<forall>p. payer_count (mp_pool i) p \<le> max_txs_per_account M)"

lemma admission_run:
  assumes "pool_inv i" and "0 < max_txs_per_account M"
  shows "admission M h payer i =
    (if h \<in> mp_dedup i then Err ME_DuplicateTransaction
     else if max_txs_per_account M \<le> payer_count (mp_pool i) payer then Err (ME_AccountLimitExceeded payer (max_txs_per_account M))
     else Ok (), i)"
  using assms core_invD(4) [of i payer] by (auto simp: pool_inv_def admission_def run_simps)

lemma evict_run:
  assumes inv: "pool_inv i" and cap: "0 < max_capacity M" "length (mp_pool i) \<le> max_capacity M"
  shows "(length (mp_pool i) < max_capacity M \<and> evict_if_full M price i = (Ok (), i)) \<or>
    (length (mp_pool i) = max_capacity M \<and> price \<le> neg_priority (fst (last (mp_pool i))) \<and> evict_if_full M price i = (Err (ME_Full (max_capacity M)), i)) \<or>
    (length (mp_pool i) = max_capacity M \<and> \<not> price \<le> neg_priority (fst (last (mp_pool i))) \<and>
      (\<exists>i'. evict_if_full M price i = (Ok (), i') \<and> pool_inv i' \<and> mp_pool i' = butlast (mp_pool i) \<and> mp_sequence i' = mp_sequence i))"
proof (cases "length (mp_pool i) < max_capacity M")
  case True
  then show ?thesis by (simp add: evict_if_full_def run_simps)
next
  case False
  with cap have full: "length (mp_pool i) = max_capacity M" and ne: "mp_pool i \<noteq> []" by auto
  obtain k e where l: "last (mp_pool i) = (k, e)" by force
  then have m: "(k, e) \<in> set (mp_pool i)" and sp: "mp_pool i = butlast (mp_pool i) @ [(k, e)]"
    using last_in_set [OF ne] append_butlast_last_id [OF ne] by simp_all
  have core: "core_inv i" using inv by (simp add: pool_inv_def)
  have but: "bt_remove k (mp_pool i) = butlast (mp_pool i)"
    using bt_remove_split [of "butlast (mp_pool i)" k e "[]"] core_invD(1) [OF core] sp by simp
  obtain i' where d: "drop_from_bucket k (entry_blockhash e) (released k e i) = (Ok (), i')" "pool_inv i'"
    "mp_pool i' = bt_remove k (mp_pool i)" "mp_sequence i' = mp_sequence i" by (rule remove_entry [OF inv m])
  show ?thesis
    using ne d by (cases "price \<le> neg_priority k")
      (simp_all add: evict_if_full_def run_simps full l release_run [OF core m, unfolded but] but)
qed

lemma payer_count_butlast: "payer_count (butlast pool) p \<le> payer_count pool p"
  by (cases pool rule: rev_cases) (simp_all add: payer_count_def)

lemma dedup_of: "pool_inv i \<Longrightarrow> mp_dedup i = set (pool_hashes (mp_pool i))"
  by (simp add: pool_inv_def core_inv_def)

lemma hashes_butlast: "set (pool_hashes (butlast pool)) \<subseteq> set (pool_hashes pool)"
  by (auto simp: pool_hashes_def dest: in_set_butlastD)

abbreviation room_made :: "mempool \<Rightarrow> mempool_inner \<Rightarrow> (mempool_key \<times> mempool_entry) list" where
  "room_made M i \<equiv> (if length (mp_pool i) < max_capacity M then mp_pool i else butlast (mp_pool i))"

text \<open>Insertion under the write lock: which branch is taken, and the pool afterwards.\<close>

lemma insert_locked_run:
  assumes inv: "pool_inv i" and lim: "within_limits M i" and pos: "0 < max_capacity M" "0 < max_txs_per_account M"
    and s: "mp_sequence i \<noteq> - 1" and run: "insert_locked E M tx h payer i = (r, i')"
  shows "r = (if h \<in> mp_dedup i then Err ME_DuplicateTransaction
       else if max_txs_per_account M \<le> payer_count (mp_pool i) payer then Err (ME_AccountLimitExceeded payer (max_txs_per_account M))
       else if length (mp_pool i) = max_capacity M \<and> extract_priority E tx \<le> neg_priority (fst (last (mp_pool i)))
       then Err (ME_Full (max_capacity M)) else Ok ()) \<and>
     pool_inv i' \<and> within_limits M i' \<and>
     (if r = Ok () then mp_sequence i' = mp_sequence i + 1 \<and>
        MempoolKey (extract_priority E tx) (mp_sequence i) \<notin> fst ` set (room_made M i) \<and>
        mp_pool i' = bt_insert (MempoolKey (extract_priority E tx) (mp_sequence i)) \<lparr>me_transaction = tx, me_hash = h, me_payer = payer\<rparr> (room_made M i)
      else i' = i)"
proof (cases "h \<in> mp_dedup i \<or> max_txs_per_account M \<le> payer_count (mp_pool i) payer")
  case True
  then have adm: "admission M h payer i = (Err (if h \<in> mp_dedup i then ME_DuplicateTransaction
      else ME_AccountLimitExceeded payer (max_txs_per_account M)), i)" by (auto simp: admission_run [OF inv pos(2)])
  from run [unfolded insert_locked_def run_bind_Err [where m = "admission M h payer", OF adm]] True inv lim show ?thesis by auto
next
  case False
  let ?p = "extract_priority E tx" and ?e = "\<lparr>me_transaction = tx, me_hash = h, me_payer = payer\<rparr>"
  have adm: "admission M h payer i = (Ok (), i)" using False by (simp add: admission_run [OF inv pos(2)])
  have len: "length (mp_pool i) \<le> max_capacity M" using lim by (simp add: within_limits_def)
  show ?thesis
  proof (cases "length (mp_pool i) = max_capacity M \<and> ?p \<le> neg_priority (fst (last (mp_pool i)))")
    case True
    then have "evict_if_full M ?p i = (Err (ME_Full (max_capacity M)), i)" using evict_run [OF inv pos(1) len, of ?p] by auto
    with run False True inv lim show ?thesis by (auto simp: insert_locked_def run_simps adm)
  next
    case room: False
    obtain j where j: "evict_if_full M ?p i = (Ok (), j)" "pool_inv j" "mp_pool j = room_made M i" "mp_sequence j = mp_sequence i"
      using evict_run [OF inv pos(1) len, of ?p] room inv by auto
    have sub: "set (pool_hashes (mp_pool j)) \<subseteq> mp_dedup i" using dedup_of [OF inv] hashes_butlast by (auto simp: j(3))
    then have "me_hash ?e \<notin> mp_dedup j" "mp_sequence j \<noteq> - 1" using False s j(4) dedup_of [OF j(2)] by auto
    note add = add_entry_inv [OF j(2) this, of ?p]
    have i': "i' = add_entry ?p ?e j" "r = Ok ()" using run by (simp_all add: insert_locked_def run_simps adm j(1))
    have "length (mp_pool i') = Suc (length (mp_pool j))" by (simp add: i' add(2) bt_insert_new_length [OF add(3)])
    then have "length (mp_pool i') \<le> max_capacity M" using len pos(1) by (auto simp: j(3))
    moreover have "payer_count (mp_pool i') q \<le> max_txs_per_account M" for q
    proof -
      have "payer_count (mp_pool j) q \<le> payer_count (mp_pool i) q" using payer_count_butlast by (simp add: j(3))
      moreover have "payer_count (mp_pool i') q = payer_count (mp_pool j) q + (if payer = q then 1 else 0)"
        by (simp add: i' add(2) payer_count_def bt_insert_new_filter [OF add(3)])
      ultimately show ?thesis using lim False by (auto simp: within_limits_def dest: spec [of _ q])
    qed
    moreover have "mp_sequence i' = mp_sequence i + 1" by (simp add: i' add_entry_def Let_def j(4))
    ultimately show ?thesis using False room add i' by (auto simp: within_limits_def j(3,4))
  qed
qed

lemma drain_run:
  assumes "pool_inv i"
  shows "\<exists>i'. drain_each n i = (Ok (map (\<lambda>x. me_transaction (snd x)) (take n (mp_pool i))), i') \<and> pool_inv i' \<and>
    mp_pool i' = drop n (mp_pool i) \<and> mp_sequence i' = mp_sequence i"
  using assms
proof (induction n arbitrary: i)
  case 0
  then show ?case by (simp add: run_simps)
next
  case (Suc n)
  show ?case
  proof (cases "mp_pool i")
    case Nil
    with Suc.prems show ?thesis by (simp add: run_simps)
  next
    case (Cons x rest)
    obtain k e where x: "x = (k, e)" by force
    have m: "(k, e) \<in> set (mp_pool i)" by (simp add: Cons x)
    have core: "core_inv i" using Suc.prems by (simp add: pool_inv_def)
    have rem: "bt_remove k (mp_pool i) = rest" using bt_remove_split [of "[]" k e rest] core_invD(1) [OF core] by (simp add: Cons x)
    obtain j where j: "drop_from_bucket k (entry_blockhash e) (released k e i) = (Ok (), j)" "pool_inv j" "mp_pool j = rest"
      "mp_sequence j = mp_sequence i" using remove_entry [OF Suc.prems m] rem by metis
    obtain i' where i': "drain_each n j = (Ok (map (\<lambda>x. me_transaction (snd x)) (take n rest)), i')" "pool_inv i'" "mp_pool i' = drop n rest"
      "mp_sequence i' = mp_sequence i" using Suc.IH [OF j(2)] by (auto simp: j)
    show ?thesis using i' release_run [OF core m, unfolded rem] j(1) by (simp add: Cons x run_simps)
  qed
qed

lemma remove_keys_run:
  assumes "core_inv i" and "index_inv (set ks) i" and "distinct ks" and "set ks \<subseteq> fst ` set (mp_pool i)"
  shows "\<exists>i'. remove_keys ks i = (Ok (), i') \<and> pool_inv i' \<and> mp_pool i' = filter (\<lambda>x. fst x \<notin> set ks) (mp_pool i) \<and>
    mp_sequence i' = mp_sequence i"
  using assms
proof (induction ks arbitrary: i)
  case Nil
  then show ?case by (simp add: run_simps pool_inv_def)
next
  case (Cons k ks)
  then obtain e where m: "(k, e) \<in> set (mp_pool i)" by auto
  have look: "map_of (mp_pool i) k = Some e"
    using m bt_ok_distinct [OF core_invD(1) [OF Cons.prems(1)]] by simp
  let ?j = "released k e i"
  have pool: "mp_pool ?j = bt_remove k (mp_pool i)" "mp_sequence ?j = mp_sequence i" by (simp_all add: released_def)
  have "index_inv (set (k # ks) - {k}) ?j" by (rule released_index [OF Cons.prems(2)]) simp
  moreover have "set (k # ks) - {k} = set ks" using Cons.prems(3) by auto
  ultimately have "index_inv (set ks) ?j" by simp
  moreover have "set ks \<subseteq> fst ` set (mp_pool ?j)" using Cons.prems(3,4) by (force simp: pool bt_remove_set)
  ultimately obtain i' where i': "remove_keys ks ?j = (Ok (), i')" "pool_inv i'" "mp_pool i' = filter (\<lambda>x. fst x \<notin> set ks) (mp_pool ?j)"
    "mp_sequence i' = mp_sequence ?j"
    using Cons.IH [OF released_core [OF Cons.prems(1) m]] Cons.prems(3) by auto
  have "filter (\<lambda>x. fst x \<notin> set ks) (bt_remove k (mp_pool i)) = filter (\<lambda>x. fst x \<notin> set (k # ks)) (mp_pool i)"
    by (auto simp: bt_remove_def intro: filter_cong)
  then show ?case using i' by (simp add: run_simps look release_run [OF Cons.prems(1) m] pool)
qed

locale pool_iteration = ho: hash_iteration horder + ko: hash_iteration korder
  for horder :: "hash set \<Rightarrow> hash list" and korder :: "mempool_key set \<Rightarrow> mempool_key list"
begin

lemma remove_buckets_run:
  assumes "pool_inv i"
  shows "\<exists>i'. remove_buckets korder bhs i = (Ok (), i') \<and> pool_inv i' \<and>
    mp_pool i' = filter (\<lambda>x. entry_blockhash (snd x) \<notin> set bhs) (mp_pool i) \<and> mp_sequence i' = mp_sequence i"
  using assms
proof (induction bhs arbitrary: i)
  case Nil
  then show ?case by (simp add: run_simps)
next
  case (Cons bh bhs)
  let ?B = "bucket_of (mp_pool i) bh"
  have core: "core_inv i" and idx: "\<And>b. mp_index i b = nonempty (bucket_of (mp_pool i) b)"
    using Cons.prems by (simp_all add: pool_inv_def index_inv_def)
  have key: "fst x \<in> ?B \<longleftrightarrow> entry_blockhash (snd x) = bh" if "x \<in> set (mp_pool i)" for x
    using entry_bucket [OF core, of "fst x" "snd x" bh] that by auto
  show ?case
  proof (cases "?B = {}")
    case True
    then have "filter (\<lambda>x. entry_blockhash (snd x) \<notin> set (bh # bhs)) (mp_pool i) = filter (\<lambda>x. entry_blockhash (snd x) \<notin> set bhs) (mp_pool i)"
      using key by (intro filter_cong) auto
    then show ?thesis using Cons.IH [OF Cons.prems] True by (simp add: run_simps idx)
  next
    case False
    let ?j = "i\<lparr>mp_index := (mp_index i)(bh := None)\<rparr>"
    have fin: "finite ?B" by (rule finite_subset [OF bucket_sub]) simp
    have "index_inv ?B ?j"
    proof -
      have disj: "b = bh" if k: "k \<in> bucket_of (mp_pool i) b" "k \<in> ?B" for b k
      proof -
        from k(2) obtain e where "(k, e) \<in> set (mp_pool i)" unfolding bucket_of_def by blast
        from entry_bucket [OF core this] k show ?thesis by simp
      qed
      have "bucket_of (mp_pool i) b - ?B = (if b = bh then {} else bucket_of (mp_pool i) b)" for b using disj [of _ b] by (cases "b = bh") auto
      then show ?thesis by (simp add: index_inv_def idx)
    qed
    moreover have "core_inv ?j" using core by (simp add: core_inv_def)
    moreover have "?B \<subseteq> fst ` set (mp_pool ?j)" using bucket_sub by simp
    ultimately obtain u where u: "remove_keys (korder ?B) ?j = (Ok (), u)" "pool_inv u"
      "mp_pool u = filter (\<lambda>x. fst x \<notin> ?B) (mp_pool i)" "mp_sequence u = mp_sequence i"
      using remove_keys_run [of ?j "korder ?B"] ko.order_set [OF fin] ko.order_distinct [OF fin] by auto
    have pool: "mp_pool u = filter (\<lambda>x. entry_blockhash (snd x) \<noteq> bh) (mp_pool i)" unfolding u(3) using key by (intro filter_cong) auto
    show ?thesis using Cons.IH [OF u(2)] u(1,4) False by (simp add: run_simps idx pool)
  qed
qed

lemma remove_expired_run:
  assumes inv: "pool_inv i"
  shows "\<exists>i'. remove_expired horder korder valid i = (Ok (), i') \<and> pool_inv i' \<and>
    mp_pool i' = filter (\<lambda>x. entry_blockhash (snd x) \<in> valid) (mp_pool i) \<and> mp_sequence i' = mp_sequence i"
proof -
  have idx: "\<And>b. mp_index i b = nonempty (bucket_of (mp_pool i) b)" using inv by (simp add: pool_inv_def index_inv_def)
  have dom: "dom (mp_index i) = (\<lambda>x. entry_blockhash (snd x)) ` set (mp_pool i)"
    by (force simp: dom_def idx bucket_of_def split: if_splits)
  then have fin: "finite (dom (mp_index i))" by simp
  let ?exp = "filter (\<lambda>bh. bh \<notin> valid) (horder (dom (mp_index i)))"
  have "filter (\<lambda>x. entry_blockhash (snd x) \<notin> set ?exp) (mp_pool i) = filter (\<lambda>x. entry_blockhash (snd x) \<in> valid) (mp_pool i)"
    by (rule filter_cong) (auto simp: ho.order_set dom)
  with remove_buckets_run [OF inv, of ?exp] show ?thesis by (auto simp: remove_expired_def run_simps)
qed

end

interpretation sorted_pool: pool_iteration "sorted_list_of_set" "sorted_list_of_set"
  by unfold_locales

section \<open>Reachable pools\<close>

text \<open>
  Threads interleave: the check under the read lock may have seen an older pool than the one an insertion then
  changes. The last condition of an insertion says that fewer than \<open>2 ^ 64\<close> transactions have been accepted.
\<close>

inductive pool_step :: "env \<Rightarrow> mempool \<Rightarrow> mempool_inner \<Rightarrow> mempool_inner \<Rightarrow> bool" for E M where
  step_insert: "insert_check E M tx seen = (Ok (h, payer), seen') \<Longrightarrow> insert_locked E M tx h payer i = (r, i') \<Longrightarrow>
    mp_sequence i \<noteq> - 1 \<Longrightarrow> pool_step E M i i'"
| step_drain: "drain_by_priority n i = (r, i') \<Longrightarrow> pool_step E M i i'"
| step_expire: "pool_iteration horder korder \<Longrightarrow> remove_expired horder korder valid i = (r, i') \<Longrightarrow> pool_step E M i i'"

definition pool_reachable :: "env \<Rightarrow> mempool \<Rightarrow> mempool_inner \<Rightarrow> bool" where
  "pool_reachable E M i \<longleftrightarrow> 0 < max_capacity M \<and> 0 < max_txs_per_account M \<and> (pool_step E M)\<^sup>*\<^sup>* inner_new i"

text \<open>The price in a key is the one its transaction asks for.\<close>

definition priced :: "env \<Rightarrow> mempool_inner \<Rightarrow> bool" where
  "priced E i \<longleftrightarrow> (\<forall>(k, e) \<in> set (mp_pool i). neg_priority k = extract_priority E (me_transaction e))"

lemma payer_count_sub: "payer_count (filter P pool) p \<le> payer_count pool p" "payer_count (drop n pool) p \<le> payer_count pool p"
proof -
  show "payer_count (filter P pool) p \<le> payer_count pool p"
    unfolding payer_count_def filter_filter by (rule length_filter_mono) simp
  have "payer_count (take n pool @ drop n pool) p = payer_count (take n pool) p + payer_count (drop n pool) p"
    unfolding payer_count_def filter_append length_append ..
  then show "payer_count (drop n pool) p \<le> payer_count pool p" by simp
qed

lemma drain_by_priority_run:
  assumes "pool_inv i"
  shows "\<exists>i'. drain_by_priority n i = (Ok (map (\<lambda>x. me_transaction (snd x)) (take n (mp_pool i))), i') \<and> pool_inv i' \<and>
    mp_pool i' = drop n (mp_pool i) \<and> mp_sequence i' = mp_sequence i"
  using drain_run [OF assms, of "min n (length (mp_pool i))"] by (cases "n \<le> length (mp_pool i)") (auto simp: drain_by_priority_def run_simps min_def)

lemma pool_step_inv:
  assumes step: "pool_step E M i i'" and pos: "0 < max_capacity M" "0 < max_txs_per_account M"
    and inv: "pool_inv i" "within_limits M i" "priced E i"
  shows "pool_inv i' \<and> within_limits M i' \<and> priced E i'"
  using step
proof cases
  case (step_insert tx seen h payer seen' r)
  note run = insert_locked_run [OF inv(1,2) pos step_insert(3,2)]
  have "priced E i'"
  proof (cases "r = Ok ()")
    case True
    have "set (room_made M i) \<subseteq> set (mp_pool i)" by (auto dest: in_set_butlastD)
    with run True inv(3) show ?thesis by (auto simp: priced_def bt_insert_new_set)
  qed (use run inv(3) in auto)
  with run show ?thesis by simp
next
  case (step_drain n r)
  then show ?thesis using drain_by_priority_run [OF inv(1), of n] inv(2,3) payer_count_sub(2)
    by (fastforce simp: within_limits_def priced_def intro: order_trans dest: in_set_dropD)
next
  case (step_expire horder korder valid r)
  then show ?thesis using pool_iteration.remove_expired_run [OF step_expire(1) inv(1), of valid] inv(2,3) payer_count_sub(1)
    by (fastforce simp: within_limits_def priced_def intro: order_trans le_trans [OF length_filter_le])
qed

lemma reachable_inv:
  assumes "pool_reachable E M i"
  shows "pool_inv i \<and> within_limits M i \<and> priced E i"
proof -
  have pos: "0 < max_capacity M" "0 < max_txs_per_account M" and steps: "(pool_step E M)\<^sup>*\<^sup>* inner_new i"
    using assms by (simp_all add: pool_reachable_def)
  from steps show ?thesis
  proof induction
    case base
    show ?case using inner_new_inv by (simp add: within_limits_def priced_def inner_new_def payer_count_def)
  next
    case (step j k)
    then show ?case using pool_step_inv [OF step(2) pos] by blast
  qed
qed

lemma bt_insert_position:
  assumes "bt_ok pool" and "\<forall>k \<in> fst ` set pool. key_sequence k < s"
  shows "bt_insert (MempoolKey p s) e pool =
    filter (\<lambda>x. p \<le> neg_priority (fst x)) pool @ (MempoolKey p s, e) # filter (\<lambda>x. neg_priority (fst x) < p) pool"
  using assms
proof (induction pool)
  case (Cons x pool)
  obtain l w where x: "x = (l, w)" by force
  show ?case
  proof (cases "neg_priority l < p")
    case True
    have low: "neg_priority (fst y) < p" if "y \<in> set pool" for y
      using Cons.prems(1) that True unfolding x bt_ok_Cons less_mempool_key_def by (metis image_eqI order.strict_trans)
    then have "filter (\<lambda>x. p \<le> neg_priority (fst x)) pool = []" "filter (\<lambda>x. neg_priority (fst x) < p) pool = pool"
      by (auto simp: filter_empty_conv not_le)
    with True show ?thesis by (simp add: x less_mempool_key_def)
  next
    case False
    have "\<not> MempoolKey p s < l" "MempoolKey p s \<noteq> l" using False Cons.prems(2) by (auto simp: x less_mempool_key_def)
    with False Cons show ?thesis by (simp add: x bt_ok_Cons)
  qed
qed simp

section \<open>Properties of the pool\<close>

text \<open>C8: In every pool that any interleaving of insertions, drains and expiries can reach, the consistency check of the debug
  build holds, the capacity and the per-payer limit are respected, and none of the operations panics.\<close>

theorem pool_consistent:
  assumes "pool_reachable E M i"
  shows "assert_invariants i \<and> pool_len i \<le> max_capacity M \<and> (\<forall>p c. mp_counts i p = Some c \<longrightarrow> c \<le> max_txs_per_account M) \<and>
    fst (drain_by_priority n i) \<noteq> Panic \<and> (mp_sequence i \<noteq> - 1 \<longrightarrow> fst (insert_locked E M tx h payer i) \<noteq> Panic) \<and>
    (pool_iteration horder korder \<longrightarrow> fst (remove_expired horder korder valid i) \<noteq> Panic)"
proof -
  have pos: "0 < max_capacity M" "0 < max_txs_per_account M" using assms by (simp_all add: pool_reachable_def)
  have inv: "pool_inv i" "within_limits M i" using reachable_inv [OF assms] by blast+
  have "c \<le> max_txs_per_account M" if "mp_counts i p = Some c" for p c
    using inv that core_invD(4) [of i p] by (auto simp: pool_inv_def within_limits_def split: if_splits)
  moreover have "fst (insert_locked E M tx h payer i) \<noteq> Panic" if "mp_sequence i \<noteq> - 1"
    using insert_locked_run [OF inv pos that prod.collapse [symmetric], of E tx h payer] by (auto split: if_splits)
  moreover have "fst (remove_expired horder korder valid i) \<noteq> Panic" if "pool_iteration horder korder"
    using pool_iteration.remove_expired_run [OF that inv(1), of valid] by auto
  ultimately show ?thesis
    using pool_inv_asserted [OF inv(1)] inv(2) drain_by_priority_run [OF inv(1), of n] by (auto simp: within_limits_def pool_len_def)
qed

text \<open>C9: An insertion is refused as a duplicate, for the payer's limit, or because the pool is full of transactions that pay no less, and
  then changes nothing. Otherwise the transaction takes its place behind all that pay at least as much and before those that
  pay less, and if the pool was full its last transaction is gone.\<close>

theorem mempool_insert_spec:
  assumes re: "pool_reachable E M i" and s: "mp_sequence i \<noteq> - 1"
    and keys: "account_keys (tx_message tx) = payer # rest" and sigs: "length (signatures tx) = unat (num_required_signatures (tx_message tx))"
    and h: "tx_hash E tx = (Ok h :: (mempool_error, hash) outcome)" and run: "mempool_insert E M tx i = (r, i')"
  shows "let price = extract_priority E tx; kept = (if pool_len i < max_capacity M then mp_pool i else butlast (mp_pool i)) in
    r = (if pool_contains i h then Err ME_DuplicateTransaction
         else if \<exists>c. mp_counts i payer = Some c \<and> max_txs_per_account M \<le> c then Err (ME_AccountLimitExceeded payer (max_txs_per_account M))
         else if pool_len i = max_capacity M \<and> price \<le> neg_priority (fst (last (mp_pool i))) then Err (ME_Full (max_capacity M))
         else Ok ()) \<and>
    (if r = Ok () then mp_pool i' = filter (\<lambda>x. price \<le> neg_priority (fst x)) kept @
        [(MempoolKey price (mp_sequence i), \<lparr>me_transaction = tx, me_hash = h, me_payer = payer\<rparr>)] @
        filter (\<lambda>x. neg_priority (fst x) < price) kept
     else i' = i)"
proof -
  have pos: "0 < max_capacity M" "0 < max_txs_per_account M" using re by (simp_all add: pool_reachable_def)
  have inv: "pool_inv i" "within_limits M i" using reachable_inv [OF re] by blast+
  have cnt: "(\<exists>c. mp_counts i payer = Some c \<and> max_txs_per_account M \<le> c) \<longleftrightarrow> max_txs_per_account M \<le> payer_count (mp_pool i) payer"
    using pos(2) inv(1) core_invD(4) [of i payer] by (auto simp: pool_inv_def)
  have eq: "mempool_insert E M tx i = insert_locked E M tx h payer i"
  proof (cases "fst (admission M h payer i) = Ok ()")
    case True
    then have "admission M h payer i = (Ok (), i)" using admission_run [OF inv(1) pos(2), of h payer] by simp
    then show ?thesis by (simp add: mempool_insert_def insert_check_def keys sigs h run_simps)
  next
    case False
    then obtain e where e: "admission M h payer i = (Err e, i)" using admission_run [OF inv(1) pos(2), of h payer] by (auto split: if_splits)
    then show ?thesis by (simp add: mempool_insert_def insert_check_def insert_locked_def keys sigs h run_simps)
  qed
  note spec = insert_locked_run [OF inv pos s, OF run [unfolded eq]]
  have ok: "bt_ok (room_made M i)" "\<forall>k \<in> fst ` set (room_made M i). key_sequence k < mp_sequence i"
  proof -
    have "bt_ok (mp_pool i)" "\<forall>k \<in> fst ` set (mp_pool i). key_sequence k < mp_sequence i"
      using inv(1) by (simp_all add: pool_inv_def core_inv_def)
    moreover from this(1) have "bt_ok (butlast (mp_pool i))"
      by (cases "mp_pool i" rule: rev_cases) (simp_all add: bt_ok_append)
    ultimately show "bt_ok (room_made M i)" "\<forall>k \<in> fst ` set (room_made M i). key_sequence k < mp_sequence i"
      by (auto dest: in_set_butlastD)
  qed
  from spec bt_insert_position [OF ok, of "extract_priority E tx"] show ?thesis
    unfolding Let_def pool_len_def pool_contains_def cnt by simp
qed

text \<open>C27: Draining returns the first transactions of the pool in decreasing order of price, none of them paying less than a
  transaction that stays, and removes exactly those.\<close>

theorem drain_best_first:
  assumes "pool_reachable E M i"
  shows "\<exists>txs i'. drain_by_priority n i = (Ok txs, i') \<and> txs = map (\<lambda>x. me_transaction (snd x)) (take n (mp_pool i)) \<and>
    mp_pool i' = drop n (mp_pool i) \<and> sorted_wrt (\<lambda>t u. extract_priority E u \<le> extract_priority E t) txs \<and>
    (\<forall>t \<in> set txs. \<forall>x \<in> set (mp_pool i'). extract_priority E (me_transaction (snd x)) \<le> extract_priority E t)"
proof -
  have inv: "pool_inv i" "priced E i" using reachable_inv [OF assms] by blast+
  let ?p = "\<lambda>x. extract_priority E (me_transaction (snd x))"
  have key: "neg_priority (fst x) = ?p x" if "x \<in> set (mp_pool i)" for x using inv(2) that by (auto simp: priced_def)
  have "sorted_wrt (\<lambda>x y. fst x < fst y) (mp_pool i)" using inv(1) by (simp add: pool_inv_def core_inv_def bt_ok_def sorted_wrt_map)
  then have "sorted_wrt (\<lambda>x y. ?p y \<le> ?p x) (mp_pool i)"
    by (rule sorted_wrt_mono_rel [rotated]) (auto simp: less_mempool_key_def key [symmetric])
  then have "sorted_wrt (\<lambda>x y. ?p y \<le> ?p x) (take n (mp_pool i) @ drop n (mp_pool i))" by simp
  then have "sorted_wrt (\<lambda>x y. ?p y \<le> ?p x) (take n (mp_pool i))" "\<forall>x \<in> set (take n (mp_pool i)). \<forall>y \<in> set (drop n (mp_pool i)). ?p y \<le> ?p x"
    unfolding sorted_wrt_append by blast+
  with drain_by_priority_run [OF inv(1), of n] show ?thesis by (auto simp: sorted_wrt_map)
qed

section \<open>Witnesses\<close>

definition sample_pool :: mempool where
  "sample_pool = \<lparr>max_capacity = 1, max_txs_per_account = 64\<rparr>"

definition pooled_tx :: transaction where
  "pooled_tx = sample_tx\<lparr>signatures := [[]]\<rparr>"

definition pooled_entry :: mempool_entry where
  "pooled_entry = \<lparr>me_transaction = pooled_tx, me_hash = sha3_512 sample_env sample_tx_bytes, me_payer = sample_hash [7]\<rparr>"

lemma pooled_tx_hash: "tx_hash sample_env pooled_tx = Ok (sha3_512 sample_env sample_tx_bytes)"
  using sample_tx_to_vec by (simp add: tx_hash_def message_data_def pooled_tx_def)

lemma pooled_tx_keys:
  "account_keys (tx_message pooled_tx) = [sample_hash [7]]"
  "length (signatures pooled_tx) = unat (num_required_signatures (tx_message pooled_tx))"
  by (simp_all add: pooled_tx_def sample_tx_def transaction_new_def)

lemma pooled_insert_run:
  "insert_check sample_env sample_pool pooled_tx inner_new = (Ok (sha3_512 sample_env sample_tx_bytes, sample_hash [7]), inner_new)"
  "insert_locked sample_env sample_pool pooled_tx (sha3_512 sample_env sample_tx_bytes) (sample_hash [7]) inner_new =
    (Ok (), add_entry (extract_priority sample_env pooled_tx) pooled_entry inner_new)"
  "mempool_insert sample_env sample_pool pooled_tx inner_new = (Ok (), add_entry (extract_priority sample_env pooled_tx) pooled_entry inner_new)"
proof -
  have adm: "admission sample_pool h p inner_new = (Ok (), inner_new)" for h p
    by (subst admission_run [OF inner_new_inv]) (simp_all add: sample_pool_def inner_new_def payer_count_def)
  have ev: "evict_if_full sample_pool p inner_new = (Ok (), inner_new)" for p by (simp add: evict_if_full_def run_simps inner_new_def sample_pool_def)
  show c: "insert_check sample_env sample_pool pooled_tx inner_new = (Ok (sha3_512 sample_env sample_tx_bytes, sample_hash [7]), inner_new)"
    by (simp add: insert_check_def run_simps pooled_tx_keys pooled_tx_hash adm Let_def)
  show l: "insert_locked sample_env sample_pool pooled_tx (sha3_512 sample_env sample_tx_bytes) (sample_hash [7]) inner_new =
      (Ok (), add_entry (extract_priority sample_env pooled_tx) pooled_entry inner_new)"
    by (simp add: insert_locked_def run_simps adm ev pooled_entry_def)
  show "mempool_insert sample_env sample_pool pooled_tx inner_new = (Ok (), add_entry (extract_priority sample_env pooled_tx) pooled_entry inner_new)"
    by (simp add: mempool_insert_def run_simps c l)
qed

lemma pooled_reachable:
  "pool_reachable sample_env sample_pool inner_new"
  "pool_reachable sample_env sample_pool (add_entry (extract_priority sample_env pooled_tx) pooled_entry inner_new)"
  using step_insert [OF pooled_insert_run(1,2)]
  by (auto simp: pool_reachable_def sample_pool_def) (simp add: inner_new_def r_into_rtranclp)

lemma pooled_pool:
  "mp_pool (add_entry p e inner_new) = [(MempoolKey p 0, e)]"
  by (simp add: add_entry_def inner_new_def Let_def)

theorem pool_consistent_witness:
  "assert_invariants (add_entry (extract_priority sample_env pooled_tx) pooled_entry inner_new) \<and>
   pool_len (add_entry (extract_priority sample_env pooled_tx) pooled_entry inner_new) \<le> 1"
  using pool_consistent [OF pooled_reachable(2)] by (simp add: sample_pool_def)

theorem mempool_insert_spec_witness:
  "\<exists>i'. mempool_insert sample_env sample_pool pooled_tx inner_new = (Ok (), i') \<and>
    mp_pool i' = [(MempoolKey (extract_priority sample_env pooled_tx) 0, pooled_entry)]"
proof -
  have s: "mp_sequence inner_new \<noteq> - 1" by (simp add: inner_new_def)
  show ?thesis
    using mempool_insert_spec [OF pooled_reachable(1) s pooled_tx_keys pooled_tx_hash pooled_insert_run(3)] pooled_insert_run(3)
    by (simp add: Let_def inner_new_def pooled_entry_def pool_len_def)
qed

theorem drain_best_first_witness:
  "\<exists>i'. drain_by_priority 5 (add_entry (extract_priority sample_env pooled_tx) pooled_entry inner_new) = (Ok [pooled_tx], i') \<and> mp_pool i' = []"
  using drain_best_first [OF pooled_reachable(2), of 5] by (auto simp: pooled_pool pooled_entry_def)

end
