(* ===== verification/Merkle.thy ===== *)
theory Merkle
  imports Database
begin

text \<open>
  Merkle trees: \<open>crypto/src/merkle.rs\<close>. The tree is an array in heap order, padded to a power of two. The root equals
  the textbook recursion over the padded leaves, every inclusion proof verifies, and two proofs along one path that
  lead to the same root are equal and for the same leaf, unless two inputs hashed while checking them collide.
\<close>

section \<open>The tree and its proofs\<close>

definition hash_leaf :: "env \<Rightarrow> hash \<Rightarrow> hash" where
  "hash_leaf E data = sha3_512 E (0 # hash_bytes data)"

definition hash_internal :: "env \<Rightarrow> hash \<Rightarrow> hash \<Rightarrow> hash" where
  "hash_internal E left right = sha3_512 E (1 # hash_bytes left @ hash_bytes right)"

record merkle_tree =
  mt_nodes :: "hash list"
  mt_leaf_count :: nat

text \<open>\<open>usize::next_power_of_two\<close>: the first power of two that is not smaller.\<close>

function double_until :: "nat \<Rightarrow> nat \<Rightarrow> nat" where
  "double_until p n = (if n \<le> p \<or> p = 0 then p else double_until (2 * p) n)"
  by pat_completeness auto
termination by (relation "measure (\<lambda>(p, n). n - p)") auto

declare double_until.simps [simp del]

definition next_power_of_two :: "nat \<Rightarrow> nat" where
  "next_power_of_two n = double_until 1 n"

text \<open>The leaf layer with its padding, and the loop that fills the inner nodes from the last to the first.\<close>

definition leaf_layer :: "env \<Rightarrow> nat \<Rightarrow> hash list \<Rightarrow> hash list" where
  "leaf_layer E padded_count leaves =
    replicate (padded_count - 1) 0 @ map (hash_leaf E) leaves @ replicate (padded_count - length leaves) (hash_leaf E 0)"

fun build_up :: "env \<Rightarrow> nat \<Rightarrow> hash list \<Rightarrow> hash list" where
  "build_up E 0 nodes = nodes"
| "build_up E (Suc i) nodes = build_up E i (nodes[i := hash_internal E (nodes ! (2 * i + 1)) (nodes ! (2 * i + 2))])"

definition merkle_new :: "env \<Rightarrow> hash list \<Rightarrow> merkle_tree" where
  "merkle_new E leaves =
    (if leaves = [] then \<lparr>mt_nodes = [0], mt_leaf_count = 0\<rparr>
     else let padded_count = next_power_of_two (length leaves) in
       \<lparr>mt_nodes = build_up E (padded_count - 1) (leaf_layer E padded_count leaves), mt_leaf_count = length leaves\<rparr>)"

definition merkle_root :: "merkle_tree \<Rightarrow> hash" where
  "merkle_root t = mt_nodes t ! 0"

record merkle_proof =
  pf_hashes :: "hash list"
  pf_path :: "bool list"

text \<open>The walk from a position to the root; \<open>True\<close> in the path marks a right child.\<close>

fun proof_walk :: "hash list \<Rightarrow> nat \<Rightarrow> (hash \<times> bool) list" where
  "proof_walk nodes 0 = []"
| "proof_walk nodes (Suc p) =
    (nodes ! (if odd (Suc p) then Suc p + 1 else Suc p - 1), even (Suc p)) # proof_walk nodes (p div 2)"

definition proof_from :: "hash list \<Rightarrow> nat \<Rightarrow> merkle_proof" where
  "proof_from nodes pos = (let steps = proof_walk nodes pos in \<lparr>pf_hashes = map fst steps, pf_path = map snd steps\<rparr>)"

definition merkle_proof_of :: "merkle_tree \<Rightarrow> nat \<Rightarrow> merkle_proof option" where
  "merkle_proof_of t i =
    (if mt_leaf_count t \<le> i then None
     else let padded_count = (length (mt_nodes t) + 1) div 2 in Some (proof_from (mt_nodes t) (padded_count - 1 + i)))"

fun climb :: "env \<Rightarrow> (hash \<times> bool) list \<Rightarrow> hash \<Rightarrow> hash" where
  "climb E [] current = current"
| "climb E ((sibling, is_right) # steps) current =
    climb E steps (if is_right then hash_internal E sibling current else hash_internal E current sibling)"

definition verify_merkle :: "env \<Rightarrow> merkle_proof \<Rightarrow> hash \<Rightarrow> hash \<Rightarrow> bool" where
  "verify_merkle E p leaf root \<longleftrightarrow> climb E (zip (pf_hashes p) (pf_path p)) (hash_leaf E leaf) = root"

section \<open>Powers of two\<close>

text \<open>The number of halvings: the least exponent of a power of two that is not smaller.\<close>

function doublings :: "nat \<Rightarrow> nat \<Rightarrow> nat" where
  "doublings p n = (if n \<le> p \<or> p = 0 then 0 else Suc (doublings (2 * p) n))"
  by pat_completeness auto
termination by (relation "measure (\<lambda>(p, n). n - p)") auto

declare doublings.simps [simp del]

definition tree_depth :: "nat \<Rightarrow> nat" where
  "tree_depth n = doublings 1 n"

lemma double_until_doublings: "double_until p n = p * 2 ^ doublings p n \<and> (0 < p \<longrightarrow> n \<le> p * 2 ^ doublings p n)"
proof (induction p n rule: double_until.induct)
  case (1 p n)
  then show ?case by (subst (1) double_until.simps, subst (1 2) doublings.simps) auto
qed

lemma next_power_of_two_depth: "next_power_of_two n = 2 ^ tree_depth n" "n \<le> 2 ^ tree_depth n"
  using double_until_doublings [of 1 n] by (simp_all add: next_power_of_two_def tree_depth_def)

section \<open>The textbook tree\<close>

text \<open>The hash of the \<open>2 ^ k\<close> leaves \<open>f 0\<close>, \<open>f 1\<close>, and so on, by halving.\<close>

fun tree_hash :: "env \<Rightarrow> nat \<Rightarrow> (nat \<Rightarrow> hash) \<Rightarrow> hash" where
  "tree_hash E 0 f = f 0"
| "tree_hash E (Suc k) f = hash_internal E (tree_hash E k f) (tree_hash E k (\<lambda>j. f (2 ^ k + j)))"

text \<open>An array in heap order whose inner nodes are the hashes of their children.\<close>

definition valid_nodes :: "env \<Rightarrow> (nat \<Rightarrow> hash) \<Rightarrow> nat \<Rightarrow> hash list \<Rightarrow> bool" where
  "valid_nodes E f c nodes \<longleftrightarrow> length nodes = 2 * c - 1 \<and> (\<forall>j < c. nodes ! (c - 1 + j) = f j) \<and>
    (\<forall>i < c - 1. nodes ! i = hash_internal E (nodes ! (2 * i + 1)) (nodes ! (2 * i + 2)))"

lemma valid_node_hash:
  assumes "valid_nodes E f (2 ^ k) nodes" and "d \<le> k" and "m < 2 ^ d"
  shows "nodes ! (2 ^ d - 1 + m) = tree_hash E (k - d) (\<lambda>j. f (m * 2 ^ (k - d) + j))"
  using assms(2,3)
proof (induction "k - d" arbitrary: d m)
  case 0
  then have "d = k" by simp
  with 0 assms(1) show ?case by (simp add: valid_nodes_def)
next
  case (Suc r)
  then have kd: "k - d = Suc r" "k - Suc d = r" "Suc d \<le> k" by simp_all
  let ?i = "2 ^ d - 1 + m"
  have p: "(1 :: nat) \<le> 2 ^ d" by simp
  have "(2 :: nat) ^ Suc d \<le> 2 ^ k" by (rule power_increasing [OF kd(3)]) simp
  then have i: "?i < 2 ^ k - 1" using Suc.prems(2) p by (simp del: one_le_power)
  obtain q where q: "(2 :: nat) ^ d = Suc q" using p by (metis not0_implies_Suc not_one_le_zero)
  have c: "2 * ?i + 1 = 2 ^ Suc d - 1 + 2 * m" "2 * ?i + 2 = 2 ^ Suc d - 1 + (2 * m + 1)" unfolding power_Suc q by simp_all
  have l: "nodes ! (2 * ?i + 1) = tree_hash E r (\<lambda>j. f (2 * m * 2 ^ r + j))"
    unfolding c(1) using Suc.hyps(1) [of "Suc d" "2 * m"] Suc.prems(2) kd by simp
  have rr: "nodes ! (2 * ?i + 2) = tree_hash E r (\<lambda>j. f ((2 * m + 1) * 2 ^ r + j))"
    unfolding c(2) using Suc.hyps(1) [of "Suc d" "2 * m + 1"] Suc.prems(2) kd by simp
  have "nodes ! ?i = hash_internal E (nodes ! (2 * ?i + 1)) (nodes ! (2 * ?i + 2))" using assms(1) i by (simp add: valid_nodes_def)
  then show ?case unfolding l rr kd(1) by (simp add: algebra_simps)
qed

lemma valid_root: "valid_nodes E f (2 ^ k) nodes \<Longrightarrow> nodes ! 0 = tree_hash E k f"
  using valid_node_hash [of E f k nodes 0 0] by simp

section \<open>Building\<close>

lemma build_up_spec:
  assumes "length nodes = 2 * c - 1" and "n \<le> c - 1"
    and "\<forall>i < c - 1. n \<le> i \<longrightarrow> nodes ! i = hash_internal E (nodes ! (2 * i + 1)) (nodes ! (2 * i + 2))"
  shows "length (build_up E n nodes) = 2 * c - 1 \<and> (\<forall>i \<ge> n. build_up E n nodes ! i = nodes ! i) \<and>
    (\<forall>i < c - 1. build_up E n nodes ! i = hash_internal E (build_up E n nodes ! (2 * i + 1)) (build_up E n nodes ! (2 * i + 2)))"
  using assms
proof (induction n arbitrary: nodes)
  case (Suc n)
  let ?m = "nodes[n := hash_internal E (nodes ! (2 * n + 1)) (nodes ! (2 * n + 2))]"
  have "\<forall>i < c - 1. n \<le> i \<longrightarrow> ?m ! i = hash_internal E (?m ! (2 * i + 1)) (?m ! (2 * i + 2))"
    using Suc.prems by (auto simp: nth_list_update le_less_Suc_eq)
  from Suc.IH [of ?m, OF _ _ this] Suc.prems show ?case by simp
qed simp

lemma leaf_layer_length: "length leaves \<le> c \<Longrightarrow> length (leaf_layer E c leaves) = 2 * c - 1"
  by (auto simp: leaf_layer_def)

definition padded_leaf :: "env \<Rightarrow> hash list \<Rightarrow> nat \<Rightarrow> hash" where
  "padded_leaf E leaves j = hash_leaf E (if j < length leaves then leaves ! j else 0)"

lemma leaf_layer_nth: "j < c \<Longrightarrow> length leaves \<le> c \<Longrightarrow> leaf_layer E c leaves ! (c - 1 + j) = padded_leaf E leaves j"
  by (cases c) (simp_all add: leaf_layer_def padded_leaf_def nth_append)

lemma built_valid:
  assumes "length leaves \<le> c"
  shows "valid_nodes E (padded_leaf E leaves) c (build_up E (c - 1) (leaf_layer E c leaves))"
proof -
  have "\<forall>i < c - 1. c - 1 \<le> i \<longrightarrow> leaf_layer E c leaves ! i =
      hash_internal E (leaf_layer E c leaves ! (2 * i + 1)) (leaf_layer E c leaves ! (2 * i + 2))" by auto
  from build_up_spec [OF leaf_layer_length [OF assms] order_refl this]
  show ?thesis unfolding valid_nodes_def using leaf_layer_nth [OF _ assms] by (metis le_add1)
qed

text \<open>The root of a list of leaves: padded to the next power of two and hashed by halving.\<close>

definition root_of_leaves :: "env \<Rightarrow> hash list \<Rightarrow> hash" where
  "root_of_leaves E leaves = (if leaves = [] then 0 else tree_hash E (tree_depth (length leaves)) (padded_leaf E leaves))"

lemma built_root:
  assumes "leaves \<noteq> []"
  defines "c \<equiv> next_power_of_two (length leaves)"
  shows "build_up E (c - 1) (leaf_layer E c leaves) ! 0 = root_of_leaves E leaves"
  using valid_root [of E "padded_leaf E leaves" "tree_depth (length leaves)"] built_valid [of leaves c E] assms(1)
    next_power_of_two_depth [of "length leaves"] by (simp add: c_def root_of_leaves_def)

lemma merkle_new_root: "merkle_root (merkle_new E leaves) = root_of_leaves E leaves"
  using built_root [of leaves E] by (cases "leaves = []") (simp_all add: merkle_root_def merkle_new_def root_of_leaves_def Let_def)

section \<open>Proofs\<close>

lemma climb_walk:
  assumes "valid_nodes E f c nodes" and "pos < 2 * c - 1"
  shows "climb E (proof_walk nodes pos) (nodes ! pos) = nodes ! 0"
  using assms
proof (induction nodes pos rule: proof_walk.induct)
  case (2 nodes p)
  have up: "p div 2 < c - 1" using 2(3) by auto
  then have par: "nodes ! (p div 2) = hash_internal E (nodes ! (2 * (p div 2) + 1)) (nodes ! (2 * (p div 2) + 2))"
    using 2(2) by (simp add: valid_nodes_def)
  have "2 * (p div 2) + 1 = (if odd p then p else Suc p)" "2 * (p div 2) + 2 = (if odd p then Suc p else Suc (Suc p))"
    by (auto elim!: evenE oddE)
  then have "nodes ! (p div 2) = (if odd p then hash_internal E (nodes ! p) (nodes ! Suc p) else hash_internal E (nodes ! Suc p) (nodes ! Suc (Suc p)))"
    unfolding par by simp
  then have "climb E (proof_walk nodes (Suc p)) (nodes ! Suc p) = climb E (proof_walk nodes (p div 2)) (nodes ! (p div 2))"
    by (cases "odd p") simp_all
  also have "\<dots> = nodes ! 0" using 2(1) [OF 2(2)] up by simp
  finally show ?case .
qed simp

lemma proof_from_steps: "zip (pf_hashes (proof_from nodes pos)) (pf_path (proof_from nodes pos)) = proof_walk nodes pos"
  by (simp add: proof_from_def Let_def zip_map_fst_snd)

lemma proof_verifies:
  assumes v: "valid_nodes E f c nodes" and j: "j < c" "f j = hash_leaf E leaf"
  shows "verify_merkle E (proof_from nodes (c - 1 + j)) leaf (nodes ! 0)"
proof -
  have "nodes ! (c - 1 + j) = hash_leaf E leaf" using v j unfolding valid_nodes_def by metis
  moreover have "climb E (proof_walk nodes (c - 1 + j)) (nodes ! (c - 1 + j)) = nodes ! 0" using j(1) by (intro climb_walk [OF v]) linarith
  ultimately show ?thesis unfolding verify_merkle_def proof_from_steps by argo
qed

text \<open>What is hashed while a proof is checked, from the leaf up. Two checks along one path that end in the same hash are the
  same, or at some level they hash different inputs to the same value.\<close>

fun climb_inputs :: "env \<Rightarrow> (hash \<times> bool) list \<Rightarrow> hash \<Rightarrow> bytes list" where
  "climb_inputs E [] current = []"
| "climb_inputs E ((sibling, is_right) # steps) current =
    (let x = 1 # (if is_right then hash_bytes sibling @ hash_bytes current else hash_bytes current @ hash_bytes sibling)
     in x # climb_inputs E steps (sha3_512 E x))"

definition hashed_inputs :: "env \<Rightarrow> merkle_proof \<Rightarrow> hash \<Rightarrow> bytes list" where
  "hashed_inputs E p leaf = (0 # hash_bytes leaf) # climb_inputs E (zip (pf_hashes p) (pf_path p)) (hash_leaf E leaf)"

definition collides :: "env \<Rightarrow> bytes list \<Rightarrow> bytes list \<Rightarrow> bool" where
  "collides E xs ys \<longleftrightarrow> (\<exists>i < min (length xs) (length ys). xs ! i \<noteq> ys ! i \<and> sha3_512 E (xs ! i) = sha3_512 E (ys ! i))"

lemma collides_Cons: "collides E (x # xs) (y # ys) \<longleftrightarrow> x \<noteq> y \<and> sha3_512 E x = sha3_512 E y \<or> collides E xs ys"
  unfolding collides_def by (auto simp: less_Suc_eq_0_disj)

lemma climb_inj:
  assumes "map snd s = map snd t" and "climb E s a = climb E t b"
  shows "a = b \<and> s = t \<or> collides E (climb_inputs E s a) (climb_inputs E t b)"
  using assms
proof (induction s arbitrary: t a b)
  case (Cons step s)
  obtain u w where step: "step = (u, w)" by (cases step)
  obtain v t' where t: "t = (v, w) # t'" "map snd s = map snd t'" using Cons.prems(1) step by (cases t) auto
  define x where "x = 1 # (if w then hash_bytes u @ hash_bytes a else hash_bytes a @ hash_bytes u)"
  define y where "y = 1 # (if w then hash_bytes v @ hash_bytes b else hash_bytes b @ hash_bytes v)"
  have "climb E s (sha3_512 E x) = climb E t' (sha3_512 E y)"
    using Cons.prems(2) by (simp add: step t(1) x_def y_def hash_internal_def split: if_splits)
  from Cons.IH [OF t(2) this]
  have "sha3_512 E x = sha3_512 E y \<and> s = t' \<or> collides E (climb_inputs E s (sha3_512 E x)) (climb_inputs E t' (sha3_512 E y))" .
  moreover have "a = b \<and> u = v" if "x = y" using that by (auto simp: x_def y_def split: if_splits)
  moreover have "climb_inputs E (step # s) a = x # climb_inputs E s (sha3_512 E x)" "climb_inputs E t b = y # climb_inputs E t' (sha3_512 E y)"
    by (simp_all add: step t(1) x_def y_def Let_def)
  ultimately show ?case unfolding t(1) step collides_Cons by (metis collides_Cons)
qed simp

lemma merkle_proof_verifies:
  "case merkle_proof_of (merkle_new E leaves) i of
     None \<Rightarrow> length leaves \<le> i
   | Some p \<Rightarrow> i < length leaves \<and> verify_merkle E p (leaves ! i) (root_of_leaves E leaves)"
proof (cases "leaves = []")
  case True
  then show ?thesis by (simp add: merkle_new_def merkle_proof_of_def)
next
  case False
  define c where "c = next_power_of_two (length leaves)"
  define nodes where "nodes = build_up E (c - 1) (leaf_layer E c leaves)"
  have le: "length leaves \<le> c" "0 < c" by (simp_all add: c_def next_power_of_two_depth)
  have v: "valid_nodes E (padded_leaf E leaves) c nodes" unfolding nodes_def by (rule built_valid [OF le(1)])
  have t: "merkle_new E leaves = \<lparr>mt_nodes = nodes, mt_leaf_count = length leaves\<rparr>"
    using False by (simp add: merkle_new_def Let_def nodes_def c_def)
  have root: "nodes ! 0 = root_of_leaves E leaves" unfolding nodes_def c_def by (rule built_root [OF False])
  have cap: "(length nodes + 1) div 2 = c" using v le(2) by (simp add: valid_nodes_def)
  have "verify_merkle E (proof_from nodes (c - 1 + i)) (leaves ! i) (root_of_leaves E leaves)" if "i < length leaves"
    using proof_verifies [OF v, of i "leaves ! i"] that le(1) unfolding root by (simp add: padded_leaf_def)
  then show ?thesis unfolding merkle_proof_of_def t Let_def merkle_tree.simps cap by simp
qed

section \<open>Properties\<close>

text \<open>C28: The root of a tree is the textbook Merkle hash of the leaves padded with zero hashes to a power of two, and the proof for
  every leaf verifies against it; there is no proof for an index past the last leaf.\<close>

theorem merkle_correct:
  shows "merkle_root (merkle_new E leaves) = root_of_leaves E leaves \<and>
    (case merkle_proof_of (merkle_new E leaves) i of
       None \<Rightarrow> length leaves \<le> i
     | Some p \<Rightarrow> i < length leaves \<and> verify_merkle E p (leaves ! i) (root_of_leaves E leaves))"
  using merkle_new_root merkle_proof_verifies by blast

text \<open>C29: Two proofs along the same path that verify against the same root are for the same leaf and carry the same siblings,
  unless at some level of the path the two checks hash different byte strings to the same hash. The collision is between
  inputs that the verification itself computes, level by level.\<close>

theorem merkle_binding:
  assumes "verify_merkle E p leaf root" and "verify_merkle E q leaf' root"
    and "map snd (zip (pf_hashes p) (pf_path p)) = map snd (zip (pf_hashes q) (pf_path q))"
  shows "leaf = leaf' \<and> zip (pf_hashes p) (pf_path p) = zip (pf_hashes q) (pf_path q) \<or>
    (\<exists>i < min (length (hashed_inputs E p leaf)) (length (hashed_inputs E q leaf')).
      hashed_inputs E p leaf ! i \<noteq> hashed_inputs E q leaf' ! i \<and>
      sha3_512 E (hashed_inputs E p leaf ! i) = sha3_512 E (hashed_inputs E q leaf' ! i))"
proof -
  let ?s = "zip (pf_hashes p) (pf_path p)" and ?t = "zip (pf_hashes q) (pf_path q)"
  have "hash_leaf E leaf = hash_leaf E leaf' \<and> ?s = ?t \<or>
      collides E (climb_inputs E ?s (hash_leaf E leaf)) (climb_inputs E ?t (hash_leaf E leaf'))"
    by (rule climb_inj [OF assms(3)]) (use assms(1,2) in \<open>simp add: verify_merkle_def\<close>)
  then have "leaf = leaf' \<and> ?s = ?t \<or> collides E (hashed_inputs E p leaf) (hashed_inputs E q leaf')"
    unfolding hashed_inputs_def collides_Cons by (auto simp: hash_leaf_def)
  then show ?thesis by (simp add: collides_def)
qed

definition constant_hash_env :: env where
  "constant_hash_env = sample_env\<lparr>sha3_512 := (\<lambda>_. 0)\<rparr>"

text \<open>A hash function that maps everything to zero lets one proof stand for two leaves, and the inputs collide.\<close>

theorem merkle_binding_witness:
  "let p = \<lparr>pf_hashes = [], pf_path = []\<rparr>; E = constant_hash_env in
   verify_merkle E p 3 0 \<and> verify_merkle E p 4 0 \<and> (3 :: hash) \<noteq> 4 \<and>
   (\<exists>i < 1. hashed_inputs E p 3 ! i \<noteq> hashed_inputs E p 4 ! i \<and>
      sha3_512 E (hashed_inputs E p 3 ! i) = sha3_512 E (hashed_inputs E p 4 ! i))"
proof -
  let ?p = "\<lparr>pf_hashes = [], pf_path = []\<rparr>"
  have v: "verify_merkle constant_hash_env ?p l 0" for l by (simp add: verify_merkle_def hash_leaf_def constant_hash_env_def)
  have len: "length (hashed_inputs constant_hash_env ?p l) = 1" for l by (simp add: hashed_inputs_def)
  from merkle_binding [OF v [of 3] v [of 4] refl] v show ?thesis by (simp add: len Let_def)
qed

end
