(* ===== verification/State_Tree.thy ===== *)
theory State_Tree
  imports Merkle Ordered_Map Accounts_Db
begin

text \<open>
  The Merkle tree over all accounts: \<open>consensus/src/state_tree.rs\<close>. Changing an account updates its leaf in place and marks the
  inner nodes above it; adding or removing one forces a rebuild. Whatever sequence of operations has been performed, the
  root is that of a tree built from scratch over the current leaves in key order, and every proof verifies against it.
\<close>

section \<open>State and operations\<close>

record state_merkle_proof =
  sp_siblings :: "hash list"
  sp_path :: "bool list"
  sp_leaf_index :: nat
  sp_total_leaves :: nat

record state_tree =
  st_leaves :: "(hash \<times> hash) list"
  st_nodes :: "hash list"
  st_capacity :: nat
  st_structural_change :: bool
  st_dirty :: "nat set"
  st_leaf_indices :: "hash \<rightharpoonup> nat"

definition account_leaf_hash :: "env \<Rightarrow> hash \<Rightarrow> account \<Rightarrow> hash" where
  "account_leaf_hash E address a = sha3_512 E (str_bytes ''state_leaf'' @ hash_bytes address @
     le_enc 8 (unat (acc_lamports a)) @ le_enc 4 (unat (of_nat (length (acc_data a)) :: u32)) @ acc_data a @
     hash_bytes (acc_owner a) @ [if acc_executable a then 1 else 0] @ le_enc 8 (unat (acc_rent_epoch a)))"

definition state_tree_new :: state_tree where
  "state_tree_new = \<lparr>st_leaves = [], st_nodes = [], st_capacity = 0, st_structural_change = False, st_dirty = {}, st_leaf_indices = Map.empty\<rparr>"

fun ancestors_of :: "nat \<Rightarrow> nat set" where
  "ancestors_of 0 = {}"
| "ancestors_of (Suc i) = insert (i div 2) (ancestors_of (i div 2))"

definition mark_ancestors_dirty :: "nat \<Rightarrow> state_tree \<Rightarrow> state_tree" where
  "mark_ancestors_dirty node_idx t = t\<lparr>st_dirty := st_dirty t \<union> ancestors_of node_idx\<rparr>"

type_synonym 'a tree_op = "(state_tree, unit, 'a) rm"

definition update_leaf :: "env \<Rightarrow> hash \<Rightarrow> hash \<Rightarrow> unit tree_op" where
  "update_leaf E address leaf_hash =
    bind_r (gets (\<lambda>t. \<not> st_structural_change t \<and> st_nodes t \<noteq> [])) (\<lambda>in_place.
    if \<not> in_place then return ()
    else bind_r (gets (\<lambda>t. st_leaf_indices t address)) (\<lambda>i.
      case i of
        None \<Rightarrow> panic
      | Some leaf_index \<Rightarrow>
          bind_r (gets (\<lambda>t. st_capacity t - 1 + leaf_index)) (\<lambda>node_idx.
          bind_r (gets (\<lambda>t. length (st_nodes t))) (\<lambda>len.
          if node_idx < len
          then modify (\<lambda>t. mark_ancestors_dirty node_idx (t\<lparr>st_nodes := (st_nodes t)[node_idx := hash_leaf E leaf_hash]\<rparr>))
          else panic))))"

definition update_one :: "env \<Rightarrow> hash \<Rightarrow> account \<Rightarrow> unit tree_op" where
  "update_one E address account =
    (let leaf_hash = account_leaf_hash E address account in
     bind_r (gets (\<lambda>t. map_of (st_leaves t) address \<noteq> None)) (\<lambda>present.
     then_r (modify (\<lambda>t. t\<lparr>st_leaves := bt_insert address leaf_hash (st_leaves t)\<rparr>))
     (if present then update_leaf E address leaf_hash
      else modify (\<lambda>t. t\<lparr>st_structural_change := True\<rparr>))))"

fun tree_update :: "env \<Rightarrow> (hash \<times> account) list \<Rightarrow> unit tree_op" where
  "tree_update E [] = return ()"
| "tree_update E ((address, account) # deltas) = then_r (update_one E address account) (tree_update E deltas)"

definition tree_remove :: "hash \<Rightarrow> unit tree_op" where
  "tree_remove address =
    modify (\<lambda>t. if map_of (st_leaves t) address \<noteq> None
      then t\<lparr>st_leaves := bt_remove address (st_leaves t), st_structural_change := True\<rparr> else t)"

definition full_rebuild :: "env \<Rightarrow> state_tree \<Rightarrow> state_tree" where
  "full_rebuild E t =
    (let leaf_hashes = map snd (st_leaves t); padded_count = next_power_of_two (length leaf_hashes) in
     t\<lparr>st_capacity := padded_count,
       st_nodes := build_up E (padded_count - 1) (leaf_layer E padded_count leaf_hashes),
       st_leaf_indices := map_of (map (\<lambda>(i, k, _). (k, i)) (enumerate 0 (st_leaves t)))\<rparr>)"

definition ensure_rebuilt :: "env \<Rightarrow> state_tree \<Rightarrow> state_tree" where
  "ensure_rebuilt E t =
    (if st_structural_change t \<or> st_nodes t = []
     then (if st_leaves t = [] then t\<lparr>st_nodes := [], st_capacity := 0\<rparr> else full_rebuild E t)\<lparr>st_structural_change := False, st_dirty := {}\<rparr>
     else t)"

fun flush_each :: "env \<Rightarrow> nat list \<Rightarrow> hash list \<Rightarrow> hash list" where
  "flush_each E [] nodes = nodes"
| "flush_each E (i # indices) nodes =
    flush_each E indices (nodes[i := hash_internal E (nodes ! (2 * i + 1)) (nodes ! (2 * i + 2))])"

definition flush_dirty :: "env \<Rightarrow> state_tree \<Rightarrow> state_tree" where
  "flush_dirty E t = t\<lparr>st_nodes := flush_each E (rev (sorted_list_of_set (st_dirty t))) (st_nodes t), st_dirty := {}\<rparr>"

definition tree_root :: "env \<Rightarrow> hash tree_op" where
  "tree_root E =
    bind_r (gets st_leaves) (\<lambda>leaves.
    if leaves = [] then return 0
    else then_r (modify (\<lambda>t. flush_dirty E (ensure_rebuilt E t)))
      (bind_r (gets st_nodes) (\<lambda>nodes. index nodes 0)))"

definition tree_proof :: "env \<Rightarrow> hash \<Rightarrow> state_merkle_proof option tree_op" where
  "tree_proof E address =
    bind_r (gets st_leaves) (\<lambda>leaves.
    if leaves = [] then return None
    else then_r (modify (\<lambda>t. flush_dirty E (ensure_rebuilt E t)))
      (gets (\<lambda>t. case st_leaf_indices t address of
          None \<Rightarrow> None
        | Some leaf_index \<Rightarrow>
            (let p = proof_from (st_nodes t) (st_capacity t - 1 + leaf_index) in
             Some \<lparr>sp_siblings = pf_hashes p, sp_path = pf_path p, sp_leaf_index = leaf_index, sp_total_leaves = length (st_leaves t)\<rparr>))))"

definition verify_proof :: "env \<Rightarrow> hash \<Rightarrow> hash \<Rightarrow> account \<Rightarrow> state_merkle_proof \<Rightarrow> bool" where
  "verify_proof E root address account p \<longleftrightarrow>
    climb E (zip (sp_siblings p) (sp_path p)) (hash_leaf E (account_leaf_hash E address account)) = root"

definition init_from_storage :: "env \<Rightarrow> 'd rocksdb \<Rightarrow> account codec \<Rightarrow> ('d, state_tree) st" where
  "init_from_storage E D A =
    bind_r (get_all_accounts D A) (\<lambda>all_accounts.
    let leaves = fold (\<lambda>(address, account). bt_insert address (account_leaf_hash E address account)) all_accounts [];
        tree = state_tree_new\<lparr>st_leaves := leaves, st_structural_change := True\<rparr>
    in return (if st_leaves tree \<noteq> [] then full_rebuild E tree else tree))"

section \<open>Trees that are in step with their leaves\<close>

text \<open>Inner nodes that are not marked are the hashes of their children, and whatever is above a marked node is marked.\<close>

definition in_step :: "env \<Rightarrow> state_tree \<Rightarrow> bool" where
  "in_step E t \<longleftrightarrow> (let c = next_power_of_two (length (st_leaves t)) in
    st_leaves t \<noteq> [] \<and> st_capacity t = c \<and> length (st_nodes t) = 2 * c - 1 \<and>
    (\<forall>j < c. st_nodes t ! (c - 1 + j) = padded_leaf E (map snd (st_leaves t)) j) \<and>
    st_dirty t \<subseteq> {..<c - 1} \<and> (\<forall>i \<in> st_dirty t. ancestors_of i \<subseteq> st_dirty t) \<and>
    (\<forall>i < c - 1. i \<notin> st_dirty t \<longrightarrow> st_nodes t ! i = hash_internal E (st_nodes t ! (2 * i + 1)) (st_nodes t ! (2 * i + 2))) \<and>
    (\<forall>k j. st_leaf_indices t k = Some j \<longleftrightarrow> j < length (st_leaves t) \<and> fst (st_leaves t ! j) = k))"

definition tree_inv :: "env \<Rightarrow> state_tree \<Rightarrow> bool" where
  "tree_inv E t \<longleftrightarrow> bt_ok (st_leaves t) \<and> (st_structural_change t \<or> st_nodes t = [] \<or> in_step E t)"

lemma enumerate_index:
  assumes "distinct (map fst xs)"
  shows "map_of (map (\<lambda>(i, k, _). (k, i)) (enumerate 0 xs)) k = Some j \<longleftrightarrow> j < length xs \<and> fst (xs ! j) = k"
proof -
  have "distinct (map fst (map (\<lambda>(i, k, _). (k, i)) (enumerate 0 xs)))"
  proof -
    have "map fst (map (\<lambda>(i, k, _). (k, i)) (enumerate 0 xs)) = map fst xs"
      by (simp add: enumerate_eq_zip) (induction xs rule: rev_induct; simp add: split_beta)
    with assms show ?thesis by simp
  qed
  then have "map_of (map (\<lambda>(i, k, _). (k, i)) (enumerate 0 xs)) k = Some j \<longleftrightarrow> (k, j) \<in> set (map (\<lambda>(i, k, _). (k, i)) (enumerate 0 xs))"
    by simp
  also have "\<dots> \<longleftrightarrow> j < length xs \<and> fst (xs ! j) = k"
  proof
    assume "(k, j) \<in> set (map (\<lambda>(i, k, _). (k, i)) (enumerate 0 xs))"
    then show "j < length xs \<and> fst (xs ! j) = k" by (auto simp: in_set_enumerate_eq)
  next
    assume j: "j < length xs \<and> fst (xs ! j) = k"
    then have "(j, xs ! j) \<in> set (enumerate 0 xs)" by (simp add: in_set_enumerate_eq)
    moreover have "(k, j) = (\<lambda>(i, k, _). (k, i)) (j, xs ! j)" using j by (cases "xs ! j") simp
    ultimately show "(k, j) \<in> set (map (\<lambda>(i, k, _). (k, i)) (enumerate 0 xs))" unfolding set_map by (rule rev_image_eqI)
  qed
  finally show ?thesis .
qed

lemma full_rebuild_in_step:
  assumes "bt_ok (st_leaves t)" and "st_leaves t \<noteq> []"
  shows "in_step E ((full_rebuild E t)\<lparr>st_structural_change := False, st_dirty := {}\<rparr>)"
proof -
  define c where "c = next_power_of_two (length (st_leaves t))"
  have "length (map snd (st_leaves t)) \<le> c" by (simp add: c_def next_power_of_two_depth)
  from built_valid [OF this, of E] assms(2) show ?thesis
    unfolding in_step_def Let_def by (simp add: full_rebuild_def Let_def enumerate_index [OF bt_ok_distinct [OF assms(1)]] valid_nodes_def flip: c_def)
qed

lemma ancestors_bound: "a \<in> ancestors_of n \<Longrightarrow> 2 * a + 1 \<le> n"
  by (induction n rule: ancestors_of.induct) auto

lemma ancestors_trans: "a \<in> ancestors_of n \<Longrightarrow> ancestors_of a \<subseteq> ancestors_of n"
  by (induction n rule: ancestors_of.induct) auto

lemma ancestors_parent: "i \<in> ancestors_of (2 * i + 1)" "i \<in> ancestors_of (2 * i + 2)"
  using ancestors_of.simps(2) [of "2 * i"] ancestors_of.simps(2) [of "2 * i + 1"] by simp_all

text \<open>Recomputing marked nodes from the last to the first repairs the array.\<close>

lemma flush_each_spec:
  assumes "sorted_wrt (>) ds" and "\<forall>i \<in> set ds. i < c - 1" and "length nodes = 2 * c - 1"
    and "\<forall>i < c - 1. i \<notin> set ds \<longrightarrow> 2 * i + 1 \<notin> set ds \<and> 2 * i + 2 \<notin> set ds"
    and "\<forall>i < c - 1. i \<notin> set ds \<longrightarrow> nodes ! i = hash_internal E (nodes ! (2 * i + 1)) (nodes ! (2 * i + 2))"
  shows "length (flush_each E ds nodes) = 2 * c - 1 \<and> (\<forall>i \<ge> c - 1. flush_each E ds nodes ! i = nodes ! i) \<and>
    (\<forall>i < c - 1. flush_each E ds nodes ! i = hash_internal E (flush_each E ds nodes ! (2 * i + 1)) (flush_each E ds nodes ! (2 * i + 2)))"
  using assms
proof (induction ds arbitrary: nodes)
  case (Cons d ds)
  let ?n = "nodes[d := hash_internal E (nodes ! (2 * d + 1)) (nodes ! (2 * d + 2))]"
  have d: "d < c - 1" and less: "\<forall>i \<in> set ds. i < d" using Cons.prems(1,2) by auto
  have cl: "\<forall>i < c - 1. i \<notin> set ds \<longrightarrow> 2 * i + 1 \<notin> set ds \<and> 2 * i + 2 \<notin> set ds"
  proof (intro allI impI)
    fix i
    assume i: "i < c - 1" "i \<notin> set ds"
    show "2 * i + 1 \<notin> set ds \<and> 2 * i + 2 \<notin> set ds"
    proof (cases "i = d")
      case True
      then show ?thesis using less by fastforce
    qed (use Cons.prems(4) i in auto)
  qed
  have eq: "\<forall>i < c - 1. i \<notin> set ds \<longrightarrow> ?n ! i = hash_internal E (?n ! (2 * i + 1)) (?n ! (2 * i + 2))"
  proof (intro allI impI)
    fix i
    assume i: "i < c - 1" "i \<notin> set ds"
    show "?n ! i = hash_internal E (?n ! (2 * i + 1)) (?n ! (2 * i + 2))"
    proof (cases "i = d")
      case True
      then show ?thesis using d Cons.prems(3) by simp
    next
      case False
      then have "2 * i + 1 \<noteq> d" "2 * i + 2 \<noteq> d" using Cons.prems(4) i by auto
      with False i Cons.prems(5) show ?thesis by simp
    qed
  qed
  from Cons.IH [of ?n, OF _ _ _ cl eq] Cons.prems d show ?case by simp
qed simp

lemma flush_valid:
  assumes "in_step E t"
  shows "in_step E (flush_dirty E t)"
    and "valid_nodes E (padded_leaf E (map snd (st_leaves t))) (st_capacity t) (st_nodes (flush_dirty E t))"
proof -
  define c where "c = next_power_of_two (length (st_leaves t))"
  define ds where "ds = rev (sorted_list_of_set (st_dirty t))"
  note s = assms [unfolded in_step_def Let_def, folded c_def]
  have fin: "finite (st_dirty t)" using s finite_subset by blast
  then have ds: "set ds = st_dirty t" "sorted_wrt (>) ds"
    using strict_sorted_list_of_set by (auto simp: ds_def sorted_wrt_rev)
  have cl: "\<forall>i < c - 1. i \<notin> set ds \<longrightarrow> 2 * i + 1 \<notin> set ds \<and> 2 * i + 2 \<notin> set ds"
    using s ancestors_parent unfolding ds(1) by blast
  have spec: "length (flush_each E ds (st_nodes t)) = 2 * c - 1 \<and> (\<forall>i \<ge> c - 1. flush_each E ds (st_nodes t) ! i = st_nodes t ! i) \<and>
    (\<forall>i < c - 1. flush_each E ds (st_nodes t) ! i = hash_internal E (flush_each E ds (st_nodes t) ! (2 * i + 1)) (flush_each E ds (st_nodes t) ! (2 * i + 2)))"
    by (rule flush_each_spec [OF ds(2)]) (use s cl ds(1) in auto)
  have n: "st_nodes (flush_dirty E t) = flush_each E ds (st_nodes t)" by (simp add: flush_dirty_def ds_def)
  have v: "valid_nodes E (padded_leaf E (map snd (st_leaves t))) c (st_nodes (flush_dirty E t))"
    unfolding valid_nodes_def n using spec s by (metis le_add1)
  then show "valid_nodes E (padded_leaf E (map snd (st_leaves t))) (st_capacity t) (st_nodes (flush_dirty E t))" using s by simp
  have f: "st_leaves (flush_dirty E t) = st_leaves t" "st_capacity (flush_dirty E t) = st_capacity t" "st_dirty (flush_dirty E t) = {}"
    "st_leaf_indices (flush_dirty E t) = st_leaf_indices t" by (simp_all add: flush_dirty_def)
  show "in_step E (flush_dirty E t)"
    unfolding in_step_def Let_def f c_def [symmetric] using v s by (simp add: valid_nodes_def)
qed

section \<open>The operations keep the tree in step\<close>

lemma bt_insert_at: "bt_ok m \<Longrightarrow> j < length m \<Longrightarrow> fst (m ! j) = k \<Longrightarrow> bt_insert k v m = m[j := (k, v)]"
proof (induction k v m arbitrary: j rule: bt_insert.induct)
  case (2 k v l w m)
  show ?case
  proof (cases j)
    case 0
    with 2 show ?thesis by simp
  next
    case (Suc i)
    then have i: "i < length m" "fst (m ! i) = k" using 2 by simp_all
    then have "l < k" using 2(2) by (auto simp: bt_ok_Cons)
    then show ?thesis using 2 Suc i by (auto simp: bt_ok_Cons)
  qed
qed simp

lemma update_leaf_in_step:
  assumes step: "in_step E t" and ok: "bt_ok (st_leaves t)" and j: "j < length (st_leaves t)" "fst (st_leaves t ! j) = a"
    and u: "u = mark_ancestors_dirty (st_capacity t - 1 + j) (t\<lparr>st_leaves := bt_insert a h (st_leaves t),
      st_nodes := (st_nodes t)[st_capacity t - 1 + j := hash_leaf E h]\<rparr>)"
  shows "in_step E u"
proof -
  define c where "c = next_power_of_two (length (st_leaves t))"
  note s = step [unfolded in_step_def Let_def, folded c_def]
  have jc: "j < c" using j(1) next_power_of_two_depth [of "length (st_leaves t)"] by (simp add: c_def)
  let ?n = "c - 1 + j"
  have l: "st_leaves u = (st_leaves t)[j := (a, h)]" by (simp add: u mark_ancestors_dirty_def bt_insert_at [OF ok j])
  have f: "st_capacity u = c" "st_nodes u = (st_nodes t)[?n := hash_leaf E h]" "st_dirty u = st_dirty t \<union> ancestors_of ?n"
    "st_leaf_indices u = st_leaf_indices t" using s by (simp_all add: u mark_ancestors_dirty_def)
  have anc: "i < c - 1" if "i \<in> ancestors_of ?n" for i using ancestors_bound [OF that] jc by simp
  have leaf: "st_nodes u ! (c - 1 + i) = padded_leaf E (map snd (st_leaves u)) i" if "i < c" for i
    using s that j(1) jc by (cases "i = j") (auto simp: f(2) l padded_leaf_def nth_list_update map_update)
  have inner: "st_nodes u ! i = hash_internal E (st_nodes u ! (2 * i + 1)) (st_nodes u ! (2 * i + 2))" if "i < c - 1" "i \<notin> st_dirty u" for i
  proof -
    have "i \<noteq> ?n" using that(1) by simp
    moreover have "2 * i + 1 \<noteq> ?n" "2 * i + 2 \<noteq> ?n" using that(2) ancestors_parent [of i] unfolding f(3) by (metis UnI2)+
    moreover have "st_nodes t ! i = hash_internal E (st_nodes t ! (2 * i + 1)) (st_nodes t ! (2 * i + 2))" using s that unfolding f(3) by blast
    ultimately show ?thesis unfolding f(2) nth_list_update_neq [OF not_sym] by (metis nth_list_update_neq)
  qed
  have idx: "fst (st_leaves u ! i) = fst (st_leaves t ! i)" if "i < length (st_leaves t)" for i
    using j that by (cases "i = j") (simp_all add: l)
  have len: "length (st_leaves u) = length (st_leaves t)" by (simp add: l)
  show ?thesis
    unfolding in_step_def Let_def len c_def [symmetric]
  proof (intro conjI)
    show "st_leaves u \<noteq> []" "length (st_nodes u) = 2 * c - 1" using s by (simp_all add: l f(2))
    show "st_capacity u = c" by (rule f(1))
    show "\<forall>j < c. st_nodes u ! (c - 1 + j) = padded_leaf E (map snd (st_leaves u)) j" using leaf by blast
    show "st_dirty u \<subseteq> {..<c - 1}" unfolding f(3) using s anc by blast
    show "\<forall>i \<in> st_dirty u. ancestors_of i \<subseteq> st_dirty u" unfolding f(3) using s ancestors_trans by blast
    show "\<forall>i < c - 1. i \<notin> st_dirty u \<longrightarrow> st_nodes u ! i = hash_internal E (st_nodes u ! (2 * i + 1)) (st_nodes u ! (2 * i + 2))"
      using inner by blast
    show "\<forall>k j. st_leaf_indices u k = Some j \<longleftrightarrow> j < length (st_leaves t) \<and> fst (st_leaves u ! j) = k"
      using s idx unfolding f(4) by metis
  qed
qed

lemma update_one_run:
  assumes inv: "tree_inv E t"
  shows "\<exists>u. update_one E a x t = (Ok (), u) \<and> tree_inv E u \<and> st_leaves u = bt_insert a (account_leaf_hash E a x) (st_leaves t)"
proof -
  let ?h = "account_leaf_hash E a x"
  have ok: "bt_ok (st_leaves t)" using inv by (simp add: tree_inv_def)
  show ?thesis
  proof (cases "map_of (st_leaves t) a")
    case None
    then show ?thesis using ok by (simp add: update_one_def Let_def run_simps tree_inv_def)
  next
    case (Some w)
    show ?thesis
    proof (cases "st_structural_change t \<or> st_nodes t = []")
      case True
      with Some ok show ?thesis by (auto simp: update_one_def update_leaf_def Let_def run_simps tree_inv_def)
    next
      case False
      then have step: "in_step E t" using inv by (simp add: tree_inv_def)
      note s = step [unfolded in_step_def Let_def]
      obtain j where j: "j < length (st_leaves t)" "fst (st_leaves t ! j) = a"
        using map_of_SomeD [OF Some] by (auto simp: in_set_conv_nth)
      have ix: "st_leaf_indices t a = Some j" using s j by blast
      have le: "length (st_leaves t) \<le> st_capacity t" using s next_power_of_two_depth by metis
      then have n: "st_capacity t - 1 + j < length (st_nodes t)" using s j(1) by simp
      let ?u = "mark_ancestors_dirty (st_capacity t - 1 + j) (t\<lparr>st_leaves := bt_insert a ?h (st_leaves t),
        st_nodes := (st_nodes t)[st_capacity t - 1 + j := hash_leaf E ?h]\<rparr>)"
      have run: "update_one E a x t = (Ok (), ?u)"
        using False Some ix n by (simp add: update_one_def update_leaf_def Let_def run_simps mark_ancestors_dirty_def)
      have "tree_inv E ?u" using update_leaf_in_step [OF step ok j refl, of ?h] ok by (simp add: tree_inv_def mark_ancestors_dirty_def)
      with run show ?thesis by (simp add: mark_ancestors_dirty_def)
    qed
  qed
qed

lemma synced:
  assumes "tree_inv E t" and "st_leaves t \<noteq> []"
  defines "u \<equiv> flush_dirty E (ensure_rebuilt E t)"
  shows "in_step E u" and "valid_nodes E (padded_leaf E (map snd (st_leaves t))) (st_capacity u) (st_nodes u)"
    and "st_leaves u = st_leaves t" and "tree_inv E u"
proof -
  have e: "in_step E (ensure_rebuilt E t)" "st_leaves (ensure_rebuilt E t) = st_leaves t"
    using assms(1,2) full_rebuild_in_step [of t E] by (auto simp: tree_inv_def ensure_rebuilt_def full_rebuild_def Let_def)
  show l: "st_leaves u = st_leaves t" by (simp add: u_def flush_dirty_def e)
  show i: "in_step E u" unfolding u_def by (rule flush_valid(1) [OF e(1)])
  show "valid_nodes E (padded_leaf E (map snd (st_leaves t))) (st_capacity u) (st_nodes u)"
    using flush_valid(2) [OF e(1)] by (simp add: u_def e(2)) (simp add: flush_dirty_def)
  show "tree_inv E u" using i assms(1) by (simp add: tree_inv_def l)
qed

lemma tree_root_run:
  assumes inv: "tree_inv E t"
  shows "\<exists>u. tree_root E t = (Ok (root_of_leaves E (map snd (st_leaves t))), u) \<and> tree_inv E u \<and> st_leaves u = st_leaves t"
proof (cases "st_leaves t = []")
  case True
  with inv show ?thesis by (simp add: tree_root_def run_simps root_of_leaves_def)
next
  case False
  let ?u = "flush_dirty E (ensure_rebuilt E t)"
  note s = synced [OF inv False]
  have c: "st_capacity ?u = 2 ^ tree_depth (length (st_leaves t))"
    using s(1,3) next_power_of_two_depth(1) by (simp add: in_step_def Let_def)
  have "st_nodes ?u ! 0 = root_of_leaves E (map snd (st_leaves t))"
    using valid_root [OF s(2) [unfolded c]] False by (simp add: root_of_leaves_def)
  moreover have "0 < length (st_nodes ?u)"
  proof -
    have "1 \<le> st_capacity ?u" unfolding c by simp
    moreover have "length (st_nodes ?u) = 2 * st_capacity ?u - 1" using s(2) by (simp only: valid_nodes_def)
    ultimately show ?thesis by linarith
  qed
  ultimately show ?thesis using False s(3,4) by (simp add: tree_root_def run_simps)
qed

lemma tree_proof_run:
  assumes inv: "tree_inv E t"
  shows "\<exists>p u. tree_proof E a t = (Ok p, u) \<and> tree_inv E u \<and> st_leaves u = st_leaves t \<and>
    (case p of None \<Rightarrow> map_of (st_leaves t) a = None
     | Some q \<Rightarrow> (\<exists>h. map_of (st_leaves t) a = Some h \<and>
         climb E (zip (sp_siblings q) (sp_path q)) (hash_leaf E h) = root_of_leaves E (map snd (st_leaves t))))"
proof (cases "st_leaves t = []")
  case True
  with inv show ?thesis by (simp add: tree_proof_def run_simps)
next
  case False
  let ?u = "flush_dirty E (ensure_rebuilt E t)"
  note s = synced [OF inv False]
  note st = s(1) [unfolded in_step_def Let_def s(3)]
  have c: "st_capacity ?u = 2 ^ tree_depth (length (st_leaves t))" using st next_power_of_two_depth(1) by simp
  have root: "st_nodes ?u ! 0 = root_of_leaves E (map snd (st_leaves t))"
    using valid_root [OF s(2) [unfolded c]] False by (simp add: root_of_leaves_def)
  have ok: "bt_ok (st_leaves t)" using inv by (simp add: tree_inv_def)
  show ?thesis
  proof (cases "st_leaf_indices ?u a")
    case None
    have "map_of (st_leaves t) a = None"
    proof (rule ccontr)
      assume "map_of (st_leaves t) a \<noteq> None"
      then obtain h where "(a, h) \<in> set (st_leaves t)" by (auto dest: map_of_SomeD)
      then obtain j where "j < length (st_leaves t)" "fst (st_leaves t ! j) = a" by (auto simp: in_set_conv_nth)
      with st have "st_leaf_indices ?u a = Some j" by blast
      with None show False by simp
    qed
    with None False s(3,4) show ?thesis by (simp add: tree_proof_def run_simps)
  next
    case (Some j)
    with st have j: "j < length (st_leaves t)" "fst (st_leaves t ! j) = a" by auto
    then have h: "map_of (st_leaves t) a = Some (snd (st_leaves t ! j))"
      using bt_ok_distinct [OF ok] by (metis map_of_is_SomeI nth_mem prod.collapse)
    have "j < st_capacity ?u" using j(1) c next_power_of_two_depth(2) [of "length (st_leaves t)"] by simp
    from proof_verifies [OF s(2) this, of "snd (st_leaves t ! j)"] j(1)
    have "climb E (proof_walk (st_nodes ?u) (st_capacity ?u - 1 + j)) (hash_leaf E (snd (st_leaves t ! j))) = root_of_leaves E (map snd (st_leaves t))"
      by (simp add: padded_leaf_def verify_merkle_def proof_from_steps root)
    with Some False h s(3,4) show ?thesis by (simp add: tree_proof_def run_simps Let_def proof_from_steps)
  qed
qed

section \<open>Any sequence of calls\<close>

datatype tree_call = CallUpdate "(hash \<times> account) list" | CallRemove hash | CallRoot | CallProof hash

fun tree_calls :: "env \<Rightarrow> tree_call list \<Rightarrow> unit tree_op" where
  "tree_calls E [] = return ()"
| "tree_calls E (CallUpdate deltas # cs) = then_r (tree_update E deltas) (tree_calls E cs)"
| "tree_calls E (CallRemove a # cs) = then_r (tree_remove a) (tree_calls E cs)"
| "tree_calls E (CallRoot # cs) = then_r (tree_root E) (tree_calls E cs)"
| "tree_calls E (CallProof a # cs) = then_r (tree_proof E a) (tree_calls E cs)"

text \<open>The accounts that the calls leave behind.\<close>

fun call_effect :: "tree_call \<Rightarrow> (hash \<rightharpoonup> account) \<Rightarrow> (hash \<rightharpoonup> account)" where
  "call_effect (CallUpdate deltas) m = fold (\<lambda>(a, x) m. m(a \<mapsto> x)) deltas m"
| "call_effect (CallRemove a) m = m(a := None)"
| "call_effect CallRoot m = m"
| "call_effect (CallProof a) m = m"

definition leaves_of :: "env \<Rightarrow> (hash \<rightharpoonup> account) \<Rightarrow> state_tree \<Rightarrow> bool" where
  "leaves_of E m t \<longleftrightarrow> map_of (st_leaves t) = (\<lambda>a. map_option (account_leaf_hash E a) (m a))"

lemma tree_update_run:
  assumes "tree_inv E t" and "leaves_of E m t"
  shows "\<exists>u. tree_update E deltas t = (Ok (), u) \<and> tree_inv E u \<and> leaves_of E (fold (\<lambda>(a, x) m. m(a \<mapsto> x)) deltas m) u"
  using assms
proof (induction E deltas arbitrary: t m rule: tree_update.induct)
  case (2 E a x ds)
  obtain u where u: "update_one E a x t = (Ok (), u)" "tree_inv E u" "st_leaves u = bt_insert a (account_leaf_hash E a x) (st_leaves t)"
    using update_one_run [OF 2(2)] by blast
  have "leaves_of E (m(a \<mapsto> x)) u"
    using 2(2,3) by (auto simp: leaves_of_def u(3) tree_inv_def bt_insert_lookup)
  from 2(1) [OF u(2) this] show ?case by (simp add: run_simps u(1))
qed (simp add: run_simps)

lemma tree_calls_run:
  assumes "tree_inv E t" and "leaves_of E m t"
  shows "\<exists>u. tree_calls E cs t = (Ok (), u) \<and> tree_inv E u \<and> leaves_of E (fold call_effect cs m) u"
  using assms
proof (induction E cs arbitrary: t m rule: tree_calls.induct)
  case (2 E deltas cs)
  from tree_update_run [OF 2(2,3), of deltas] 2(1) show ?case by (auto simp: run_simps)
next
  case (3 E a cs)
  let ?u = "snd (tree_remove a t)"
  have r: "tree_remove a t = (Ok (), ?u)" by (simp add: tree_remove_def run_simps)
  have "tree_inv E ?u" "leaves_of E (m(a := None)) ?u"
    using 3(2,3) by (auto simp: tree_remove_def run_simps tree_inv_def leaves_of_def bt_remove_lookup fun_eq_iff)
  moreover have "tree_calls E (CallRemove a # cs) t = tree_calls E cs ?u" by (simp add: run_bind_Ok [where m = "tree_remove a", OF r])
  ultimately show ?case using 3(1) by simp
next
  case (4 E cs)
  obtain h u where u: "tree_root E t = (Ok h, u)" "tree_inv E u" "st_leaves u = st_leaves t" using tree_root_run [OF 4(2)] by blast
  then have "leaves_of E m u" using 4(3) by (simp add: leaves_of_def)
  from 4(1) [OF u(2) this] show ?case by (simp add: run_simps u(1))
next
  case (5 E a cs)
  obtain p u where u: "tree_proof E a t = (Ok p, u)" "tree_inv E u" "st_leaves u = st_leaves t" using tree_proof_run [OF 5(2)] by blast
  then have "leaves_of E m u" using 5(3) by (simp add: leaves_of_def)
  from 5(1) [OF u(2) this] show ?case by (simp add: run_simps u(1))
qed (simp add: run_simps)

text \<open>C7: Whatever sequence of updates, removals, root and proof requests a state tree has served, it has not panicked, its leaves are those of
  the accounts that remain, in key order, its root is that of a tree built from scratch over them, and it has a proof, which
  verifies, for exactly the accounts that remain.\<close>

theorem state_tree_correct:
  "\<exists>t. tree_calls E calls state_tree_new = (Ok (), t) \<and>
    (let accounts = fold call_effect calls Map.empty; root = merkle_root (merkle_new E (map snd (st_leaves t))) in
     bt_ok (st_leaves t) \<and> map_of (st_leaves t) = (\<lambda>a. map_option (account_leaf_hash E a) (accounts a)) \<and>
     fst (tree_root E t) = Ok root \<and>
     (case accounts a of
        None \<Rightarrow> fst (tree_proof E a t) = Ok None
      | Some x \<Rightarrow> (\<exists>p. fst (tree_proof E a t) = Ok (Some p) \<and> verify_proof E root a x p)))"
proof -
  have "tree_inv E state_tree_new" "leaves_of E Map.empty state_tree_new"
    by (simp_all add: tree_inv_def leaves_of_def state_tree_new_def)
  from tree_calls_run [OF this, of calls] obtain t where t: "tree_calls E calls state_tree_new = (Ok (), t)" "tree_inv E t"
    "leaves_of E (fold call_effect calls Map.empty) t" by blast
  let ?m = "fold call_effect calls Map.empty"
  note m = t(3) [unfolded leaves_of_def]
  obtain u where r: "tree_root E t = (Ok (root_of_leaves E (map snd (st_leaves t))), u)" using tree_root_run [OF t(2)] by blast
  obtain p v where p: "tree_proof E a t = (Ok p, v)"
    "case p of None \<Rightarrow> map_of (st_leaves t) a = None
     | Some q \<Rightarrow> (\<exists>h. map_of (st_leaves t) a = Some h \<and>
         climb E (zip (sp_siblings q) (sp_path q)) (hash_leaf E h) = root_of_leaves E (map snd (st_leaves t)))"
    using tree_proof_run [OF t(2), of a] by blast
  have "case ?m a of
        None \<Rightarrow> fst (tree_proof E a t) = Ok None
      | Some x \<Rightarrow> (\<exists>p. fst (tree_proof E a t) = Ok (Some p) \<and> verify_proof E (root_of_leaves E (map snd (st_leaves t))) a x p)"
    using p m by (cases p; cases "?m a") (auto simp: verify_proof_def)
  with t r m show ?thesis unfolding Let_def merkle_new_root by (auto simp: tree_inv_def)
qed

text \<open>The streamed leaf hash is the hash of the serialised account, as its comment says.\<close>

lemma enc_all_bytes: "enc_all u8_codec bs = Inr bs"
proof (induction bs)
  case (Cons b bs)
  have "word_of_nat (unat b mod 256) = b" using unat_bounds(1) [of b] by simp
  with Cons show ?case by (simp add: u8_codec_def le_codec_def)
qed simp

lemma account_leaf_hash_borsh:
  assumes "to_vec account_codec x = Inr v"
  shows "account_leaf_hash E a x = sha3_512 E (str_bytes ''state_leaf'' @ hash_bytes a @ v)"
  using assms by (cases x) (auto simp: account_leaf_hash_def account_codec_def iso_codec_def prod_codec_def vec_codec_def u64_codec_def
      enc_all_bytes le_codec_def hash_codec_def bool_codec_def be_bytes_def unat_of_nat_small split: sum.splits if_splits)

end
