(* ===== verification/Tower.thy ===== *)
theory Tower
  imports Vote Database Ordered_Map "HOL-Library.Sublist"
begin

text \<open>
  The local tower of a validator: \<open>consensus/src/tower.rs\<close>, with the errors of \<open>consensus/src/error.rs\<close>. A vote locks the validator
  to its slot for a time that doubles with every later vote. The lockouts form a stack: the ones that expire at a
  vote are always the newest, votes only go forward, and roots are slots that were voted for, in order.
\<close>

section \<open>Definitions\<close>

datatype consensus_error =
    CE_Storage storage_error
  | PohVerificationFailed nat
  | PohChainBroken string string
  | LockoutViolation u64 u64
  | VoteTooOld u64 u64
  | InsufficientStakeForThreshold u64 u64
  | SlotAlreadyProcessed u64
  | ParentNotFound u64 u64
  | MaxDepthExceeded u64 u64
  | NoValidatorsWithStake u64
  | WrongLeader u64 string string
  | VoteAccountNotFound string
  | CE_EpochMismatch u64 u64
  | ReplayFailed u64
  | SlotNotTracked u64
  | NoEpochCredits
  | ZeroTotalStake
  | CE_Gpu string
  | GpuNotAvailable
  | InvalidRoot u64
  | StakeOverflow u64
  | InvalidDelegation string
  | EmptyVoteSlots

definition VOTE_THRESHOLD_DEPTH :: u64 where
  "VOTE_THRESHOLD_DEPTH = 8"

definition VOTE_THRESHOLD_PERCENTAGE :: u64 where
  "VOTE_THRESHOLD_PERCENTAGE = 66"

definition SWITCH_THRESHOLD_PERCENTAGE :: u64 where
  "SWITCH_THRESHOLD_PERCENTAGE = 38"

definition TOWER_MAX_LOCKOUT_HISTORY :: u64 where
  "TOWER_MAX_LOCKOUT_HISTORY = 31"

record tower_vote_result =
  new_root_slots :: "u64 list"
  expired_lockouts :: "vlockout list"

text \<open>The tower is the validator's own vote state.\<close>

type_synonym 'a tower = "(vote_state, consensus_error, 'a) rm"

fun lockout_violation :: "vlockout list \<Rightarrow> u64 \<Rightarrow> consensus_error option" where
  "lockout_violation [] slot = None"
| "lockout_violation (l # ls) slot =
    (if is_locked_out_at_slot l slot \<and> slot \<le> lo_slot l then Some (LockoutViolation slot (lo_slot l)) else lockout_violation ls slot)"

definition check_vote_lockout :: "u64 \<Rightarrow> unit tower" where
  "check_vote_lockout slot =
    bind_r (gets votes) (\<lambda>vs. case lockout_violation vs slot of Some e \<Rightarrow> fail e | None \<Rightarrow> return ())"

definition bump :: "vlockout \<Rightarrow> vlockout" where
  "bump l = l\<lparr>confirmation_count := confirmation_count l + 1\<rparr>"

definition tower_process_vote :: "vote \<Rightarrow> tower_vote_result tower" where
  "tower_process_vote vote =
    bind_r (ok_or (if vote_slots vote = [] then None else Some (last (vote_slots vote))) EmptyVoteSlots) (\<lambda>vote_slot.
    bind_r (gets root_slot) (\<lambda>root.
    then_r (case root of Some r \<Rightarrow> require (\<not> vote_slot \<le> r) (VoteTooOld vote_slot r) | None \<Rightarrow> return ())
    (then_r (check_vote_lockout vote_slot)
    (bind_r (gets votes) (\<lambda>vs.
     let expired = filter (\<lambda>l. \<not> is_locked_out_at_slot l vote_slot) vs;
         kept = filter (\<lambda>l. is_locked_out_at_slot l vote_slot) vs;
         bumped = map bump kept @ [\<lparr>lo_slot = vote_slot, confirmation_count = 1\<rparr>];
         root_count = length (takeWhile (\<lambda>l. ucast TOWER_MAX_LOCKOUT_HISTORY \<le> confirmation_count l) bumped);
         rooted = map lo_slot (take root_count bumped)
     in then_r (modify (\<lambda>st. st\<lparr>votes := drop root_count bumped,
                                root_slot := (if rooted \<noteq> [] then Some (last rooted) else root_slot st)\<rparr>))
        (return \<lparr>new_root_slots = rooted, expired_lockouts = expired\<rparr>))))))"

definition check_switch_threshold :: "(hash \<times> u64) list \<Rightarrow> u64 \<Rightarrow> bool" where
  "check_switch_threshold alternative_fork_stakes total_stake =
    (if total_stake = 0 then False
     else let alternative_stake = sum_list (map snd alternative_fork_stakes);
              pct = ucast (ucast alternative_stake * 100 div ucast total_stake :: u128) :: u64
          in SWITCH_THRESHOLD_PERCENTAGE \<le> pct)"

definition tower_depth :: "vote_state \<Rightarrow> nat" where
  "tower_depth st = length (votes st)"

section \<open>The stack of lockouts\<close>

text \<open>The last slot at which a lockout still holds, without a bound on slots.\<close>

definition expiry :: "vlockout \<Rightarrow> nat" where
  "expiry l = unat (lo_slot l) + 2 ^ unat (confirmation_count l)"

definition tower_ok :: "vote_state \<Rightarrow> bool" where
  "tower_ok st \<longleftrightarrow> sorted_wrt (\<lambda>l m. lo_slot l < lo_slot m \<and> confirmation_count m < confirmation_count l \<and> expiry m \<le> expiry l) (votes st) \<and>
    (\<forall>l \<in> set (votes st). 1 \<le> confirmation_count l \<and> confirmation_count l \<le> 30 \<and> (\<forall>r. root_slot st = Some r \<longrightarrow> r < lo_slot l))"

lemma locked_iff:
  assumes "confirmation_count l \<le> 30"
  shows "is_locked_out_at_slot l s \<longleftrightarrow> unat s \<le> expiry l"
proof -
  have c: "unat (confirmation_count l) \<le> 30" using assms by (simp add: word_le_nat_alt)
  then have "(2 :: nat) ^ unat (confirmation_count l) \<le> 2 ^ 30" by (rule power_increasing) simp
  then have "(2 :: nat) ^ unat (confirmation_count l) < 2 ^ 64" by simp
  then have "unat (lockout_of l) = 2 ^ unat (confirmation_count l)"
    using c unat_of_nat_small [of "2 ^ unat (confirmation_count l)", where 'a = 64] by (simp add: lockout_of_def min_def)
  then show ?thesis
    using unat_bounds(3) [of s] by (simp add: is_locked_out_at_slot_def word_le_nat_alt unat_saturating_add expiry_def)
qed

lemma violation_iff: "lockout_violation vs s = None \<longleftrightarrow> (\<forall>l \<in> set vs. lo_slot l < s)"
proof (induction vs)
  case (Cons l vs)
  have "is_locked_out_at_slot l s" if "s \<le> lo_slot l"
    using that unat_bounds(3) [of "lo_slot l"] by (simp add: is_locked_out_at_slot_def word_le_nat_alt unat_saturating_add)
  with Cons show ?case by (cases "s \<le> lo_slot l") (auto simp: not_le)
qed simp

lemma expiry_bump: "confirmation_count l \<le> 30 \<Longrightarrow> expiry (bump l) = expiry l + 2 ^ unat (confirmation_count l) \<and> unat (confirmation_count (bump l)) = Suc (unat (confirmation_count l))"
proof -
  assume "confirmation_count l \<le> 30"
  then have "confirmation_count l \<noteq> - 1" by (auto simp: word_le_nat_alt unat_minus_1)
  from unat_inc [OF this] show ?thesis by (simp add: bump_def expiry_def)
qed

text \<open>The lockouts that still hold are the older ones.\<close>

lemma kept_prefix:
  assumes "tower_ok st"
  shows "filter (\<lambda>l. is_locked_out_at_slot l s) (votes st) = takeWhile (\<lambda>l. is_locked_out_at_slot l s) (votes st)"
    and "filter (\<lambda>l. \<not> is_locked_out_at_slot l s) (votes st) = dropWhile (\<lambda>l. is_locked_out_at_slot l s) (votes st)"
proof -
  have "filter (\<lambda>l. is_locked_out_at_slot l s) vs = takeWhile (\<lambda>l. is_locked_out_at_slot l s) vs \<and>
      filter (\<lambda>l. \<not> is_locked_out_at_slot l s) vs = dropWhile (\<lambda>l. is_locked_out_at_slot l s) vs"
    if "sorted_wrt (\<lambda>l m. expiry m \<le> expiry l) vs" "\<forall>l \<in> set vs. confirmation_count l \<le> 30" for vs
    using that
  proof (induction vs)
    case (Cons l vs)
    show ?case
    proof (cases "is_locked_out_at_slot l s")
      case False
      have "\<not> is_locked_out_at_slot m s" if "m \<in> set vs" for m
        using Cons.prems that False by (auto simp: locked_iff)
      then show ?thesis using False by (auto simp: filter_empty_conv filter_id_conv)
    qed (use Cons in auto)
  qed simp
  moreover have "sorted_wrt (\<lambda>l m. expiry m \<le> expiry l) (votes st)" "\<forall>l \<in> set (votes st). confirmation_count l \<le> 30"
    using assms unfolding tower_ok_def by (auto intro: sorted_wrt_mono_rel [rotated])
  ultimately show "filter (\<lambda>l. is_locked_out_at_slot l s) (votes st) = takeWhile (\<lambda>l. is_locked_out_at_slot l s) (votes st)"
    and "filter (\<lambda>l. \<not> is_locked_out_at_slot l s) (votes st) = dropWhile (\<lambda>l. is_locked_out_at_slot l s) (votes st)" by blast+
qed

text \<open>What a vote makes of the stack before roots are taken off it.\<close>

definition voted :: "vlockout list \<Rightarrow> u64 \<Rightarrow> vlockout list" where
  "voted vs s = map bump (takeWhile (\<lambda>l. is_locked_out_at_slot l s) vs) @ [\<lparr>lo_slot = s, confirmation_count = 1\<rparr>]"

definition stacked :: "vlockout \<Rightarrow> vlockout \<Rightarrow> bool" where
  "stacked l m \<longleftrightarrow> lo_slot l < lo_slot m \<and> confirmation_count m < confirmation_count l \<and> expiry m \<le> expiry l"

lemma tower_ok_alt:
  "tower_ok st \<longleftrightarrow> sorted_wrt stacked (votes st) \<and>
    (\<forall>l \<in> set (votes st). 1 \<le> confirmation_count l \<and> confirmation_count l \<le> 30 \<and> (\<forall>r. root_slot st = Some r \<longrightarrow> r < lo_slot l))"
  unfolding tower_ok_def stacked_def by simp

lemma bump_slot [simp]: "lo_slot (bump l) = lo_slot l"
  by (simp add: bump_def)

lemma stacked_bump:
  assumes "stacked l m" "confirmation_count l \<le> 30"
  shows "stacked (bump l) (bump m)"
proof -
  have m: "confirmation_count m \<le> 30" and c: "unat (confirmation_count m) \<le> unat (confirmation_count l)"
    using assms by (auto simp: stacked_def word_less_nat_alt word_le_nat_alt)
  have "(2::nat) ^ unat (confirmation_count m) \<le> 2 ^ unat (confirmation_count l)" using c by (rule power_increasing) simp
  then have "expiry (bump m) \<le> expiry (bump l)"
    using assms(1) expiry_bump [OF m] expiry_bump [OF assms(2)] unfolding stacked_def by linarith
  then show ?thesis
    using assms(1) expiry_bump [OF m] expiry_bump [OF assms(2)] by (simp add: stacked_def word_less_nat_alt)
qed

lemma stacked_new:
  assumes "lo_slot l < s" "is_locked_out_at_slot l s" "confirmation_count l \<le> 30" "1 \<le> confirmation_count l"
  shows "stacked (bump l) \<lparr>lo_slot = s, confirmation_count = 1\<rparr>"
proof -
  have c: "1 \<le> unat (confirmation_count l)" using assms(4) by (simp add: word_le_nat_alt)
  then have "(2::nat) ^ 1 \<le> 2 ^ unat (confirmation_count l)" by (rule power_increasing) simp
  then have "unat s + 2 \<le> expiry (bump l)"
    using iffD1 [OF locked_iff [OF assms(3)] assms(2)] expiry_bump [OF assms(3)] unfolding power_one_right by linarith
  then show ?thesis
    using c assms(1) expiry_bump [OF assms(3)]
    by (simp add: stacked_def word_less_nat_alt expiry_def [of "\<lparr>lo_slot = s, confirmation_count = 1\<rparr>"])
qed

lemma voted_stack:
  assumes ok: "tower_ok st" and new: "\<forall>l \<in> set (votes st). lo_slot l < s" "\<forall>r. root_slot st = Some r \<longrightarrow> r < s"
  shows "sorted_wrt stacked (voted (votes st) s)"
    and "\<forall>l \<in> set (voted (votes st) s). 1 \<le> confirmation_count l \<and> confirmation_count l \<le> 31 \<and> (\<forall>r. root_slot st = Some r \<longrightarrow> r < lo_slot l)"
proof -
  define kept where "kept = takeWhile (\<lambda>l. is_locked_out_at_slot l s) (votes st)"
  have k: "l \<in> set (votes st)" "is_locked_out_at_slot l s" if "l \<in> set kept" for l
    using that set_takeWhileD unfolding kept_def by fast+
  have c: "1 \<le> confirmation_count l" "confirmation_count l \<le> 30" "lo_slot l < s" "root_slot st = Some r \<Longrightarrow> r < lo_slot l"
    if "l \<in> set kept" for l r using k(1) [OF that] ok new by (auto simp: tower_ok_def)
  have v: "voted (votes st) s = map bump kept @ [\<lparr>lo_slot = s, confirmation_count = 1\<rparr>]" by (simp add: voted_def kept_def)
  have "sorted_wrt stacked kept"
    using ok unfolding tower_ok_alt kept_def by (metis sorted_wrt_append takeWhile_dropWhile_id)
  then have "sorted_wrt (\<lambda>l m. stacked (bump l) (bump m)) kept"
    by (rule sorted_wrt_mono_rel [rotated]) (rule stacked_bump, auto dest: c)
  then show "sorted_wrt stacked (voted (votes st) s)"
    unfolding v by (auto simp: sorted_wrt_append sorted_wrt_map intro!: stacked_new c k(2))
  have "1 \<le> confirmation_count (bump l) \<and> confirmation_count (bump l) \<le> 31" if "l \<in> set kept" for l
    using expiry_bump [of l] c [OF that] by (auto simp: word_le_nat_alt)
  then show "\<forall>l \<in> set (voted (votes st) s). 1 \<le> confirmation_count l \<and> confirmation_count l \<le> 31 \<and> (\<forall>r. root_slot st = Some r \<longrightarrow> r < lo_slot l)"
    unfolding v using c(4) new(2) by auto
qed

text \<open>At most the bottom lockout has reached the full history.\<close>

lemma rooted_prefix:
  assumes "sorted_wrt stacked vs" "\<forall>l \<in> set vs. confirmation_count l \<le> 31"
  shows "length (takeWhile (\<lambda>l. 31 \<le> confirmation_count l) vs) \<le> 1"
    and "\<forall>l \<in> set (dropWhile (\<lambda>l. 31 \<le> confirmation_count l) vs). confirmation_count l \<le> 30"
proof -
  have le: "c \<le> 30" if "d \<le> 31" "c < d" for c d :: u32 using that by (simp add: word_le_nat_alt word_less_nat_alt)
  have ge: "\<not> 31 \<le> c" if "c \<le> 30" for c :: u32 using that by (simp add: word_le_nat_alt)
  show "length (takeWhile (\<lambda>l. 31 \<le> confirmation_count l) vs) \<le> 1"
  proof (cases vs)
    case (Cons l ls)
    then have "\<forall>m \<in> set ls. confirmation_count m \<le> 30" using assms le unfolding stacked_def by auto
    then have "takeWhile (\<lambda>l. 31 \<le> confirmation_count l) ls = []" using ge by (cases ls) auto
    with Cons show ?thesis by simp
  qed simp
  show "\<forall>l \<in> set (dropWhile (\<lambda>l. 31 \<le> confirmation_count l) vs). confirmation_count l \<le> 30"
  proof (cases vs)
    case (Cons l ls)
    then have ls: "\<forall>m \<in> set ls. confirmation_count m \<le> 30" using assms le unfolding stacked_def by auto
    show ?thesis
    proof (cases "31 \<le> confirmation_count l")
      case True
      with Cons ls show ?thesis by (auto dest: set_dropWhileD)
    next
      case False
      then have "confirmation_count l \<le> 30" by (simp add: word_le_nat_alt word_less_nat_alt)
      with Cons ls False show ?thesis by auto
    qed
  qed simp
qed

definition vote_slot_of :: "vote \<Rightarrow> u64" where
  "vote_slot_of v = last (vote_slots v)"

text \<open>A vote the tower takes: it names a slot above the root and above every slot on the stack.\<close>

definition votable :: "vote_state \<Rightarrow> vote \<Rightarrow> bool" where
  "votable st v \<longleftrightarrow> vote_slots v \<noteq> [] \<and> (\<forall>r. root_slot st = Some r \<longrightarrow> r < vote_slot_of v) \<and> (\<forall>l \<in> set (votes st). lo_slot l < vote_slot_of v)"

definition rooting :: "vlockout list \<Rightarrow> vlockout list" where
  "rooting vs = takeWhile (\<lambda>l. 31 \<le> confirmation_count l) vs"

lemma tower_vote_run:
  assumes "tower_ok st" "votable st v"
  defines "vs \<equiv> voted (votes st) (vote_slot_of v)"
  shows "tower_process_vote v st =
    (Ok \<lparr>new_root_slots = map lo_slot (rooting vs), expired_lockouts = dropWhile (\<lambda>l. is_locked_out_at_slot l (vote_slot_of v)) (votes st)\<rparr>,
     st\<lparr>votes := dropWhile (\<lambda>l. 31 \<le> confirmation_count l) vs,
        root_slot := (if rooting vs \<noteq> [] then Some (lo_slot (last (rooting vs))) else root_slot st)\<rparr>)"
proof -
  have viol: "lockout_violation (votes st) (vote_slot_of v) = None" using assms(2) by (simp add: votable_def violation_iff)
  have lock: "check_vote_lockout (vote_slot_of v) st = (Ok (), st)" by (simp add: check_vote_lockout_def run_simps viol)
  have root: "(case root_slot st of Some r \<Rightarrow> require (\<not> vote_slot_of v \<le> r) (VoteTooOld (vote_slot_of v) r) | None \<Rightarrow> return ()) st = (Ok (), st)"
    using assms(2) by (auto simp: votable_def run_simps not_le split: option.splits)
  have hist: "ucast TOWER_MAX_LOCKOUT_HISTORY = (31 :: u32)" by (simp add: TOWER_MAX_LOCKOUT_HISTORY_def)
  have cut: "take (length (rooting xs)) xs = rooting xs" "drop (length (rooting xs)) xs = dropWhile (\<lambda>l. 31 \<le> confirmation_count l) xs" for xs
    unfolding rooting_def by (metis takeWhile_eq_take, metis dropWhile_eq_drop)
  have ne: "vote_slots v \<noteq> []" using assms(2) by (simp add: votable_def)
  have none: "dropWhile (\<lambda>l. 31 \<le> confirmation_count l) vs = vs" if "rooting vs = []" using cut(2) [of vs] that by simp
  show ?thesis
    unfolding tower_process_vote_def vote_slot_of_def [symmetric]
    by (simp add: run_simps ne root lock kept_prefix [OF assms(1)] hist Let_def voted_def [symmetric] vs_def [symmetric]
        rooting_def [symmetric] cut last_map none del: take_append drop_append map_append)
qed

lemma tower_vote_fails:
  assumes "\<not> votable st v"
  shows "\<exists>e. tower_process_vote v st = (Err e, st)"
proof (cases "vote_slots v = []")
  case True
  then show ?thesis by (simp add: tower_process_vote_def run_simps)
next
  case False
  show ?thesis
  proof (cases "\<exists>r. root_slot st = Some r \<and> vote_slot_of v \<le> r")
    case True
    then obtain r where "root_slot st = Some r" "vote_slot_of v \<le> r" by blast
    with False show ?thesis by (simp add: tower_process_vote_def vote_slot_of_def [symmetric] run_simps)
  next
    case root: False
    then have r: "(case root_slot st of Some r \<Rightarrow> require (\<not> vote_slot_of v \<le> r) (VoteTooOld (vote_slot_of v) r) | None \<Rightarrow> return ()) st = (Ok (), st)"
      by (auto simp: run_simps split: option.splits)
    have "lockout_violation (votes st) (vote_slot_of v) \<noteq> None"
      using assms False root by (auto simp: votable_def violation_iff not_le)
    then obtain e where "check_vote_lockout (vote_slot_of v) st = (Err e, st)" by (auto simp: check_vote_lockout_def run_simps)
    with False show ?thesis
      unfolding tower_process_vote_def vote_slot_of_def [symmetric] by (simp add: run_simps r)
  qed
qed

lemma depth_bound:
  assumes "tower_ok st"
  shows "tower_depth st \<le> 30"
proof -
  let ?cs = "map (\<lambda>l. unat (confirmation_count l)) (votes st)"
  have "sorted_wrt (\<lambda>l m. unat (confirmation_count m) < unat (confirmation_count l)) (votes st)"
    using assms unfolding tower_ok_alt by (auto simp: stacked_def word_less_nat_alt intro: sorted_wrt_mono_rel [rotated])
  then have "sorted_wrt (<) (rev ?cs)" by (simp add: sorted_wrt_rev sorted_wrt_map)
  then have "distinct ?cs" using strict_sorted_iff distinct_rev by blast
  moreover have "set ?cs \<subseteq> {1..30}" using assms by (auto simp: tower_ok_def word_le_nat_alt)
  ultimately show ?thesis using card_mono [of "{1..30 :: nat}" "set ?cs"] distinct_card [of ?cs] by (simp add: tower_depth_def)
qed

lemma tower_vote_ok:
  assumes ok: "tower_ok st" and v: "votable st v" and run: "tower_process_vote v st = (Ok res, st')"
  defines "kept \<equiv> takeWhile (\<lambda>l. is_locked_out_at_slot l (vote_slot_of v)) (votes st)"
  shows "tower_ok st'"
    and "votes st = kept @ expired_lockouts res"
    and "map lo_slot kept @ [vote_slot_of v] = new_root_slots res @ map lo_slot (votes st')"
    and "length (new_root_slots res) \<le> 1"
    and "root_slot st' = (if new_root_slots res = [] then root_slot st else Some (last (new_root_slots res)))"
    and "votes st' \<noteq> [] \<and> lo_slot (last (votes st')) = vote_slot_of v"
    and "map bump kept @ [\<lparr>lo_slot = vote_slot_of v, confirmation_count = 1\<rparr>] = rooting (voted (votes st) (vote_slot_of v)) @ votes st'"
    and "new_root_slots res = map lo_slot (rooting (voted (votes st) (vote_slot_of v)))"
proof -
  define vs where "vs = voted (votes st) (vote_slot_of v)"
  note st = tower_vote_run [OF ok v, folded vs_def, unfolded run, simplified]
  have sorted: "sorted_wrt stacked vs" and vs: "\<forall>l \<in> set vs. 1 \<le> confirmation_count l \<and> confirmation_count l \<le> 31 \<and> (\<forall>r. root_slot st = Some r \<longrightarrow> r < lo_slot l)"
    using voted_stack [OF ok] v unfolding vs_def votable_def by blast+
  have split: "vs = rooting vs @ votes st'" by (simp add: st rooting_def)
  have vs_eq: "map bump kept @ [\<lparr>lo_slot = vote_slot_of v, confirmation_count = 1\<rparr>] = vs" by (simp add: vs_def voted_def kept_def)
  show all: "map bump kept @ [\<lparr>lo_slot = vote_slot_of v, confirmation_count = 1\<rparr>] = rooting (voted (votes st) (vote_slot_of v)) @ votes st'"
    using vs_eq split by (simp add: vs_def)
  show roots: "new_root_slots res = map lo_slot (rooting (voted (votes st) (vote_slot_of v)))" by (simp add: st vs_def)
  show "votes st = kept @ expired_lockouts res" by (simp add: st kept_def)
  have "map lo_slot (map bump kept @ [\<lparr>lo_slot = vote_slot_of v, confirmation_count = 1\<rparr>]) = map lo_slot (rooting vs @ votes st')"
    using vs_eq split by simp
  then show "map lo_slot kept @ [vote_slot_of v] = new_root_slots res @ map lo_slot (votes st')"
    using roots by (simp add: vs_def comp_def)
  show "length (new_root_slots res) \<le> 1"
    using rooted_prefix(1) [OF sorted] vs by (simp add: roots rooting_def vs_def)
  have root: "root_slot st' = (if rooting vs = [] then root_slot st else Some (lo_slot (last (rooting vs))))" by (simp add: st)
  then show "root_slot st' = (if new_root_slots res = [] then root_slot st else Some (last (new_root_slots res)))"
    by (simp add: st last_map)
  have "\<not> 31 \<le> confirmation_count (last vs)" unfolding vs_eq [symmetric] by (simp add: word_le_nat_alt)
  then have "votes st' \<noteq> []"
    using split vs_eq set_takeWhileD [of "last vs" "\<lambda>l. 31 \<le> confirmation_count l" vs] unfolding rooting_def
    by (metis append_Nil2 append_is_Nil_conv last_in_set not_Cons_self2)
  moreover from this have "last (votes st') = last vs" using split by (metis last_appendR)
  ultimately show "votes st' \<noteq> [] \<and> lo_slot (last (votes st')) = vote_slot_of v" unfolding vs_eq [symmetric] by simp
  have "\<forall>l \<in> set (votes st'). confirmation_count l \<le> 30" using rooted_prefix(2) [OF sorted] vs by (simp add: st)
  moreover have "sorted_wrt stacked (rooting vs @ votes st')" using sorted split by simp
  moreover have "\<forall>l \<in> set (votes st'). 1 \<le> confirmation_count l \<and> (\<forall>r. root_slot st = Some r \<longrightarrow> r < lo_slot l)"
    using vs split by (metis Un_iff set_append)
  ultimately show "tower_ok st'"
    unfolding tower_ok_alt root by (auto simp: sorted_wrt_append stacked_def split: if_splits)
qed

section \<open>Histories\<close>

text \<open>The votes of a validator in order, the ones its tower rejects being skipped: the slots it takes and the roots it reports.\<close>

fun tower_votes :: "vote list \<Rightarrow> vote_state \<Rightarrow> (u64 list \<times> u64 list) \<times> vote_state" where
  "tower_votes [] st = (([], []), st)"
| "tower_votes (v # vs) st =
    (case tower_process_vote v st of
       (Ok res, st') \<Rightarrow> (case tower_votes vs st' of ((taken, roots), t) \<Rightarrow> ((vote_slot_of v # taken, new_root_slots res @ roots), t))
     | (_, st') \<Rightarrow> tower_votes vs st')"

definition votes_since :: "u64 \<Rightarrow> u64 list \<Rightarrow> nat" where
  "votes_since s taken = length (filter (\<lambda>t. s \<le> t) taken)"

definition history_ok :: "u64 list \<Rightarrow> u64 list \<Rightarrow> vote_state \<Rightarrow> bool" where
  "history_ok taken roots st \<longleftrightarrow> tower_ok st \<and> sorted_wrt (<) taken \<and> subseq (roots @ map lo_slot (votes st)) taken \<and>
    root_slot st = (if roots = [] then None else Some (last roots)) \<and>
    (taken \<noteq> [] \<longrightarrow> votes st \<noteq> [] \<and> lo_slot (last (votes st)) = last taken) \<and>
    (\<forall>l \<in> set (votes st). unat (confirmation_count l) \<le> votes_since (lo_slot l) taken) \<and>
    (\<forall>r \<in> set roots. 31 \<le> votes_since r taken)"

lemma le_last: "sorted_wrt (<) xs \<Longrightarrow> x \<in> set xs \<Longrightarrow> x \<le> last xs" for xs :: "'a::linorder list"
  by (induction xs) (auto simp: less_imp_le)

lemma nths_sorted_wrt: "sorted_wrt R ys \<Longrightarrow> sorted_wrt R (nths ys N)"
  by (induction ys arbitrary: N) (simp_all add: nths_Cons notin_set_nthsI, meson in_set_nthsD)

lemma subseq_sorted_wrt: "subseq xs ys \<Longrightarrow> sorted_wrt R ys \<Longrightarrow> sorted_wrt R xs"
  using nths_sorted_wrt unfolding subseq_conv_nths by blast

lemma history_vote:
  assumes h: "history_ok taken roots st" and v: "votable st v" and run: "tower_process_vote v st = (Ok res, st')"
  shows "history_ok (taken @ [vote_slot_of v]) (roots @ new_root_slots res) st'"
proof -
  have ok: "tower_ok st" using h by (simp add: history_ok_def)
  note step = tower_vote_ok [OF ok v run]
  define s where "s = vote_slot_of v"
  define kept where "kept = takeWhile (\<lambda>l. is_locked_out_at_slot l s) (votes st)"
  have above: "t < s" if "t \<in> set taken" for t
  proof -
    from that h have "votes st \<noteq> []" "lo_slot (last (votes st)) = last taken" "sorted_wrt (<) taken" unfolding history_ok_def by auto
    then have "last taken < s" using v unfolding votable_def s_def by (metis last_in_set)
    moreover have "t \<le> last taken" using that \<open>sorted_wrt (<) taken\<close> by (rule le_last [rotated])
    ultimately show ?thesis by simp
  qed
  have count: "votes_since x (taken @ [s]) = Suc (votes_since x taken)" if "x \<le> s" for x using that by (simp add: votes_since_def)
  have conf: "unat (confirmation_count l) \<le> votes_since (lo_slot l) (taken @ [s])"
    if l: "l \<in> set (map bump kept @ [\<lparr>lo_slot = s, confirmation_count = 1\<rparr>])" for l
  proof (cases "l \<in> bump ` set kept")
    case True
    then obtain m where m: "m \<in> set kept" "l = bump m" by blast
    then have mv: "m \<in> set (votes st)" unfolding kept_def by (blast dest: set_takeWhileD)
    then have "confirmation_count m \<le> 30" "lo_slot m \<le> s" "unat (confirmation_count m) \<le> votes_since (lo_slot m) taken"
      using ok v h unfolding tower_ok_def votable_def history_ok_def s_def by (auto intro: less_imp_le)
    then show ?thesis using expiry_bump [of m] m(2) count [of "lo_slot m"] by simp
  next
    case False
    with l have "l = \<lparr>lo_slot = s, confirmation_count = 1\<rparr>" by simp
    then show ?thesis by (simp add: votes_since_def)
  qed
  note stack = step(7) [folded s_def, folded kept_def]
  have roots31: "31 \<le> votes_since r (taken @ [s])" if "r \<in> set (new_root_slots res)" for r
  proof -
    from that obtain l where l: "l \<in> set (rooting (voted (votes st) s))" "r = lo_slot l" by (auto simp: step(8) s_def)
    then have "31 \<le> confirmation_count l" unfolding rooting_def by (blast dest: set_takeWhileD)
    then have "31 \<le> unat (confirmation_count l)" by (simp add: word_le_nat_alt)
    moreover have "l \<in> set (map bump kept @ [\<lparr>lo_slot = s, confirmation_count = 1\<rparr>])" unfolding stack using l(1) by simp
    ultimately show ?thesis using conf l(2) by (meson le_trans)
  qed
  have "subseq (roots @ map lo_slot kept) (roots @ map lo_slot (votes st))"
    unfolding step(2) [folded s_def, folded kept_def] map_append append_assoc [symmetric] by (intro subseq_rev_drop_many subseq_order.refl)
  then have "subseq ((roots @ map lo_slot kept) @ [s]) (taken @ [s])"
    using h unfolding history_ok_def by (blast intro: subseq_order.trans list_emb_append_mono subseq_order.refl)
  then have sub: "subseq ((roots @ new_root_slots res) @ map lo_slot (votes st')) (taken @ [s])"
    using step(3) [folded s_def, folded kept_def] by simp
  have votes: "l \<in> set (map bump kept @ [\<lparr>lo_slot = s, confirmation_count = 1\<rparr>])" if "l \<in> set (votes st')" for l unfolding stack using that by simp
  have mono: "votes_since r taken \<le> votes_since r (taken @ [s])" for r by (simp add: votes_since_def)
  have "\<forall>r \<in> set (roots @ new_root_slots res). 31 \<le> votes_since r (taken @ [s])"
    using h mono roots31 unfolding history_ok_def by (auto intro: le_trans)
  moreover have "root_slot st' = (if roots @ new_root_slots res = [] then None else Some (last (roots @ new_root_slots res)))"
    using step(5) h by (simp add: history_ok_def)
  moreover have "sorted_wrt (<) (taken @ [s])" using above h by (auto simp: history_ok_def sorted_wrt_append)
  ultimately show ?thesis
    unfolding history_ok_def s_def [symmetric] using step(1,6) sub conf [OF votes] by (simp add: s_def)
qed

lemma history_votes:
  assumes "history_ok taken roots st" "tower_votes vs st = ((later, news), t)"
  shows "history_ok (taken @ later) (roots @ news) t"
  using assms
proof (induction vs arbitrary: taken roots st later news)
  case (Cons v vs)
  have ok: "tower_ok st" using Cons.prems(1) by (simp add: history_ok_def)
  show ?case
  proof (cases "votable st v")
    case True
    then obtain res st' where run: "tower_process_vote v st = (Ok res, st')" using tower_vote_run [OF ok] by blast
    obtain later' news' where rest: "tower_votes vs st' = ((later', news'), t)" "later = vote_slot_of v # later'" "news = new_root_slots res @ news'"
      using Cons.prems(2) run by (auto split: prod.splits)
    show ?thesis using Cons.IH [OF history_vote [OF Cons.prems(1) True run] rest(1)] rest(2,3) by simp
  next
    case False
    then obtain e where "tower_process_vote v st = (Err e, st)" using tower_vote_fails by blast
    then show ?thesis using Cons by simp
  qed
qed simp

section \<open>Properties\<close>

text \<open>C33: A vote on a well-formed tower is taken exactly when it names a slot above the root and above every slot on the
  stack; a rejected vote changes nothing. A vote that is taken expires a suffix of the stack, exactly the lockouts whose
  time is over at the new slot; the slots that stay and the new one are split between the new roots and the new stack, in
  order; at most one slot is rooted, the root is the reported one, and the tower stays well-formed.
\<close>

theorem tower_vote_spec:
  assumes "tower_ok st"
  shows "case tower_process_vote v st of
      (Ok res, st') \<Rightarrow> votable st v \<and> tower_ok st' \<and>
        (\<exists>kept. votes st = kept @ expired_lockouts res \<and>
          (\<forall>l \<in> set kept. unat (vote_slot_of v) \<le> expiry l) \<and> (\<forall>l \<in> set (expired_lockouts res). expiry l < unat (vote_slot_of v)) \<and>
          map lo_slot kept @ [vote_slot_of v] = new_root_slots res @ map lo_slot (votes st')) \<and>
        length (new_root_slots res) \<le> 1 \<and>
        root_slot st' = (if new_root_slots res = [] then root_slot st else Some (last (new_root_slots res)))
    | (Err e, st') \<Rightarrow> \<not> votable st v \<and> st' = st
    | (Panic, st') \<Rightarrow> False"
proof (cases "votable st v")
  case True
  let ?s = "vote_slot_of v"
  obtain res st' where run: "tower_process_vote v st = (Ok res, st')" using tower_vote_run [OF assms True] by blast
  note step = tower_vote_ok [OF assms True run]
  have le: "confirmation_count l \<le> 30" if "l \<in> set (votes st)" for l using that assms by (simp add: tower_ok_def)
  have exp: "expired_lockouts res = filter (\<lambda>l. \<not> is_locked_out_at_slot l ?s) (votes st)"
    using tower_vote_run [OF assms True] run kept_prefix(2) [OF assms] by simp
  have kept: "\<forall>l \<in> set (takeWhile (\<lambda>l. is_locked_out_at_slot l ?s) (votes st)). unat ?s \<le> expiry l"
    using locked_iff le by (metis set_takeWhileD)
  have gone: "\<forall>l \<in> set (expired_lockouts res). expiry l < unat ?s" using locked_iff le by (auto simp: exp not_le [symmetric])
  show ?thesis using True run step(1-5) kept gone by (simp add: exI [of _ "takeWhile (\<lambda>l. is_locked_out_at_slot l ?s) (votes st)"])
next
  case False
  then show ?thesis using tower_vote_fails [OF False] by auto
qed

text \<open>C34: Whatever votes a validator casts from a fresh tower, the slots its tower takes are strictly increasing, the roots it
  reports are strictly increasing and among the slots taken, each rooted slot has at least 31 votes at or above it, the root
  of the tower is the last one reported, and the stack never holds more than 30 lockouts.
\<close>

theorem tower_history:
  "case tower_votes vs (vote_state_new i) of ((taken, roots), st) \<Rightarrow>
    sorted_wrt (<) taken \<and> sorted_wrt (<) roots \<and> subseq roots taken \<and> list_all (\<lambda>r. 31 \<le> votes_since r taken) roots \<and>
    root_slot st = (if roots = [] then None else Some (last roots)) \<and> tower_ok st \<and> tower_depth st \<le> 30"
proof -
  obtain taken roots st where run: "tower_votes vs (vote_state_new i) = ((taken, roots), st)" by (metis prod.exhaust)
  have "history_ok [] [] (vote_state_new i)" by (simp add: history_ok_def tower_ok_def vote_state_new_def)
  from history_votes [OF this run] have h: "history_ok taken roots st" by simp
  then have sub: "subseq roots taken" unfolding history_ok_def by (metis list_emb_append2 subseq_order.trans subseq_rev_drop_many subseq_order.refl)
  moreover have "sorted_wrt (<) roots" using h sub subseq_sorted_wrt unfolding history_ok_def by blast
  ultimately show ?thesis using run h depth_bound [of st] by (simp add: history_ok_def list_all_iff)
qed

definition lone_vote :: "vote" where
  "lone_vote = \<lparr>vote_slots = [5], vote_hash = 0, vote_timestamp = None\<rparr>"

definition lone_init :: "vote_init" where
  "lone_init = \<lparr>vi_node_pubkey = 1, vi_authorized_voter = 2, vi_authorized_withdrawer = 3, vi_commission = 0\<rparr>"

theorem tower_vote_spec_witness:
  "tower_ok (vote_state_new lone_init) \<and>
    (\<exists>st'. tower_process_vote lone_vote (vote_state_new lone_init) = (Ok \<lparr>new_root_slots = [], expired_lockouts = []\<rparr>, st') \<and>
      tower_ok st' \<and> map lo_slot (votes st') = [5])"
proof -
  have ok: "tower_ok (vote_state_new lone_init)" by (simp add: tower_ok_def vote_state_new_def)
  have "votable (vote_state_new lone_init) lone_vote" by (simp add: votable_def vote_state_new_def lone_vote_def)
  from tower_vote_run [OF ok this]
  obtain st' where run: "tower_process_vote lone_vote (vote_state_new lone_init) = (Ok \<lparr>new_root_slots = [], expired_lockouts = []\<rparr>, st')"
    by (simp add: voted_def rooting_def vote_state_new_def word_le_nat_alt)
  show ?thesis
    using ok run tower_vote_spec [OF ok, of lone_vote] by (auto simp: vote_slot_of_def lone_vote_def vote_state_new_def)
qed

end
