(* ===== verification/Fork_Choice.thy ===== *)
theory Fork_Choice
  imports Tower "HOL-Library.Product_Lexorder"
begin

text \<open>
  The fork tree, \<open>consensus/src/fork_choice.rs\<close>: blocks by slot with the stake that votes for each subtree, the heaviest
  fork and the pruning below a new root. Its loops follow parent and child links that nothing in the file bounds, so
  they are partial functions: a run that does not end is \<open>None\<close>. In trees whose parents come before their children every
  operation ends; where each block's parent was present when it was added, the weights are exact.
\<close>

section \<open>Definitions\<close>

datatype commitment_level = Processed | Confirmed | Finalized

definition MAX_UNCONFIRMED_DEPTH :: u64 where
  "MAX_UNCONFIRMED_DEPTH = 64"

definition DUPLICATE_THRESHOLD_PERCENTAGE :: u64 where
  "DUPLICATE_THRESHOLD_PERCENTAGE = 52"

definition MAX_FORK_TREE_NODES :: nat where
  "MAX_FORK_TREE_NODES = unat MAX_UNCONFIRMED_DEPTH * 4"

record fork_node =
  fn_slot :: u64
  parent_slot :: "u64 option"
  fn_block_hash :: hash
  fn_bank_hash :: hash
  children :: "u64 list"
  stake_voted :: u64
  subtree_stake :: u64
  is_connected :: bool
  fn_commitment :: commitment_level
  fn_voters_seen :: "hash set"

type_synonym fork_nodes = "u64 \<rightharpoonup> fork_node"

record fork_tree =
  nodes :: fork_nodes
  ft_root_slot :: u64
  ft_best_slot :: u64
  ft_total_active_stake :: u64
  validator_to_voted_slot :: "hash \<rightharpoonup> u64"

definition fork_node_new :: "u64 \<Rightarrow> u64 option \<Rightarrow> hash \<Rightarrow> hash \<Rightarrow> bool \<Rightarrow> commitment_level \<Rightarrow> fork_node" where
  "fork_node_new slot parent block_hash bank_hash connected level =
    \<lparr>fn_slot = slot, parent_slot = parent, fn_block_hash = block_hash, fn_bank_hash = bank_hash, children = [], stake_voted = 0,
     subtree_stake = 0, is_connected = connected, fn_commitment = level, fn_voters_seen = {}\<rparr>"

definition fork_tree_new :: "u64 \<Rightarrow> hash \<Rightarrow> hash \<Rightarrow> fork_tree" where
  "fork_tree_new root block_hash bank_hash =
    \<lparr>nodes = [root \<mapsto> fork_node_new root None block_hash bank_hash True Finalized], ft_root_slot = root, ft_best_slot = root,
     ft_total_active_stake = 0, validator_to_voted_slot = Map.empty\<rparr>"

definition set_total_active_stake :: "u64 \<Rightarrow> fork_tree \<Rightarrow> fork_tree" where
  "set_total_active_stake stake t = t\<lparr>ft_total_active_stake := stake\<rparr>"

definition contains :: "fork_tree \<Rightarrow> u64 \<Rightarrow> bool" where
  "contains t slot \<longleftrightarrow> nodes t slot \<noteq> None"

definition node_count :: "fork_tree \<Rightarrow> nat" where
  "node_count t = card (dom (nodes t))"

definition push_child :: "u64 \<Rightarrow> fork_node \<Rightarrow> fork_node" where
  "push_child slot n = n\<lparr>children := children n @ [slot]\<rparr>"

definition add_slot :: "u64 \<Rightarrow> u64 \<Rightarrow> hash \<Rightarrow> hash \<Rightarrow> (fork_tree, consensus_error, unit) rm" where
  "add_slot slot parent block_hash bank_hash =
    bind_r (gets (\<lambda>t. contains t slot)) (\<lambda>present.
    then_r (require (\<not> present) (SlotAlreadyProcessed slot))
    (bind_r (gets node_count) (\<lambda>len.
     then_r (require (\<not> MAX_FORK_TREE_NODES \<le> len) (MaxDepthExceeded (of_nat len) (of_nat MAX_FORK_TREE_NODES)))
     (bind_r (gets (\<lambda>t. nodes t parent)) (\<lambda>found.
      bind_r (case found of
          Some p \<Rightarrow> then_r (modify (\<lambda>t. t\<lparr>nodes := (nodes t)(parent \<mapsto> push_child slot p)\<rparr>)) (return (is_connected p))
        | None \<Rightarrow> return False) (\<lambda>connected.
      modify (\<lambda>t. t\<lparr>nodes := (nodes t)(slot \<mapsto> fork_node_new slot (Some parent) block_hash bank_hash connected Processed)\<rparr>)))))))"

definition add_weight :: "u64 \<Rightarrow> fork_node \<Rightarrow> fork_node" where
  "add_weight stake n = n\<lparr>subtree_stake := saturating_add (subtree_stake n) stake\<rparr>"

partial_function (option) propagate :: "fork_nodes \<Rightarrow> u64 \<Rightarrow> u64 \<Rightarrow> fork_nodes option" where
  "propagate ns current stake =
    (case ns current of
       None \<Rightarrow> Some ns
     | Some n \<Rightarrow>
         (case parent_slot n of
            None \<Rightarrow> Some (ns(current \<mapsto> add_weight stake n))
          | Some parent \<Rightarrow>
              if parent \<noteq> current then propagate (ns(current \<mapsto> add_weight stake n)) parent stake
              else Some (ns(current \<mapsto> add_weight stake n))))"

definition add_vote :: "u64 \<Rightarrow> hash \<Rightarrow> u64 \<Rightarrow> fork_tree \<Rightarrow> (bool \<times> fork_tree) option" where
  "add_vote slot voter stake t =
    (if validator_to_voted_slot t voter \<noteq> None then Some (False, t)
     else case nodes t slot of
       None \<Rightarrow> Some (False, t)
     | Some n \<Rightarrow>
         if voter \<in> fn_voters_seen n then Some (False, t)
         else
           let n' = n\<lparr>fn_voters_seen := insert voter (fn_voters_seen n), stake_voted := saturating_add (stake_voted n) stake\<rparr>
           in Option.bind (propagate ((nodes t)(slot \<mapsto> n')) slot stake) (\<lambda>ns.
              Some (True, t\<lparr>nodes := ns, validator_to_voted_slot := (validator_to_voted_slot t)(voter \<mapsto> slot)\<rparr>)))"

text \<open>\<open>Iterator::max_by_key\<close>: of several greatest elements the last one.\<close>

fun max_by_key :: "('a \<Rightarrow> 'k::linorder) \<Rightarrow> 'a list \<Rightarrow> 'a option" where
  "max_by_key key [] = None"
| "max_by_key key (x # xs) =
    (case max_by_key key xs of None \<Rightarrow> Some x | Some y \<Rightarrow> if key x \<le> key y then Some y else Some x)"

definition fork_key :: "fork_nodes \<Rightarrow> u64 \<Rightarrow> u64 \<times> hash" where
  "fork_key ns slot = (case ns slot of Some n \<Rightarrow> (subtree_stake n, fn_block_hash n) | None \<Rightarrow> (0, 0))"

partial_function (option) find_heaviest_from :: "fork_nodes \<Rightarrow> u64 \<Rightarrow> u64 option" where
  "find_heaviest_from ns current =
    (case ns current of
       None \<Rightarrow> Some current
     | Some n \<Rightarrow>
         if children n = [] then Some current
         else (case max_by_key (fork_key ns) (filter (\<lambda>c. ns c \<noteq> None) (children n)) of
             Some best \<Rightarrow> find_heaviest_from ns best
           | None \<Rightarrow> Some current))"

definition compute_best_fork :: "fork_tree \<Rightarrow> (u64 \<times> fork_tree) option" where
  "compute_best_fork t =
    Option.bind (find_heaviest_from (nodes t) (ft_root_slot t)) (\<lambda>best. Some (best, t\<lparr>ft_best_slot := best\<rparr>))"

partial_function (option) ancestry_loop :: "fork_nodes \<Rightarrow> u64 list \<Rightarrow> u64 \<Rightarrow> u64 list option" where
  "ancestry_loop ns chain current =
    (case ns current of
       None \<Rightarrow> Some (chain @ [current])
     | Some n \<Rightarrow>
         (case parent_slot n of
            None \<Rightarrow> Some (chain @ [current])
          | Some parent \<Rightarrow> if parent \<noteq> current then ancestry_loop ns (chain @ [current]) parent else Some (chain @ [current])))"

definition get_ancestry :: "fork_tree \<Rightarrow> u64 \<Rightarrow> u64 list option" where
  "get_ancestry t slot = ancestry_loop (nodes t) [] slot"

partial_function (option) subtree_loop :: "fork_nodes \<Rightarrow> u64 list \<Rightarrow> u64 set \<Rightarrow> u64 set option" where
  "subtree_loop ns stack reachable =
    (if stack = [] then Some reachable
     else case ns (last stack) of
       None \<Rightarrow> subtree_loop ns (butlast stack) (insert (last stack) reachable)
     | Some n \<Rightarrow> subtree_loop ns (butlast stack @ children n) (insert (last stack) reachable))"

definition collect_subtree :: "fork_tree \<Rightarrow> u64 \<Rightarrow> u64 set option" where
  "collect_subtree t root = subtree_loop (nodes t) [root] {}"

text \<open>Taking the slots of the old chain out of the map: what is left and the slots that were there.\<close>

fun remove_slots :: "u64 list \<Rightarrow> fork_nodes \<Rightarrow> fork_nodes \<times> u64 list" where
  "remove_slots [] ns = (ns, [])"
| "remove_slots (s # ss) ns =
    (case remove_slots ss (ns(s := None)) of (ns', gone) \<Rightarrow> (ns', if ns s \<noteq> None then s # gone else gone))"

definition set_root :: "(u64 set \<Rightarrow> u64 list) \<Rightarrow> u64 \<Rightarrow> fork_tree \<Rightarrow> ((consensus_error, u64 list) outcome \<times> fork_tree) option" where
  "set_root iter new_root t =
    (if \<not> contains t new_root then Some (Err (InvalidRoot new_root), t)
     else if new_root \<le> ft_root_slot t then Some (Ok [], t)
     else Option.bind (get_ancestry t new_root) (\<lambda>ancestry.
       Option.bind (collect_subtree t new_root) (\<lambda>reachable.
       let keep = reachable \<union> set ancestry;
           unreached = filter (\<lambda>s. s \<notin> keep) (iter (dom (nodes t)));
           (ns, between) = remove_slots (filter (\<lambda>s. s \<noteq> new_root \<and> s \<noteq> ft_root_slot t) ancestry) (nodes t |` keep);
           (ns', old) = (if ft_root_slot t \<noteq> new_root then remove_slots [ft_root_slot t] ns else (ns, []));
           ns'' = (case ns' new_root of Some n \<Rightarrow> ns'(new_root \<mapsto> n\<lparr>parent_slot := None, fn_commitment := Finalized\<rparr>) | None \<Rightarrow> ns')
       in Some (Ok (unreached @ between @ old),
          t\<lparr>nodes := ns'', ft_root_slot := new_root,
            validator_to_voted_slot := (\<lambda>v. case validator_to_voted_slot t v of Some s \<Rightarrow> if new_root \<le> s then Some s else None | None \<Rightarrow> None)\<rparr>))))"

definition latest_slot :: "fork_tree \<Rightarrow> u64 option" where
  "latest_slot t = (if dom (nodes t) = {} then None else Some (Max (dom (nodes t))))"

definition orphan_children :: "u64 list \<Rightarrow> fork_nodes \<Rightarrow> u64 \<rightharpoonup> u64 list" where
  "orphan_children slots ns =
    fold (\<lambda>s m. case ns s of
        Some n \<Rightarrow> (if is_connected n then m
          else case parent_slot n of
            Some parent \<Rightarrow> m(parent \<mapsto> (case m parent of Some cs \<Rightarrow> cs | None \<Rightarrow> []) @ [s])
          | None \<Rightarrow> m)
      | None \<Rightarrow> m) slots Map.empty"

definition reconnect_child :: "u64 \<Rightarrow> u64 \<Rightarrow> fork_nodes \<Rightarrow> fork_nodes" where
  "reconnect_child parent child ns =
    (let ns' = (case ns child of Some c \<Rightarrow> ns(child \<mapsto> c\<lparr>is_connected := True\<rparr>) | None \<Rightarrow> ns)
     in case ns' parent of
       Some p \<Rightarrow> if child \<in> set (children p) then ns' else ns'(parent \<mapsto> push_child child p)
     | None \<Rightarrow> ns')"

partial_function (option) reconnect_loop :: "u64 list \<Rightarrow> (u64 \<rightharpoonup> u64 list) \<Rightarrow> fork_nodes \<Rightarrow> fork_nodes option" where
  "reconnect_loop queue orphans ns =
    (if queue = [] then Some ns
     else case orphans (hd queue) of
       None \<Rightarrow> reconnect_loop (tl queue) orphans ns
     | Some cs \<Rightarrow> reconnect_loop (tl queue @ cs) (orphans(hd queue := None)) (fold (reconnect_child (hd queue)) cs ns))"

definition try_reconnect_orphans :: "(u64 set \<Rightarrow> u64 list) \<Rightarrow> fork_tree \<Rightarrow> fork_tree option" where
  "try_reconnect_orphans iter t =
    (let slots = iter (dom (nodes t));
         orphans = orphan_children slots (nodes t);
         queue = filter (\<lambda>s. case nodes t s of Some n \<Rightarrow> is_connected n | None \<Rightarrow> False) slots
     in if dom orphans = {} then Some t
        else Option.bind (reconnect_loop queue orphans (nodes t)) (\<lambda>ns. Some (t\<lparr>nodes := ns\<rparr>)))"

section \<open>Loops end in ordered trees\<close>

text \<open>Parents come before their children.\<close>

definition ordered :: "fork_nodes \<Rightarrow> bool" where
  "ordered ns \<longleftrightarrow> (\<forall>s n. ns s = Some n \<longrightarrow> (\<forall>p. parent_slot n = Some p \<longrightarrow> p < s) \<and> (\<forall>c \<in> set (children n). s < c))"

inductive descends :: "fork_nodes \<Rightarrow> u64 \<Rightarrow> u64 \<Rightarrow> bool" for ns where
  descends_refl: "ns s = Some n \<Longrightarrow> descends ns s s"
| descends_parent: "ns w = Some n \<Longrightarrow> parent_slot n = Some p \<Longrightarrow> descends ns p s \<Longrightarrow> descends ns w s"

lemma descends_iff:
  "descends ns w s \<longleftrightarrow> (\<exists>n. ns w = Some n \<and> (s = w \<or> (\<exists>p. parent_slot n = Some p \<and> descends ns p s)))"
  by (auto intro: descends.intros elim: descends.cases)

lemma ordered_parent: "ordered ns \<Longrightarrow> ns s = Some n \<Longrightarrow> parent_slot n = Some p \<Longrightarrow> p < s"
  by (simp add: ordered_def)

lemma descends_le: "descends ns w s \<Longrightarrow> ordered ns \<Longrightarrow> s \<le> w"
  by (induction rule: descends.induct) (simp_all, meson ordered_parent less_imp_le order.trans)

lemma descends_in: "descends ns w s \<Longrightarrow> (\<exists>n. ns w = Some n) \<and> (\<exists>m. ns s = Some m)"
  by (induction rule: descends.induct) auto

lemma descends_trans: "descends ns w s \<Longrightarrow> descends ns s r \<Longrightarrow> descends ns w r"
  by (induction rule: descends.induct) (auto intro: descends_parent)

definition same_parents :: "fork_nodes \<Rightarrow> fork_nodes \<Rightarrow> bool" where
  "same_parents ns ms \<longleftrightarrow> (\<forall>s. map_option parent_slot (ns s) = map_option parent_slot (ms s))"

lemma descends_same: "descends ns w s \<Longrightarrow> same_parents ns ms \<Longrightarrow> descends ms w s"
proof (induction rule: descends.induct)
  case (descends_refl s n)
  then have "map_option parent_slot (ms s) = Some (parent_slot n)" by (metis option.simps(9) same_parents_def)
  then show ?case by (auto intro: descends.descends_refl)
next
  case (descends_parent w n p s)
  then have "map_option parent_slot (ms w) = Some (Some p)" by (metis option.simps(9) same_parents_def)
  with descends_parent show ?case by (auto intro: descends.descends_parent)
qed

lemma descends_same_iff: "same_parents ns ms \<Longrightarrow> descends ns w s \<longleftrightarrow> descends ms w s"
  using descends_same [of ns w s ms] descends_same [of ms w s ns] by (auto simp: same_parents_def)

lemma ordered_update:
  assumes "ordered ns" "ns s = Some n" "parent_slot n' = parent_slot n" "children n' = children n"
  shows "ordered (ns(s \<mapsto> n'))"
  using assms by (auto simp: ordered_def)

text \<open>A vote adds its stake to the voted slot and to each of its ancestors, once.\<close>

lemma propagate_run:
  assumes "ordered ns"
  shows "propagate ns s k = Some (\<lambda>x. if descends ns s x then map_option (add_weight k) (ns x) else ns x)"
  using assms
proof (induction s arbitrary: ns rule: less_induct)
  case (less s)
  show ?case
  proof (cases "ns s")
    case None
    then have "\<not> descends ns s x" for x by (simp add: descends_iff [of ns s])
    with None show ?thesis by (simp add: propagate.simps)
  next
    case (Some n)
    let ?ms = "ns(s \<mapsto> add_weight k n)"
    show ?thesis
    proof (cases "parent_slot n")
      case None
      then have "descends ns s x \<longleftrightarrow> x = s" for x using Some by (simp add: descends_iff [of ns s])
      with None Some show ?thesis by (auto simp: propagate.simps [of ns])
    next
      case p: (Some p)
      have ps: "p < s" using less.prems Some p by (rule ordered_parent)
      have ms: "ordered ?ms" using less.prems Some by (rule ordered_update) (simp_all add: add_weight_def)
      have same: "same_parents ns ?ms" using Some by (simp add: same_parents_def add_weight_def)
      have "propagate ns s k = propagate ?ms p k" using Some p ps by (auto simp: propagate.simps [of ns])
      also have "\<dots> = Some (\<lambda>x. if descends ns p x then map_option (add_weight k) (?ms x) else ?ms x)"
        by (simp only: less.IH [OF ps ms] descends_same_iff [OF same])
      also have "(\<lambda>x. if descends ns p x then map_option (add_weight k) (?ms x) else ?ms x) =
          (\<lambda>x. if descends ns s x then map_option (add_weight k) (ns x) else ns x)"
      proof
        fix x
        have "descends ns s x \<longleftrightarrow> x = s \<or> descends ns p x" using Some p by (simp add: descends_iff [of ns s])
        moreover have "\<not> descends ns p s" using ps descends_le [OF _ less.prems, of p s] by auto
        ultimately show "(if descends ns p x then map_option (add_weight k) (?ms x) else ?ms x) =
            (if descends ns s x then map_option (add_weight k) (ns x) else ns x)"
          using Some by (cases "x = s") auto
      qed
      finally show ?thesis .
    qed
  qed
qed

text \<open>The ancestry chain: the slot, its parent, and so on down to a slot without a parent or outside the tree.\<close>

lemma ancestry_run:
  assumes "ordered ns"
  shows "\<exists>chain. ancestry_loop ns acc s = Some (acc @ s # chain) \<and> sorted_wrt (>) (s # chain) \<and> {x. descends ns s x} \<subseteq> set (s # chain) \<and>
    (\<forall>x \<in> set (s # chain). ns x \<noteq> None \<longrightarrow> descends ns s x)"
  using assms
proof (induction s arbitrary: acc rule: less_induct)
  case (less s)
  show ?case
  proof (cases "\<exists>n p. ns s = Some n \<and> parent_slot n = Some p")
    case True
    then obtain n p where n: "ns s = Some n" "parent_slot n = Some p" by blast
    have ps: "p < s" using less.prems n by (rule ordered_parent)
    obtain chain where c: "ancestry_loop ns (acc @ [s]) p = Some ((acc @ [s]) @ p # chain)" "sorted_wrt (>) (p # chain)"
        "{x. descends ns p x} \<subseteq> set (p # chain)" "\<forall>x \<in> set (p # chain). ns x \<noteq> None \<longrightarrow> descends ns p x"
      using less.IH [OF ps less.prems] by blast
    have d: "descends ns s x \<longleftrightarrow> x = s \<or> descends ns p x" for x using n by (simp add: descends_iff [of ns s])
    have "ancestry_loop ns acc s = Some (acc @ s # p # chain)"
      using n ps c(1) by (auto simp: ancestry_loop.simps [of ns acc])
    then show ?thesis using c(2-4) ps by (intro exI [of _ "p # chain"]) (auto simp: d)
  next
    case False
    then have "ancestry_loop ns acc s = Some (acc @ [s])"
      by (auto simp: ancestry_loop.simps [of ns acc] split: option.splits)
    moreover have "descends ns s x \<longleftrightarrow> x = s \<and> ns s \<noteq> None" for x using False by (auto simp: descends_iff [of ns s])
    ultimately show ?thesis by (intro exI [of _ "[]"]) auto
  qed
qed

text \<open>What the traversal of child links collects.\<close>

inductive reaches :: "fork_nodes \<Rightarrow> u64 \<Rightarrow> u64 \<Rightarrow> bool" for ns where
  reaches_refl: "reaches ns s s"
| reaches_child: "ns s = Some n \<Longrightarrow> c \<in> set (children n) \<Longrightarrow> reaches ns c x \<Longrightarrow> reaches ns s x"

lemma reaches_iff: "reaches ns s x \<longleftrightarrow> x = s \<or> (\<exists>n. ns s = Some n \<and> (\<exists>c \<in> set (children n). reaches ns c x))"
  by (auto intro: reaches.intros elim: reaches.cases)

abbreviation later_slots :: "(u64 \<times> u64) set" where
  "later_slots \<equiv> measure (\<lambda>s. 2 ^ 64 - unat s)"

lemma later: "s < c \<Longrightarrow> (c, s) \<in> later_slots"
  using unat_bounds(3) [of s] unat_bounds(3) [of c] by (simp add: word_less_nat_alt)

lemma subtree_run:
  assumes "ordered ns"
  shows "subtree_loop ns stack R = Some (R \<union> {x. \<exists>s \<in> set stack. reaches ns s x})"
proof (induction "mset stack" arbitrary: stack R rule: wf_induct_rule [OF wf_mult [OF wf_measure [of "\<lambda>s :: u64. 2 ^ 64 - unat s"]]])
  case 1
  show ?case
  proof (cases "stack = []")
    case True
    then show ?thesis by (simp add: subtree_loop.simps)
  next
    case False
    define s where "s = last stack"
    define cs where "cs = (case ns s of Some n \<Rightarrow> children n | None \<Rightarrow> [])"
    have st: "stack = butlast stack @ [s]" using False by (simp add: s_def)
    have step: "subtree_loop ns stack R = subtree_loop ns (butlast stack @ cs) (insert s R)"
      using False by (simp add: subtree_loop.simps [of ns stack] s_def cs_def split: option.splits)
    have "s < c" if "c \<in> set cs" for c using assms that unfolding cs_def ordered_def by (cases "ns s") auto
    then have "\<forall>c \<in> set cs. (c, s) \<in> later_slots" using later by blast
    then have "(mset (butlast stack) + mset cs, mset (butlast stack) + {#s#}) \<in> mult later_slots"
      by (intro one_step_implies_mult) auto
    moreover have "mset stack = mset (butlast stack) + {#s#}" using st by (metis mset.simps mset_append)
    ultimately have "(mset (butlast stack @ cs), mset stack) \<in> mult later_slots" by simp
    from 1 [OF this] step
    have run: "subtree_loop ns stack R = Some (insert s R \<union> {x. \<exists>s \<in> set (butlast stack @ cs). reaches ns s x})" by simp
    have "reaches ns s x \<longleftrightarrow> x = s \<or> (\<exists>c \<in> set cs. reaches ns c x)" for x
      unfolding cs_def by (cases "ns s") (auto simp: reaches_iff [of ns s])
    moreover have "set stack = insert s (set (butlast stack))" using st by (metis Un_insert_right append_Nil2 list.simps(15) set_append sup_bot.right_neutral empty_set)
    ultimately show ?thesis unfolding run by auto
  qed
qed

lemma max_by_key_spec: "xs \<noteq> [] \<Longrightarrow> \<exists>y. max_by_key key xs = Some y \<and> y \<in> set xs \<and> (\<forall>x \<in> set xs. key x \<le> key y)"
  by (induction key xs rule: max_by_key.induct) (force split: option.splits)+

text \<open>A walk from a slot that goes to a heaviest child until there is none.\<close>

inductive heavy_path :: "fork_nodes \<Rightarrow> u64 \<Rightarrow> u64 \<Rightarrow> bool" for ns where
  heavy_end: "(\<And>n c. ns s = Some n \<Longrightarrow> c \<in> set (children n) \<Longrightarrow> ns c = None) \<Longrightarrow> heavy_path ns s s"
| heavy_step: "ns s = Some n \<Longrightarrow> c \<in> set (children n) \<Longrightarrow> ns c \<noteq> None \<Longrightarrow>
    (\<And>d. d \<in> set (children n) \<Longrightarrow> ns d \<noteq> None \<Longrightarrow> fork_key ns d \<le> fork_key ns c) \<Longrightarrow> heavy_path ns c b \<Longrightarrow> heavy_path ns s b"

lemma heaviest_run:
  assumes "ordered ns"
  shows "\<exists>b. find_heaviest_from ns s = Some b \<and> heavy_path ns s b"
proof (induction s rule: wf_induct_rule [OF wf_measure [of "\<lambda>s :: u64. 2 ^ 64 - unat s"]])
  case (1 s)
  show ?case
  proof (cases "\<exists>n. ns s = Some n \<and> filter (\<lambda>c. ns c \<noteq> None) (children n) \<noteq> []")
    case True
    then obtain n where n: "ns s = Some n" and cs: "filter (\<lambda>c. ns c \<noteq> None) (children n) \<noteq> []" by blast
    obtain c where c: "max_by_key (fork_key ns) (filter (\<lambda>c. ns c \<noteq> None) (children n)) = Some c" "c \<in> set (children n)" "ns c \<noteq> None"
        "\<And>d. d \<in> set (children n) \<Longrightarrow> ns d \<noteq> None \<Longrightarrow> fork_key ns d \<le> fork_key ns c"
      using max_by_key_spec [OF cs, of "fork_key ns"] by auto
    have "(c, s) \<in> later_slots" using assms n c(2) by (intro later) (simp add: ordered_def)
    from 1 [OF this] obtain b where b: "find_heaviest_from ns c = Some b" "heavy_path ns c b" by blast
    have "children n \<noteq> []" using c(2) by auto
    then have "find_heaviest_from ns s = Some b" using n c(1) b(1) by (simp add: find_heaviest_from.simps [of ns s])
    then show ?thesis using heavy_step [OF n c(2,3)] c(4) b(2) by blast
  next
    case False
    then have "find_heaviest_from ns s = Some s"
      by (auto simp: find_heaviest_from.simps [of ns s] split: option.splits)
    moreover have "heavy_path ns s s" using False by (intro heavy_end) (auto simp: filter_empty_conv)
    ultimately show ?thesis by blast
  qed
qed

section \<open>Trees and weights\<close>

definition node_ok :: "fork_tree \<Rightarrow> u64 \<Rightarrow> fork_node \<Rightarrow> bool" where
  "node_ok t s n \<longleftrightarrow> fn_slot n = s \<and> is_connected n \<and>
    (if s = ft_root_slot t then parent_slot n = None else (\<exists>p. parent_slot n = Some p \<and> nodes t p \<noteq> None)) \<and>
    distinct (children n) \<and> set (children n) = {c. \<exists>m. nodes t c = Some m \<and> parent_slot m = Some s}"

definition tree_ok :: "fork_tree \<Rightarrow> bool" where
  "tree_ok t \<longleftrightarrow> finite (dom (nodes t)) \<and> node_count t \<le> MAX_FORK_TREE_NODES \<and> ordered (nodes t) \<and>
    nodes t (ft_root_slot t) \<noteq> None \<and> (\<forall>s n. nodes t s = Some n \<longrightarrow> node_ok t s n)"

text \<open>The total stake of the voters whose counted vote is for a slot in the given set.\<close>

definition vote_weight :: "(hash \<rightharpoonup> u64 \<times> u64) \<Rightarrow> (u64 \<Rightarrow> bool) \<Rightarrow> nat" where
  "vote_weight counted P = (\<Sum>v \<in> {v. \<exists>w k. counted v = Some (w, k) \<and> P w}. unat (snd (the (counted v))))"

definition capped :: "nat \<Rightarrow> u64 \<Rightarrow> bool" where
  "capped m w \<longleftrightarrow> unat w = min m (2 ^ 64 - 1)"

definition weighted :: "(hash \<rightharpoonup> u64 \<times> u64) \<Rightarrow> fork_tree \<Rightarrow> bool" where
  "weighted counted t \<longleftrightarrow> finite (dom counted) \<and>
    (\<forall>v w k. counted v = Some (w, k) \<longrightarrow> validator_to_voted_slot t v = Some w \<and> nodes t w \<noteq> None) \<and>
    (\<forall>s n. nodes t s = Some n \<longrightarrow>
      capped (vote_weight counted (\<lambda>w. descends (nodes t) w s)) (subtree_stake n) \<and>
      capped (vote_weight counted (\<lambda>w. w = s)) (stake_voted n) \<and>
      fn_voters_seen n = {v. \<exists>k. counted v = Some (s, k)})"

lemma tree_okD:
  assumes "tree_ok t"
  shows "finite (dom (nodes t))" "ordered (nodes t)" "nodes t (ft_root_slot t) \<noteq> None" "node_count t \<le> MAX_FORK_TREE_NODES"
    "nodes t s = Some n \<Longrightarrow> node_ok t s n"
  using assms unfolding tree_ok_def by simp_all

lemma parent_present:
  assumes "tree_ok t" "nodes t s = Some n" "parent_slot n = Some p"
  shows "nodes t p \<noteq> None"
  using tree_okD(5) [OF assms(1,2)] assms(3) by (auto simp: node_ok_def split: if_splits)

lemma child_iff:
  assumes "tree_ok t" "nodes t s = Some n"
  shows "c \<in> set (children n) \<longleftrightarrow> (\<exists>m. nodes t c = Some m \<and> parent_slot m = Some s)"
  using tree_okD(5) [OF assms] by (simp add: node_ok_def)

lemma weightedD:
  assumes "weighted counted t"
  shows "finite (dom counted)" "counted v = Some (w, k) \<Longrightarrow> validator_to_voted_slot t v = Some w" "counted v = Some (w, k) \<Longrightarrow> nodes t w \<noteq> None"
    "nodes t s = Some n \<Longrightarrow> capped (vote_weight counted (\<lambda>w. descends (nodes t) w s)) (subtree_stake n)"
    "nodes t s = Some n \<Longrightarrow> capped (vote_weight counted (\<lambda>w. w = s)) (stake_voted n)"
    "nodes t s = Some n \<Longrightarrow> fn_voters_seen n = {v. \<exists>k. counted v = Some (s, k)}"
  using assms unfolding weighted_def by blast+

lemma vote_weight_cong:
  assumes "\<And>v w k. counted v = Some (w, k) \<Longrightarrow> P w = Q w"
  shows "vote_weight counted P = vote_weight counted Q"
proof -
  have "{v. \<exists>w k. counted v = Some (w, k) \<and> P w} = {v. \<exists>w k. counted v = Some (w, k) \<and> Q w}" using assms by auto
  then show ?thesis by (simp add: vote_weight_def)
qed

lemma vote_weight_none: "(\<And>v w k. counted v = Some (w, k) \<Longrightarrow> \<not> P w) \<Longrightarrow> vote_weight counted P = 0"
  using vote_weight_cong [of counted P "\<lambda>w. False"] by (simp add: vote_weight_def)

lemma vote_weight_add:
  assumes "finite (dom counted)" "counted v = None"
  shows "vote_weight (counted(v \<mapsto> (w, k))) P = vote_weight counted P + (if P w then unat k else 0)"
proof -
  define old where "old = {x. \<exists>w k. counted x = Some (w, k) \<and> P w}"
  have fin: "finite old" by (rule finite_subset [OF _ assms(1)]) (auto simp: old_def)
  have new: "{x. \<exists>w' k'. (counted(v \<mapsto> (w, k))) x = Some (w', k') \<and> P w'} = (if P w then insert v old else old)"
    using assms(2) by (auto simp: old_def)
  have out: "v \<notin> old" using assms(2) by (simp add: old_def)
  have "(\<Sum>x \<in> old. unat (snd (the ((counted(v \<mapsto> (w, k))) x)))) = (\<Sum>x \<in> old. unat (snd (the (counted x))))"
    by (rule sum.cong) (use out in auto)
  then show ?thesis using fin out unfolding vote_weight_def new old_def [symmetric] by simp
qed

lemma capped_zero: "capped 0 0"
  by (simp add: capped_def)

lemma capped_add: "capped m w \<Longrightarrow> capped (m + unat k) (saturating_add w k)"
  by (auto simp: capped_def unat_saturating_add)

lemma tree_new_ok: "tree_ok (fork_tree_new root bh kh)" "weighted Map.empty (fork_tree_new root bh kh)"
  by (auto simp: tree_ok_def node_ok_def weighted_def fork_tree_new_def fork_node_new_def ordered_def node_count_def MAX_FORK_TREE_NODES_def
      MAX_UNCONFIRMED_DEPTH_def vote_weight_def capped_zero split: if_splits)

text \<open>Adding a slot.\<close>

lemma add_slot_run:
  assumes "nodes t slot = None" "node_count t < MAX_FORK_TREE_NODES" "nodes t parent = Some p"
  shows "add_slot slot parent bh kh t =
    (Ok (), t\<lparr>nodes := (nodes t)(parent \<mapsto> push_child slot p, slot \<mapsto> fork_node_new slot (Some parent) bh kh (is_connected p) Processed)\<rparr>)"
  using assms by (simp add: add_slot_def contains_def run_simps not_le)

lemma add_slot_orphan_run:
  assumes "nodes t slot = None" "node_count t < MAX_FORK_TREE_NODES" "nodes t parent = None"
  shows "add_slot slot parent bh kh t =
    (Ok (), t\<lparr>nodes := (nodes t)(slot \<mapsto> fork_node_new slot (Some parent) bh kh False Processed)\<rparr>)"
  using assms by (simp add: add_slot_def contains_def run_simps not_le)

lemma add_slot_fails:
  assumes "nodes t slot \<noteq> None \<or> MAX_FORK_TREE_NODES \<le> node_count t"
  shows "\<exists>e. add_slot slot parent bh kh t = (Err e, t)"
proof (cases "nodes t slot = None")
  case True
  with assms show ?thesis by (simp add: add_slot_def contains_def run_simps)
next
  case False
  then show ?thesis by (simp add: add_slot_def contains_def run_simps)
qed

definition grown :: "fork_nodes \<Rightarrow> u64 \<Rightarrow> u64 \<Rightarrow> fork_node \<Rightarrow> fork_node \<Rightarrow> fork_nodes" where
  "grown ns slot parent p n = ns(parent \<mapsto> push_child slot p, slot \<mapsto> n)"

lemma grown_shape:
  assumes t: "tree_ok t" and new: "nodes t slot = None" and p: "nodes t parent = Some p" "parent < slot" and n: "parent_slot n = Some parent" "children n = []"
  defines "ns \<equiv> grown (nodes t) slot parent p n"
  shows "ordered ns"
    and "(\<exists>m. ns c = Some m \<and> parent_slot m = Some s) \<longleftrightarrow> (\<exists>m. nodes t c = Some m \<and> parent_slot m = Some s) \<or> c = slot \<and> s = parent"
    and "nodes t w \<noteq> None \<Longrightarrow> descends ns w x \<longleftrightarrow> descends (nodes t) w x"
    and "dom ns = insert slot (dom (nodes t))"
proof -
  have old: "nodes t x = Some m \<Longrightarrow> x \<noteq> slot \<and> parent_slot m \<noteq> Some slot" for x m using new parent_present [OF t] by force
  have ns: "ns x = (if x = slot then Some n else if x = parent then Some (push_child slot p) else nodes t x)" for x
    using p(2) by (simp add: ns_def grown_def)
  show "dom ns = insert slot (dom (nodes t))" using p(1) by (auto simp: ns_def grown_def)
  have node: "\<exists>m. nodes t x = Some m \<and> parent_slot m = parent_slot n" if "ns x = Some n" "x \<noteq> slot" for x n
    using that p(1) by (auto simp: ns push_child_def split: if_splits)
  have keep: "\<exists>n. ns x = Some n \<and> parent_slot n = parent_slot m" if "nodes t x = Some m" for x m
    using that p(1) old [OF that] by (auto simp: ns push_child_def)
  show "(\<exists>m. ns c = Some m \<and> parent_slot m = Some s) \<longleftrightarrow> (\<exists>m. nodes t c = Some m \<and> parent_slot m = Some s) \<or> c = slot \<and> s = parent"
  proof (cases "c = slot")
    case True
    then show ?thesis using new n by (auto simp: ns)
  next
    case False
    then show ?thesis using node [of c] keep [of c] by metis
  qed
  have up: "descends ns w x" if "descends (nodes t) w x" for w x
    using that by (induction rule: descends.induct) (metis keep descends.intros)+
  have down: "descends (nodes t) w x" if "descends ns w x" "w \<noteq> slot" for w x
    using that
  proof (induction rule: descends.induct)
    case (descends_refl s n)
    then show ?case using node by (blast intro: descends.descends_refl)
  next
    case (descends_parent w n q s)
    then obtain m where m: "nodes t w = Some m" "parent_slot m = Some q" using node by metis
    moreover have "q \<noteq> slot" using old m by metis
    ultimately show ?case using descends_parent by (blast intro: descends.descends_parent)
  qed
  show "nodes t w \<noteq> None \<Longrightarrow> descends ns w x \<longleftrightarrow> descends (nodes t) w x" using up down new by metis
  show "ordered ns" using tree_okD(2) [OF t] p n by (auto simp: ordered_def ns push_child_def split: if_splits)
qed

lemma add_slot_tree:
  assumes t: "tree_ok t" and new: "nodes t slot = None" "node_count t < MAX_FORK_TREE_NODES" and p: "nodes t parent = Some p" "parent < slot"
  shows "tree_ok (t\<lparr>nodes := grown (nodes t) slot parent p (fork_node_new slot (Some parent) bh kh (is_connected p) Processed)\<rparr>)"
proof -
  define ns where "ns = grown (nodes t) slot parent p (fork_node_new slot (Some parent) bh kh (is_connected p) Processed)"
  note shape = grown_shape [OF t new(1) p, of "fork_node_new slot (Some parent) bh kh (is_connected p) Processed",
      folded ns_def, unfolded fork_node_new_def, simplified, folded fork_node_new_def]
  have ns: "ns x = (if x = slot then Some (fork_node_new slot (Some parent) bh kh (is_connected p) Processed)
      else if x = parent then Some (push_child slot p) else nodes t x)" for x using p(2) by (simp add: ns_def grown_def)
  have pres: "nodes t q \<noteq> None \<Longrightarrow> ns q \<noteq> None" for q using p(1) by (simp add: ns)
  have "node_ok (t\<lparr>nodes := ns\<rparr>) s n" if s: "ns s = Some n" for s n
  proof (cases "s = slot")
    case True
    with s have n: "n = fork_node_new slot (Some parent) bh kh (is_connected p) Processed" by (simp add: ns)
    have "is_connected p" using tree_okD(5) [OF t p(1)] by (simp add: node_ok_def)
    moreover have "slot \<noteq> ft_root_slot t" using tree_okD(3) [OF t] new(1) by metis
    moreover have "\<not> (\<exists>m. ns c = Some m \<and> parent_slot m = Some slot)" for c
      unfolding shape(2) using parent_present [OF t] new(1) p(2) by (metis less_irrefl)
    ultimately show ?thesis using True n p by (simp add: node_ok_def fork_node_new_def) (simp add: ns)
  next
    case False
    then obtain m where m: "nodes t s = Some m" "n = (if s = parent then push_child slot m else m)"
      using s p(1) by (auto simp: ns split: if_splits)
    have ok: "node_ok t s m" using t m(1) by (rule tree_okD)
    have out: "slot \<notin> set (children m)" using child_iff [OF t m(1)] new(1) by simp
    show ?thesis
      using ok out m(2) pres by (auto simp: node_ok_def shape(2) push_child_def split: if_splits)
  qed
  moreover have "node_count (t\<lparr>nodes := ns\<rparr>) \<le> MAX_FORK_TREE_NODES"
    using new tree_okD(1) [OF t] by (simp add: node_count_def shape(4) domIff)
  ultimately have "tree_ok (t\<lparr>nodes := ns\<rparr>)" using shape(1,4) tree_okD(1,3) [OF t] pres by (simp add: tree_ok_def)
  then show ?thesis by (simp add: ns_def)
qed

lemma add_slot_weights:
  assumes t: "tree_ok t" "weighted counted t" and new: "nodes t slot = None" and p: "nodes t parent = Some p" "parent < slot"
  shows "weighted counted (t\<lparr>nodes := grown (nodes t) slot parent p (fork_node_new slot (Some parent) bh kh (is_connected p) Processed)\<rparr>)"
proof -
  define ns where "ns = grown (nodes t) slot parent p (fork_node_new slot (Some parent) bh kh (is_connected p) Processed)"
  have key: "nodes t w \<noteq> None \<Longrightarrow> descends ns w x \<longleftrightarrow> descends (nodes t) w x" for w x
    unfolding ns_def by (rule grown_shape(3) [OF t(1) new p]) (simp_all add: fork_node_new_def)
  have ns: "ns x = (if x = slot then Some (fork_node_new slot (Some parent) bh kh (is_connected p) Processed)
      else if x = parent then Some (push_child slot p) else nodes t x)" for x using p(2) by (simp add: ns_def grown_def)
  have voted: "nodes t w \<noteq> None" "w \<noteq> slot" if "counted v = Some (w, k)" for v w k
    using weightedD(3) [OF t(2) that] new by auto
  have weight: "vote_weight counted (\<lambda>w. descends ns w s) = vote_weight counted (\<lambda>w. descends (nodes t) w s)" for s
    by (rule vote_weight_cong) (use key voted in blast)
  have none: "vote_weight counted (\<lambda>w. descends (nodes t) w slot) = 0" "vote_weight counted (\<lambda>w. w = slot) = 0"
    by (rule vote_weight_none, use descends_in new in force) (rule vote_weight_none, use voted(2) in blast)
  have "capped (vote_weight counted (\<lambda>w. descends ns w s)) (subtree_stake n) \<and> capped (vote_weight counted (\<lambda>w. w = s)) (stake_voted n) \<and>
      fn_voters_seen n = {v. \<exists>k. counted v = Some (s, k)}" if s: "ns s = Some n" for s n
  proof (cases "s = slot")
    case True
    then show ?thesis using s none voted(2) by (auto simp: ns weight fork_node_new_def capped_zero)
  next
    case False
    then obtain m where m: "nodes t s = Some m" "subtree_stake n = subtree_stake m" "stake_voted n = stake_voted m" "fn_voters_seen n = fn_voters_seen m"
      using s p(1) by (auto simp: ns push_child_def split: if_splits)
    show ?thesis using weightedD(4-6) [OF t(2) m(1)] m(2-4) by (simp add: weight)
  qed
  moreover have "ns w \<noteq> None" if "counted v = Some (w, k)" for v w k using voted(1) [OF that] p(1) by (simp add: ns)
  ultimately have "weighted counted (t\<lparr>nodes := ns\<rparr>)"
    using weightedD(1,2) [OF t(2)] by (simp add: weighted_def)
  then show ?thesis by (simp add: ns_def)
qed

text \<open>Adding a vote.\<close>

definition voted_node :: "hash \<Rightarrow> u64 \<Rightarrow> fork_node \<Rightarrow> fork_node" where
  "voted_node voter stake n = n\<lparr>fn_voters_seen := insert voter (fn_voters_seen n), stake_voted := saturating_add (stake_voted n) stake\<rparr>"

definition voted_nodes :: "fork_nodes \<Rightarrow> u64 \<Rightarrow> hash \<Rightarrow> u64 \<Rightarrow> fork_nodes" where
  "voted_nodes ns slot voter stake x =
    map_option ((if descends ns slot x then add_weight stake else id) \<circ> (if x = slot then voted_node voter stake else id)) (ns x)"

definition first_vote :: "fork_tree \<Rightarrow> u64 \<Rightarrow> hash \<Rightarrow> bool" where
  "first_vote t slot voter \<longleftrightarrow> validator_to_voted_slot t voter = None \<and> (\<exists>n. nodes t slot = Some n \<and> voter \<notin> fn_voters_seen n)"

lemma add_vote_run:
  assumes "ordered (nodes t)"
  shows "add_vote slot voter stake t = Some (if first_vote t slot voter
    then (True, t\<lparr>nodes := voted_nodes (nodes t) slot voter stake, validator_to_voted_slot := (validator_to_voted_slot t)(voter \<mapsto> slot)\<rparr>)
    else (False, t))"
proof (cases "first_vote t slot voter")
  case True
  then obtain n where n: "nodes t slot = Some n" "voter \<notin> fn_voters_seen n" "validator_to_voted_slot t voter = None" by (auto simp: first_vote_def)
  let ?ns = "(nodes t)(slot \<mapsto> voted_node voter stake n)"
  have ord: "ordered ?ns" using assms n(1) by (rule ordered_update) (simp_all add: voted_node_def)
  have same: "same_parents (nodes t) ?ns" using n by (simp add: same_parents_def voted_node_def)
  have "propagate ?ns slot stake = Some (voted_nodes (nodes t) slot voter stake)"
    unfolding propagate_run [OF ord] descends_same_iff [OF same, symmetric]
    using n(1) by (auto simp: voted_nodes_def fun_eq_iff option.map_comp option.map_id)
  then show ?thesis using True n by (simp add: add_vote_def voted_node_def [symmetric] Let_def)
next
  case False
  then show ?thesis by (auto simp: add_vote_def first_vote_def split: option.splits)
qed

lemma voted_nodes_iff:
  "voted_nodes ns slot voter stake x = Some m \<longleftrightarrow>
    (\<exists>n. ns x = Some n \<and> m = (if descends ns slot x then add_weight stake else id) ((if x = slot then voted_node voter stake else id) n))"
  by (auto simp: voted_nodes_def)

lemma voted_nodes_same: "same_parents ns (voted_nodes ns slot voter stake)"
  by (auto simp: same_parents_def voted_nodes_def add_weight_def voted_node_def option.map_comp comp_def)

lemma voted_nodes_ordered: "ordered ns \<Longrightarrow> ordered (voted_nodes ns slot voter stake)"
  by (auto simp: ordered_def voted_nodes_iff add_weight_def voted_node_def)

lemma add_vote_tree:
  assumes "tree_ok t"
  shows "tree_ok (t\<lparr>nodes := voted_nodes (nodes t) slot voter stake, validator_to_voted_slot := vs\<rparr>)"
proof -
  let ?ns = "voted_nodes (nodes t) slot voter stake"
  have dom: "dom ?ns = dom (nodes t)" by (auto simp: voted_nodes_def)
  have none: "?ns x = None \<longleftrightarrow> nodes t x = None" for x by (simp add: voted_nodes_def)
  have kids: "(\<exists>m. ?ns c = Some m \<and> parent_slot m = Some s) \<longleftrightarrow> (\<exists>m. nodes t c = Some m \<and> parent_slot m = Some s)" for c s
    by (auto simp: voted_nodes_iff add_weight_def voted_node_def)
  have "node_ok (t\<lparr>nodes := ?ns, validator_to_voted_slot := vs\<rparr>) s m" if m: "?ns s = Some m" for s m
  proof -
    obtain n where n: "nodes t s = Some n" "fn_slot m = fn_slot n" "is_connected m = is_connected n" "parent_slot m = parent_slot n" "children m = children n"
      using m by (auto simp: voted_nodes_iff add_weight_def voted_node_def)
    show ?thesis using tree_okD(5) [OF assms n(1)] n(2-5) by (simp add: node_ok_def none kids del: not_None_eq)
  qed
  then show ?thesis
    using tree_okD(1-4) [OF assms] voted_nodes_ordered by (simp add: tree_ok_def dom node_count_def none)
qed

lemma add_vote_weights:
  assumes t: "weighted counted t" and n: "nodes t slot = Some n" and new: "validator_to_voted_slot t voter = None"
  shows "weighted (counted(voter \<mapsto> (slot, stake)))
    (t\<lparr>nodes := voted_nodes (nodes t) slot voter stake, validator_to_voted_slot := (validator_to_voted_slot t)(voter \<mapsto> slot)\<rparr>)"
proof -
  let ?ns = "voted_nodes (nodes t) slot voter stake" and ?c = "counted(voter \<mapsto> (slot, stake))"
  have none: "?ns x = None \<longleftrightarrow> nodes t x = None" for x by (simp add: voted_nodes_def)
  have c: "counted voter = None" using weightedD(2) [OF t, of voter] new by (cases "counted voter") auto
  note add = vote_weight_add [OF weightedD(1) [OF t] c]
  have d: "descends ?ns w s \<longleftrightarrow> descends (nodes t) w s" for w s by (rule descends_same_iff [OF voted_nodes_same, symmetric])
  have "capped (vote_weight ?c (\<lambda>w. descends ?ns w s)) (subtree_stake m) \<and> capped (vote_weight ?c (\<lambda>w. w = s)) (stake_voted m) \<and>
      fn_voters_seen m = {v. \<exists>k. ?c v = Some (s, k)}" if m: "?ns s = Some m" for s m
  proof -
    obtain l where l: "nodes t s = Some l"
        "subtree_stake m = (if descends (nodes t) slot s then saturating_add (subtree_stake l) stake else subtree_stake l)"
        "stake_voted m = (if s = slot then saturating_add (stake_voted l) stake else stake_voted l)"
        "fn_voters_seen m = (if s = slot then insert voter (fn_voters_seen l) else fn_voters_seen l)"
      using m by (auto simp: voted_nodes_iff add_weight_def voted_node_def)
    have "{v. \<exists>k. ?c v = Some (s, k)} = (if s = slot then insert voter (fn_voters_seen l) else fn_voters_seen l)"
      using weightedD(6) [OF t l(1)] c by auto
    then show ?thesis using weightedD(4,5) [OF t l(1)] l(2-4) capped_add by (auto simp: d add)
  qed
  moreover have "((validator_to_voted_slot t)(voter \<mapsto> slot)) v = Some w \<and> ?ns w \<noteq> None" if "?c v = Some (w, k)" for v w k
    using that weightedD(2,3) [OF t, of v w k] n unfolding none by (auto split: if_splits)
  ultimately show ?thesis using weightedD(1) [OF t] by (simp add: weighted_def)
qed

text \<open>Moving the root.\<close>

lemma remove_slots_run:
  "distinct ss \<Longrightarrow> remove_slots ss ns = (ns |` (- set ss), filter (\<lambda>s. ns s \<noteq> None) ss)"
proof (induction ss arbitrary: ns)
  case (Cons s ss)
  have "(ns(s := None)) |` (- set ss) = ns |` (- set (s # ss))" by (auto simp: restrict_map_def)
  moreover have "filter (\<lambda>x. (ns(s := None)) x \<noteq> None) ss = filter (\<lambda>x. ns x \<noteq> None) ss"
    using Cons.prems by (intro filter_cong) auto
  ultimately show ?case using Cons by simp
qed (simp add: restrict_map_def)

definition rooted :: "fork_nodes \<Rightarrow> u64 set \<Rightarrow> u64 \<Rightarrow> fork_node \<Rightarrow> fork_nodes" where
  "rooted ns K r n = (ns |` K)(r \<mapsto> n\<lparr>parent_slot := None, fn_commitment := Finalized\<rparr>)"

definition still_voted :: "u64 \<Rightarrow> (hash \<rightharpoonup> u64) \<Rightarrow> hash \<rightharpoonup> u64" where
  "still_voted r m v = (case m v of Some s \<Rightarrow> if r \<le> s then Some s else None | None \<Rightarrow> None)"

lemma reaches_le: "reaches ns s x \<Longrightarrow> ordered ns \<Longrightarrow> s \<le> x"
  by (induction rule: reaches.induct) (simp_all, meson ordered_def less_imp_le order.trans)

lemma set_root_run:
  assumes ord: "ordered (nodes t)" and n: "nodes t r = Some n" "ft_root_slot t < r"
    and iter: "set (iter (dom (nodes t))) = dom (nodes t)" "distinct (iter (dom (nodes t)))"
  shows "\<exists>pruned K. set_root iter r t =
      Some (Ok pruned, t\<lparr>nodes := rooted (nodes t) K r n, ft_root_slot := r, validator_to_voted_slot := still_voted r (validator_to_voted_slot t)\<rparr>) \<and>
    K = {x. reaches (nodes t) r x} \<and> distinct pruned \<and> set pruned = dom (nodes t) - K"
proof -
  let ?ns = "nodes t" and ?root = "ft_root_slot t"
  obtain chain where chain: "get_ancestry t r = Some (r # chain)" "sorted_wrt (>) (r # chain)"
    using ancestry_run [OF ord, of "[]" r] by (auto simp: get_ancestry_def)
  define R where "R = {x. reaches ?ns r x}"
  have sub: "collect_subtree t r = Some R" by (simp add: collect_subtree_def subtree_run [OF ord] R_def)
  have R: "r \<in> R" "\<And>x. x \<in> R \<Longrightarrow> r \<le> x" using reaches_le [OF _ ord] by (auto simp: R_def intro: reaches_refl)
  have below: "\<And>x. x \<in> set chain \<Longrightarrow> x < r" using chain(2) by simp
  have "sorted_wrt (<) (rev chain)" using chain(2) by (simp add: sorted_wrt_rev)
  then have dist: "distinct chain" using strict_sorted_iff distinct_rev by blast
  define between where "between = filter (\<lambda>s. s \<noteq> r \<and> s \<noteq> ?root) (r # chain)"
  have between: "set between = set chain - {?root}" "distinct between" using below dist by (auto simp: between_def)
  define keep where "keep = R \<union> set (r # chain)"
  define ns where "ns = (?ns |` keep) |` (- set between)"
  have out: "x \<notin> set chain" "x \<noteq> ?root" if "x \<in> R" for x using R(2) [OF that] below [of x] n(2) by auto
  have K: "keep - set between - {?root} = R" using R(1) out by (auto simp: keep_def between(1))
  have ns: "ns |` (- {?root}) = ?ns |` R"
    unfolding ns_def restrict_restrict K [symmetric] by (rule arg_cong [where f = "restrict_map ?ns"]) auto
  define pruned where "pruned = filter (\<lambda>s. s \<notin> keep) (iter (dom ?ns)) @ filter (\<lambda>s. (?ns |` keep) s \<noteq> None) between @ filter (\<lambda>s. ns s \<noteq> None) [?root]"
  have c: "contains t r" "\<not> r \<le> ?root" "?root \<noteq> r" using n by (auto simp: contains_def)
  have rm: "remove_slots between (?ns |` keep) = (ns, filter (\<lambda>s. (?ns |` keep) s \<noteq> None) between)"
      "remove_slots [?root] ns = (?ns |` R, filter (\<lambda>s. ns s \<noteq> None) [?root])"
    using remove_slots_run [OF between(2)] remove_slots_run [of "[?root]" ns] ns by (simp_all add: ns_def del: remove_slots.simps)
  have at: "(?ns |` R) r = Some n" using n(1) R(1) by simp
  have "set_root iter r t = Some (Ok pruned, t\<lparr>nodes := rooted ?ns R r n, ft_root_slot := r, validator_to_voted_slot := still_voted r (validator_to_voted_slot t)\<rparr>)"
    by (simp only: set_root_def c chain(1) sub bind.bind_lunit Let_def keep_def [symmetric] between_def [symmetric] rm at prod.case
        option.case simp_thms if_True if_False pruned_def rooted_def still_voted_def [abs_def])
  moreover have "set pruned = dom ?ns - R"
    using iter(1) R(1) out by (auto simp: pruned_def ns_def keep_def between(1) restrict_map_def split: if_splits)
  moreover have "distinct pruned"
    using iter between by (auto simp: pruned_def ns_def keep_def restrict_map_def)
  ultimately show ?thesis unfolding R_def by blast
qed

lemma reaches_trans: "reaches ns a b \<Longrightarrow> reaches ns b c \<Longrightarrow> reaches ns a c"
  by (induction rule: reaches.induct) (auto intro: reaches_child)

lemma reaches_descends:
  assumes t: "tree_ok t" and s: "nodes t s = Some n"
  shows "reaches (nodes t) s x \<longleftrightarrow> descends (nodes t) x s"
proof
  have "reaches (nodes t) s x \<Longrightarrow> nodes t s = Some n \<Longrightarrow> descends (nodes t) x s" for s n
  proof (induction arbitrary: n rule: reaches.induct)
    case (reaches_child s n' c x)
    then obtain m where m: "nodes t c = Some m" "parent_slot m = Some s" using child_iff [OF t] by blast
    have "descends (nodes t) c s" using m reaches_child.prems by (blast intro: descends.intros)
    then show ?case using reaches_child.IH [OF m(1)] by (blast intro: descends_trans)
  qed (blast intro: descends_refl)
  with s show "reaches (nodes t) s x \<Longrightarrow> descends (nodes t) x s" by blast
  show "descends (nodes t) x s \<Longrightarrow> reaches (nodes t) s x"
  proof (induction rule: descends.induct)
    case (descends_parent w n p s)
    obtain m where m: "nodes t p = Some m" using parent_present [OF t descends_parent.hyps(1,2)] by blast
    have "w \<in> set (children m)" using child_iff [OF t m] descends_parent.hyps by blast
    then have "reaches (nodes t) p w" using m by (blast intro: reaches.intros)
    then show ?case using descends_parent.IH by (blast intro: reaches_trans)
  qed (rule reaches_refl)
qed

lemma rooted_ordered: "ordered ns \<Longrightarrow> ns r = Some n \<Longrightarrow> ordered (rooted ns K r n)"
  by (auto simp: ordered_def rooted_def restrict_map_def split: if_splits)

lemma rooted_shape:
  assumes t: "tree_ok t" and r: "nodes t r = Some n"
  defines "K \<equiv> {x. descends (nodes t) x r}" and "ns \<equiv> rooted (nodes t) {x. descends (nodes t) x r} r n"
  shows "dom ns = K" and "\<And>x. x \<in> K \<Longrightarrow> r \<le> x" and "K \<subseteq> dom (nodes t)" and "r \<in> K"
    and "\<And>x m. ns x = Some m \<Longrightarrow> x \<noteq> r \<Longrightarrow> x \<in> K \<and> nodes t x = Some m"
    and "\<And>w s. s \<in> K \<Longrightarrow> descends ns w s \<longleftrightarrow> descends (nodes t) w s"
proof -
  note ord = tree_okD(2) [OF t]
  show rK: "r \<in> K" using r by (simp add: K_def descends_refl)
  show KD: "K \<subseteq> dom (nodes t)" using descends_in unfolding K_def by blast
  show ge: "\<And>x. x \<in> K \<Longrightarrow> r \<le> x" unfolding K_def using descends_le [OF _ ord] by blast
  have ns: "ns x = (if x = r then Some (n\<lparr>parent_slot := None, fn_commitment := Finalized\<rparr>) else if x \<in> K then nodes t x else None)" for x
    by (simp add: ns_def rooted_def K_def restrict_map_def)
  show "dom ns = K" using rK KD by (auto simp: ns split: if_splits)
  show old: "\<And>x m. ns x = Some m \<Longrightarrow> x \<noteq> r \<Longrightarrow> x \<in> K \<and> nodes t x = Some m" by (auto simp: ns split: if_splits)
  show "descends ns w s \<longleftrightarrow> descends (nodes t) w s" if s: "s \<in> K" for w s
  proof
    show "descends ns w s \<Longrightarrow> descends (nodes t) w s"
    proof (induction rule: descends.induct)
      case (descends_refl s m)
      then show ?case using old r by (metis descends.descends_refl)
    next
      case (descends_parent w m p s)
      then have "w \<noteq> r" by (auto simp: ns)
      then show ?case using old descends_parent by (metis descends.descends_parent)
    qed
    have "descends (nodes t) w s \<Longrightarrow> s \<in> K \<Longrightarrow> descends ns w s"
    proof (induction rule: descends.induct)
      case (descends_refl s m)
      then have "ns s \<noteq> None" by (simp add: ns)
      then show ?case by (auto intro: descends.descends_refl)
    next
      case (descends_parent w m p s)
      have "r \<le> p" using ge descends_parent.prems descends_le [OF descends_parent.hyps(3) ord] by (meson order.trans)
      moreover have "p < w" using ord descends_parent.hyps(1,2) by (rule ordered_parent)
      ultimately have "w \<noteq> r" by auto
      moreover have "w \<in> K"
        using descends_parent by (auto simp: K_def intro: descends_trans descends.descends_parent)
      ultimately have "ns w = Some m" using descends_parent.hyps(1) by (simp add: ns)
      then show ?case using descends_parent by (auto intro: descends.descends_parent)
    qed
    with s show "descends (nodes t) w s \<Longrightarrow> descends ns w s" by blast
  qed
qed

definition still_counted :: "fork_nodes \<Rightarrow> u64 \<Rightarrow> (hash \<rightharpoonup> u64 \<times> u64) \<Rightarrow> hash \<rightharpoonup> u64 \<times> u64" where
  "still_counted ns r counted v = (case counted v of Some (w, k) \<Rightarrow> if descends ns w r then Some (w, k) else None | None \<Rightarrow> None)"

lemma still_counted_iff: "still_counted ns r counted v = Some (w, k) \<longleftrightarrow> counted v = Some (w, k) \<and> descends ns w r"
  by (auto simp: still_counted_def split: option.splits)

lemma set_root_tree:
  assumes t: "tree_ok t" and r: "nodes t r = Some n"
  shows "tree_ok (t\<lparr>nodes := rooted (nodes t) {x. descends (nodes t) x r} r n, ft_root_slot := r, validator_to_voted_slot := vs\<rparr>)"
proof -
  define ns where "ns = rooted (nodes t) {x. descends (nodes t) x r} r n"
  note shape = rooted_shape [OF t r, folded ns_def]
  have at: "ns r = Some (n\<lparr>parent_slot := None, fn_commitment := Finalized\<rparr>)" by (simp add: ns_def rooted_def)
  have pres: "ns p \<noteq> None \<longleftrightarrow> descends (nodes t) p r" for p using shape(1) by (metis domIff mem_Collect_eq)
  have kids: "(\<exists>m. ns c = Some m \<and> parent_slot m = Some s) \<longleftrightarrow> (\<exists>m. nodes t c = Some m \<and> parent_slot m = Some s)" if s: "descends (nodes t) s r" for c s
  proof (cases "c = r")
    case True
    have "p < r" if "parent_slot n = Some p" for p using tree_okD(2) [OF t] r that by (rule ordered_parent)
    moreover have "r \<le> s" using s by (rule descends_le [OF _ tree_okD(2) [OF t]])
    ultimately show ?thesis using True at r by auto
  next
    case False
    show ?thesis
      using shape(5) [OF _ False] pres [of c] s False by (metis descends_parent not_None_eq option.inject)
  qed
  have "node_ok (t\<lparr>nodes := ns, ft_root_slot := r, validator_to_voted_slot := vs\<rparr>) s m" if m: "ns s = Some m" for s m
  proof (cases "s = r")
    case True
    have "node_ok t r n" using t r by (rule tree_okD)
    moreover have "descends (nodes t) r r" using r by (rule descends_refl)
    moreover have "m = n\<lparr>parent_slot := None, fn_commitment := Finalized\<rparr>" using m at True by simp
    ultimately show ?thesis using True kids [of r] by (simp add: node_ok_def)
  next
    case False
    with shape(5) m have s: "descends (nodes t) s r" "nodes t s = Some m" by blast+
    have ok: "node_ok t s m" using t s(2) by (rule tree_okD)
    obtain p where p: "parent_slot m = Some p" "descends (nodes t) p r" using s False by (auto simp: descends_iff [of "nodes t" s])
    show ?thesis using ok False p kids [OF s(1)] pres [of p] by (simp add: node_ok_def del: not_None_eq)
  qed
  moreover have fin: "finite (dom ns)" using shape(1,3) tree_okD(1) [OF t] by (metis finite_subset)
  moreover have "card (dom ns) \<le> card (dom (nodes t))" using shape(1,3) tree_okD(1) [OF t] by (metis card_mono)
  then have "card (dom ns) \<le> MAX_FORK_TREE_NODES" using tree_okD(4) [OF t] by (simp add: node_count_def)
  moreover have "ordered ns" unfolding ns_def using tree_okD(2) [OF t] r by (rule rooted_ordered)
  ultimately have "tree_ok (t\<lparr>nodes := ns, ft_root_slot := r, validator_to_voted_slot := vs\<rparr>)" using at by (simp add: tree_ok_def node_count_def)
  then show ?thesis by (simp add: ns_def)
qed

lemma set_root_weights:
  assumes t: "tree_ok t" "weighted counted t" and r: "nodes t r = Some n"
  shows "weighted (still_counted (nodes t) r counted)
    (t\<lparr>nodes := rooted (nodes t) {x. descends (nodes t) x r} r n, ft_root_slot := r, validator_to_voted_slot := still_voted r (validator_to_voted_slot t)\<rparr>)"
proof -
  define ns where "ns = rooted (nodes t) {x. descends (nodes t) x r} r n"
  let ?c = "still_counted (nodes t) r counted"
  note shape = rooted_shape [OF t(1) r, folded ns_def]
  have weight: "vote_weight ?c P = vote_weight counted P" if "\<And>w. P w \<Longrightarrow> descends (nodes t) w r" for P
  proof -
    have "{v. \<exists>w k. ?c v = Some (w, k) \<and> P w} = {v. \<exists>w k. counted v = Some (w, k) \<and> P w}" using that by (auto simp: still_counted_iff)
    moreover have "?c v = counted v" if "\<exists>w k. counted v = Some (w, k) \<and> P w" for v
      using that \<open>\<And>w. P w \<Longrightarrow> descends (nodes t) w r\<close> by (auto simp: still_counted_def)
    ultimately show ?thesis unfolding vote_weight_def by (auto intro!: sum.cong)
  qed
  have "capped (vote_weight ?c (\<lambda>w. descends ns w s)) (subtree_stake m) \<and> capped (vote_weight ?c (\<lambda>w. w = s)) (stake_voted m) \<and>
      fn_voters_seen m = {v. \<exists>k. ?c v = Some (s, k)}" if m: "ns s = Some m" for s m
  proof -
    have s: "descends (nodes t) s r" using m shape(1) by blast
    obtain l where l: "nodes t s = Some l" "subtree_stake m = subtree_stake l" "stake_voted m = stake_voted l" "fn_voters_seen m = fn_voters_seen l"
    proof (cases "s = r")
      case True
      with m have "m = n\<lparr>parent_slot := None, fn_commitment := Finalized\<rparr>" by (simp add: ns_def rooted_def)
      then show ?thesis using that [of n] r True by simp
    next
      case False
      then show ?thesis using that [of m] shape(5) [OF m] by simp
    qed
    have "descends ns w s \<longleftrightarrow> descends (nodes t) w s" for w using shape(6) s by blast
    then have "vote_weight ?c (\<lambda>w. descends ns w s) = vote_weight counted (\<lambda>w. descends (nodes t) w s)"
      using weight [of "\<lambda>w. descends (nodes t) w s"] s by (auto intro: descends_trans)
    moreover have "vote_weight ?c (\<lambda>w. w = s) = vote_weight counted (\<lambda>w. w = s)" by (rule weight) (use s in simp)
    moreover have "{v. \<exists>k. ?c v = Some (s, k)} = {v. \<exists>k. counted v = Some (s, k)}" using s by (auto simp: still_counted_iff)
    ultimately show ?thesis using weightedD(4-6) [OF t(2) l(1)] l(2-4) by simp
  qed
  moreover have "still_voted r (validator_to_voted_slot t) v = Some w \<and> ns w \<noteq> None" if c: "?c v = Some (w, k)" for v w k
  proof -
    have w: "counted v = Some (w, k)" "descends (nodes t) w r" using c by (simp_all add: still_counted_iff)
    then have "r \<le> w" "ns w \<noteq> None" using shape(1,2) by (auto simp: domIff [symmetric] simp del: not_None_eq)
    then show ?thesis using weightedD(2) [OF t(2) w(1)] by (simp add: still_voted_def)
  qed
  moreover have "finite (dom ?c)"
    by (rule finite_subset [OF _ weightedD(1) [OF t(2)]]) (auto simp: still_counted_def split: option.splits)
  ultimately have "weighted ?c (t\<lparr>nodes := ns, ft_root_slot := r, validator_to_voted_slot := still_voted r (validator_to_voted_slot t)\<rparr>)"
    by (simp add: weighted_def)
  then show ?thesis by (simp add: ns_def)
qed

section \<open>Reconnecting orphans\<close>

definition parent_of :: "fork_nodes \<Rightarrow> u64 \<Rightarrow> u64 option" where
  "parent_of ns s = (case ns s of Some n \<Rightarrow> parent_slot n | None \<Rightarrow> None)"

definition connected :: "fork_nodes \<Rightarrow> u64 \<Rightarrow> bool" where
  "connected ns s \<longleftrightarrow> (case ns s of Some n \<Rightarrow> is_connected n | None \<Rightarrow> False)"

lemma orphan_children_iff:
  "(case orphan_children slots ns p of Some cs \<Rightarrow> cs | None \<Rightarrow> []) = filter (\<lambda>s. parent_of ns s = Some p \<and> \<not> connected ns s) slots"
proof (induction slots rule: rev_induct)
  case (snoc s slots)
  show ?case
  proof (cases "ns s")
    case None
    then show ?thesis using snoc by (simp add: orphan_children_def parent_of_def)
  next
    case (Some n)
    then show ?thesis
      using snoc by (cases "parent_slot n") (auto simp: orphan_children_def parent_of_def connected_def)
  qed
qed (simp add: orphan_children_def)

lemma finite_orphans: "finite (dom (orphan_children slots ns))"
  by (induction slots rule: rev_induct) (auto simp: orphan_children_def split: option.splits)

lemma reconnect_child_step:
  assumes "ordered ns" "parent_of ns c = Some q"
  shows "ordered (reconnect_child q c ns)" "parent_of (reconnect_child q c ns) = parent_of ns"
    "connected (reconnect_child q c ns) x \<longleftrightarrow> connected ns x \<or> x = c" "dom (reconnect_child q c ns) = dom ns"
proof -
  obtain n where n: "ns c = Some n" "parent_slot n = Some q" using assms(2) by (auto simp: parent_of_def split: option.splits)
  have qc: "q < c" using assms(1) n by (rule ordered_parent)
  define ms where "ms = ns(c \<mapsto> n\<lparr>is_connected := True\<rparr>)"
  have ms: "ordered ms" "parent_of ms = parent_of ns" "connected ms x \<longleftrightarrow> connected ns x \<or> x = c" for x
    unfolding ms_def using n by (auto simp: parent_of_def connected_def fun_eq_iff intro: ordered_update [OF assms(1)])
  have r: "reconnect_child q c ns = (case ms q of Some p \<Rightarrow> if c \<in> set (children p) then ms else ms(q \<mapsto> push_child c p) | None \<Rightarrow> ms)"
    using n(1) by (simp add: reconnect_child_def ms_def [symmetric])
  have push: "ordered (ms(q \<mapsto> push_child c p))" "parent_of (ms(q \<mapsto> push_child c p)) = parent_of ms" "connected (ms(q \<mapsto> push_child c p)) x = connected ms x"
    if "ms q = Some p" for p x
    using that ms(1) qc by (auto simp: ordered_def push_child_def parent_of_def connected_def fun_eq_iff)
  show "ordered (reconnect_child q c ns)" "parent_of (reconnect_child q c ns) = parent_of ns"
    "connected (reconnect_child q c ns) x \<longleftrightarrow> connected ns x \<or> x = c"
    unfolding r using ms push by (auto split: option.splits)
  have "dom ms = dom ns" using n(1) by (auto simp: ms_def)
  then show "dom (reconnect_child q c ns) = dom ns" unfolding r by (cases "ms q") (auto split: if_splits)
qed

lemma reconnect_children:
  assumes "ordered ns" "\<forall>c \<in> set cs. parent_of ns c = Some q"
  shows "ordered (fold (reconnect_child q) cs ns) \<and> parent_of (fold (reconnect_child q) cs ns) = parent_of ns \<and>
    dom (fold (reconnect_child q) cs ns) = dom ns \<and>
    (\<forall>x. connected (fold (reconnect_child q) cs ns) x \<longleftrightarrow> connected ns x \<or> x \<in> set cs)"
  using assms
proof (induction cs arbitrary: ns)
  case (Cons c cs)
  have c: "parent_of ns c = Some q" using Cons.prems(2) by simp
  note step = reconnect_child_step [OF Cons.prems(1) c]
  have "\<forall>d \<in> set cs. parent_of (reconnect_child q c ns) d = Some q" using Cons.prems(2) by (simp add: step(2))
  from Cons.IH [OF step(1) this] show ?case by (auto simp: step(2,3,4))
qed simp

lemma reconnect_loop_eqs:
  "reconnect_loop [] orphans ns = Some ns"
  "reconnect_loop (q # qs) orphans ns = (case orphans q of
      None \<Rightarrow> reconnect_loop qs orphans ns
    | Some cs \<Rightarrow> reconnect_loop (qs @ cs) (orphans(q := None)) (fold (reconnect_child q) cs ns))"
  by (simp_all add: reconnect_loop.simps [of "[]"] reconnect_loop.simps [of "q # qs"] split: option.splits)

text \<open>The search ends, and afterwards every block with a connected parent is connected.\<close>

lemma reconnect_loop_run:
  assumes "finite (dom orphans)" "ordered ns"
    and "\<forall>p cs. orphans p = Some cs \<longrightarrow> (\<forall>c \<in> set cs. parent_of ns c = Some p)"
    and "\<forall>s p. parent_of ns s = Some p \<and> \<not> connected ns s \<longrightarrow> (\<exists>cs. orphans p = Some cs \<and> s \<in> set cs)"
    and "\<forall>s p. parent_of ns s = Some p \<and> \<not> connected ns s \<and> connected ns p \<longrightarrow> p \<in> set queue"
  shows "\<exists>ms. reconnect_loop queue orphans ns = Some ms \<and> ordered ms \<and> parent_of ms = parent_of ns \<and> dom ms = dom ns \<and>
    (\<forall>x. connected ns x \<longrightarrow> connected ms x) \<and> (\<forall>s p. parent_of ms s = Some p \<and> connected ms p \<longrightarrow> connected ms s)"
  using assms
proof (induction "length queue + (\<Sum>p \<in> dom orphans. length (the (orphans p)))" arbitrary: queue orphans ns rule: less_induct)
  case less
  show ?case
  proof (cases queue)
    case Nil
    then show ?thesis using less.prems by (auto simp: reconnect_loop_eqs)
  next
    case (Cons q qs)
    show ?thesis
    proof (cases "orphans q")
      case None
      have "\<forall>s p. parent_of ns s = Some p \<and> \<not> connected ns s \<and> connected ns p \<longrightarrow> p \<in> set qs"
        using less.prems(4,5) None Cons by (metis option.distinct(1) set_ConsD)
      from less.hyps [OF _ less.prems(1-4) this] show ?thesis using Cons None by (simp add: reconnect_loop_eqs)
    next
      case (Some cs)
      let ?o = "orphans(q := None)" and ?ms = "fold (reconnect_child q) cs ns"
      have q: "q \<in> dom orphans" using Some by blast
      have cs: "\<forall>c \<in> set cs. parent_of ns c = Some q" using less.prems(3) Some by blast
      note fold = reconnect_children [OF less.prems(2) cs]
      have "(\<Sum>p \<in> dom orphans. length (the (orphans p))) = length cs + (\<Sum>p \<in> dom orphans - {q}. length (the (orphans p)))"
        using sum.remove [OF less.prems(1) q, of "\<lambda>p. length (the (orphans p))"] Some by simp
      also have "(\<Sum>p \<in> dom orphans - {q}. length (the (orphans p))) = (\<Sum>p \<in> dom ?o. length (the (?o p)))"
        by (rule sum.cong) auto
      finally have less: "length (qs @ cs) + (\<Sum>p \<in> dom ?o. length (the (?o p))) < length queue + (\<Sum>p \<in> dom orphans. length (the (orphans p)))"
        using Cons by simp
      have A: "\<forall>p ds. ?o p = Some ds \<longrightarrow> (\<forall>c \<in> set ds. parent_of ?ms c = Some p)" using less.prems(3) fold by auto
      have K: "\<forall>s p. parent_of ?ms s = Some p \<and> \<not> connected ?ms s \<longrightarrow> (\<exists>ds. ?o p = Some ds \<and> s \<in> set ds)"
        using less.prems(4) Some fold by (metis fun_upd_apply option.inject)
      have J: "\<forall>s p. parent_of ?ms s = Some p \<and> \<not> connected ?ms s \<and> connected ?ms p \<longrightarrow> p \<in> set (qs @ cs)"
        using less.prems(4,5) Some fold Cons by (metis Un_iff option.inject set_ConsD set_append)
      have "finite (dom ?o)" using less.prems(1) by simp
      from less.hyps [OF less this conjunct1 [OF fold] A K J] obtain r where
        r: "reconnect_loop (qs @ cs) ?o ?ms = Some r" "ordered r" "parent_of r = parent_of ?ms" "dom r = dom ?ms" "\<forall>x. connected ?ms x \<longrightarrow> connected r x"
          "\<forall>s p. parent_of r s = Some p \<and> connected r p \<longrightarrow> connected r s" by blast
      have "reconnect_loop queue orphans ns = Some r" using Cons Some r(1) by (simp add: reconnect_loop_eqs)
      then show ?thesis using r(2-6) fold by metis
    qed
  qed
qed

lemma try_reconnect_run:
  assumes ord: "ordered (nodes t)" and iter: "set (iter (dom (nodes t))) = dom (nodes t)"
  shows "\<exists>ns. try_reconnect_orphans iter t = Some (t\<lparr>nodes := ns\<rparr>) \<and> ordered ns \<and> parent_of ns = parent_of (nodes t) \<and> dom ns = dom (nodes t) \<and>
    (\<forall>x. connected (nodes t) x \<longrightarrow> connected ns x) \<and> (\<forall>s p. parent_of ns s = Some p \<and> connected ns p \<longrightarrow> connected ns s)"
proof -
  let ?o = "orphan_children (iter (dom (nodes t))) (nodes t)"
  let ?q = "filter (\<lambda>s. case nodes t s of Some n \<Rightarrow> is_connected n | None \<Rightarrow> False) (iter (dom (nodes t)))"
  have in_dom: "parent_of (nodes t) s = Some p \<Longrightarrow> s \<in> dom (nodes t)" "connected (nodes t) s \<Longrightarrow> s \<in> dom (nodes t)" for s p
    by (auto simp: parent_of_def connected_def split: option.splits)
  have o: "(case ?o p of Some cs \<Rightarrow> set cs | None \<Rightarrow> {}) = {s. parent_of (nodes t) s = Some p \<and> \<not> connected (nodes t) s}" for p
    using arg_cong [OF orphan_children_iff [of "iter (dom (nodes t))" "nodes t" p], of set] in_dom(1) iter by (auto split: option.splits)
  have A: "\<forall>p cs. ?o p = Some cs \<longrightarrow> (\<forall>c \<in> set cs. parent_of (nodes t) c = Some p)" using o by fastforce
  have K: "\<forall>s p. parent_of (nodes t) s = Some p \<and> \<not> connected (nodes t) s \<longrightarrow> (\<exists>cs. ?o p = Some cs \<and> s \<in> set cs)"
  proof (intro allI impI)
    fix s p
    assume "parent_of (nodes t) s = Some p \<and> \<not> connected (nodes t) s"
    then have "s \<in> (case ?o p of Some cs \<Rightarrow> set cs | None \<Rightarrow> {})" unfolding o by simp
    then show "\<exists>cs. ?o p = Some cs \<and> s \<in> set cs" by (cases "?o p") simp_all
  qed
  have J: "\<forall>s p. parent_of (nodes t) s = Some p \<and> \<not> connected (nodes t) s \<and> connected (nodes t) p \<longrightarrow> p \<in> set ?q"
    using in_dom(2) iter by (auto simp: connected_def)
  show ?thesis
  proof (cases "dom ?o = {}")
    case True
    then have "connected (nodes t) s" if "parent_of (nodes t) s = Some p" for s p using K that by (metis domIff empty_iff option.distinct(1))
    then show ?thesis using True ord by (intro exI [of _ "nodes t"]) (auto simp: try_reconnect_orphans_def)
  next
    case False
    then show ?thesis
      using reconnect_loop_run [OF finite_orphans ord A K J] by (auto simp: try_reconnect_orphans_def Let_def)
  qed
qed

section \<open>Runs of the tree\<close>

text \<open>Trees built with every block above its parent, whether or not the parent was there.\<close>

inductive ordered_tree :: "(u64 set \<Rightarrow> u64 list) \<Rightarrow> fork_tree \<Rightarrow> bool" for iter where
  ot_new: "ordered_tree iter (fork_tree_new r bh kh)"
| ot_stake: "ordered_tree iter t \<Longrightarrow> ordered_tree iter (set_total_active_stake k t)"
| ot_slot: "ordered_tree iter t \<Longrightarrow> p < s \<Longrightarrow> add_slot s p bh kh t = (x, t') \<Longrightarrow> ordered_tree iter t'"
| ot_vote: "ordered_tree iter t \<Longrightarrow> add_vote s v k t = Some (b, t') \<Longrightarrow> ordered_tree iter t'"
| ot_best: "ordered_tree iter t \<Longrightarrow> compute_best_fork t = Some (b, t') \<Longrightarrow> ordered_tree iter t'"
| ot_root: "ordered_tree iter t \<Longrightarrow> set_root iter r t = Some (x, t') \<Longrightarrow> ordered_tree iter t'"
| ot_reconnect: "ordered_tree iter t \<Longrightarrow> try_reconnect_orphans iter t = Some t' \<Longrightarrow> ordered_tree iter t'"

text \<open>Trees built with the parent of every block in place, with the votes that count.\<close>

inductive fork_run :: "(u64 set \<Rightarrow> u64 list) \<Rightarrow> (hash \<rightharpoonup> u64 \<times> u64) \<Rightarrow> fork_tree \<Rightarrow> bool" for iter where
  fr_new: "fork_run iter Map.empty (fork_tree_new r bh kh)"
| fr_stake: "fork_run iter counted t \<Longrightarrow> fork_run iter counted (set_total_active_stake k t)"
| fr_slot: "fork_run iter counted t \<Longrightarrow> contains t p \<Longrightarrow> p < s \<Longrightarrow> add_slot s p bh kh t = (x, t') \<Longrightarrow> fork_run iter counted t'"
| fr_vote: "fork_run iter counted t \<Longrightarrow> add_vote s v k t = Some (True, t') \<Longrightarrow> fork_run iter (counted(v \<mapsto> (s, k))) t'"
| fr_no_vote: "fork_run iter counted t \<Longrightarrow> add_vote s v k t = Some (False, t') \<Longrightarrow> fork_run iter counted t'"
| fr_best: "fork_run iter counted t \<Longrightarrow> compute_best_fork t = Some (b, t') \<Longrightarrow> fork_run iter counted t'"
| fr_root: "fork_run iter counted t \<Longrightarrow> contains t r \<Longrightarrow> ft_root_slot t < r \<Longrightarrow> set_root iter r t = Some (x, t') \<Longrightarrow>
    fork_run iter (still_counted (nodes t) r counted) t'"
| fr_same_root: "fork_run iter counted t \<Longrightarrow> \<not> contains t r \<or> r \<le> ft_root_slot t \<Longrightarrow> set_root iter r t = Some (x, t') \<Longrightarrow> fork_run iter counted t'"
| fr_reconnect: "fork_run iter counted t \<Longrightarrow> try_reconnect_orphans iter t = Some t' \<Longrightarrow> fork_run iter counted t'"

lemma add_slot_cases:
  assumes "add_slot s p bh kh t = (x, t')"
  obtains "t' = t" | n where "nodes t s = None" "node_count t < MAX_FORK_TREE_NODES" "nodes t p = Some n"
      "t' = t\<lparr>nodes := grown (nodes t) s p n (fork_node_new s (Some p) bh kh (is_connected n) Processed)\<rparr>"
    | "nodes t s = None" "nodes t p = None" "t' = t\<lparr>nodes := (nodes t)(s \<mapsto> fork_node_new s (Some p) bh kh False Processed)\<rparr>"
proof (cases "nodes t s \<noteq> None \<or> MAX_FORK_TREE_NODES \<le> node_count t")
  case True
  then show ?thesis using add_slot_fails [OF True, of p bh kh] assms that(1) by force
next
  case False
  then have new: "nodes t s = None" "node_count t < MAX_FORK_TREE_NODES" by auto
  show ?thesis
  proof (cases "nodes t p")
    case None
    then show ?thesis using add_slot_orphan_run [OF new None, of bh kh] assms that(3) new by simp
  next
    case (Some n)
    then show ?thesis using add_slot_run [OF new Some, of bh kh] assms that(2) new by (simp add: grown_def)
  qed
qed

lemma ordered_treeD:
  assumes "ordered_tree iter t" "hash_iteration iter"
  shows "ordered (nodes t) \<and> finite (dom (nodes t))"
  using assms(1)
proof (induction rule: ordered_tree.induct)
  case (ot_slot t p s bh kh x t')
  have "ordered (nodes t')"
    using ot_slot.hyps(3)
  proof (cases rule: add_slot_cases)
    case (2 n)
    then show ?thesis using ot_slot by (auto simp: ordered_def grown_def push_child_def fork_node_new_def split: if_splits)
  next
    case 3
    then show ?thesis using ot_slot by (auto simp: ordered_def fork_node_new_def split: if_splits)
  qed (use ot_slot in simp)
  moreover have "finite (dom (nodes t'))"
    using ot_slot.hyps(3) ot_slot.IH by (cases rule: add_slot_cases) (auto simp: grown_def)
  ultimately show ?case by blast
next
  case (ot_vote t s v k b t')
  then have "t' = t \<or> t' = t\<lparr>nodes := voted_nodes (nodes t) s v k, validator_to_voted_slot := (validator_to_voted_slot t)(v \<mapsto> s)\<rparr>"
    by (auto simp: add_vote_run split: if_splits)
  moreover have "dom (voted_nodes (nodes t) s v k) = dom (nodes t)" by (auto simp: voted_nodes_def)
  ultimately show ?case using ot_vote voted_nodes_ordered by auto
next
  case (ot_best t b t')
  then show ?case by (auto simp: compute_best_fork_def bind_eq_Some_conv)
next
  case (ot_root t r x t')
  show ?case
  proof (cases "\<exists>n. nodes t r = Some n \<and> ft_root_slot t < r")
    case True
    then obtain n where n: "nodes t r = Some n" "ft_root_slot t < r" by blast
    have "set (iter (dom (nodes t))) = dom (nodes t)" "distinct (iter (dom (nodes t)))"
      using assms(2) ot_root.IH by (auto simp: hash_iteration_def)
    from set_root_run [where iter = iter, OF conjunct1 [OF ot_root.IH] n this] ot_root.hyps(2) obtain K where "nodes t' = rooted (nodes t) K r n" by auto
    moreover have "dom (rooted (nodes t) K r n) \<subseteq> dom (nodes t)" using n(1) by (auto simp: rooted_def restrict_map_def split: if_splits)
    ultimately show ?thesis using rooted_ordered [OF conjunct1 [OF ot_root.IH] n(1)] ot_root.IH by (auto intro: finite_subset)
  next
    case False
    then show ?thesis using ot_root by (auto simp: set_root_def contains_def not_le split: if_splits)
  qed
next
  case (ot_reconnect t t')
  have iter: "set (iter (dom (nodes t))) = dom (nodes t)" using assms(2) ot_reconnect.IH by (simp add: hash_iteration_def)
  from try_reconnect_run [where iter = iter, OF conjunct1 [OF ot_reconnect.IH] iter]
  obtain ns where "try_reconnect_orphans iter t = Some (t\<lparr>nodes := ns\<rparr>)" "ordered ns" "dom ns = dom (nodes t)" by blast
  then show ?case using ot_reconnect by simp
qed (auto simp: fork_tree_new_def fork_node_new_def ordered_def set_total_active_stake_def split: if_splits)

lemma same_tree:
  assumes "nodes t' = nodes t" "ft_root_slot t' = ft_root_slot t" "validator_to_voted_slot t' = validator_to_voted_slot t"
  shows "tree_ok t' = tree_ok t" "weighted counted t' = weighted counted t"
  using assms by (simp_all add: tree_ok_def weighted_def node_ok_def node_count_def del: not_None_eq)

lemma reconnect_nothing:
  assumes "tree_ok t"
  shows "try_reconnect_orphans iter t = Some t"
proof -
  have con: "is_connected n" if "nodes t s = Some n" for s n
    using tree_okD(5) [OF assms that] by (simp add: node_ok_def)
  have "orphan_children slots (nodes t) = Map.empty" for slots
    by (induction slots rule: rev_induct) (auto simp: orphan_children_def split: option.splits dest: con)
  then show ?thesis by (simp add: try_reconnect_orphans_def)
qed

lemma fork_runD:
  assumes "fork_run iter counted t" "hash_iteration iter"
  shows "tree_ok t \<and> weighted counted t"
  using assms(1)
proof (induction rule: fork_run.induct)
  case (fr_new r bh kh)
  show ?case using tree_new_ok by blast
next
  case (fr_stake counted t k)
  then show ?case using same_tree [of "set_total_active_stake k t" t] by (simp add: set_total_active_stake_def)
next
  case (fr_slot counted t p s bh kh x t')
  from fr_slot.hyps(4) show ?case
  proof (cases rule: add_slot_cases)
    case (2 n)
    then show ?thesis using add_slot_tree add_slot_weights fr_slot by blast
  qed (use fr_slot in \<open>simp_all add: contains_def\<close>)
next
  case (fr_vote counted t s v k t')
  then have ord: "ordered (nodes t)" by (blast dest: tree_okD(2))
  from fr_vote.hyps(2) have first: "first_vote t s v"
    and t': "t' = t\<lparr>nodes := voted_nodes (nodes t) s v k, validator_to_voted_slot := (validator_to_voted_slot t)(v \<mapsto> s)\<rparr>"
    by (auto simp: add_vote_run [OF ord] split: if_splits)
  then obtain n where "nodes t s = Some n" "validator_to_voted_slot t v = None" by (auto simp: first_vote_def)
  then show ?case unfolding t' using add_vote_tree add_vote_weights fr_vote.IH by blast
next
  case (fr_no_vote counted t s v k t')
  then have "t' = t" by (auto simp: add_vote_run tree_okD(2) split: if_splits)
  then show ?case using fr_no_vote by simp
next
  case (fr_best counted t b t')
  then have "t' = t\<lparr>ft_best_slot := b\<rparr>" by (auto simp: compute_best_fork_def bind_eq_Some_conv)
  then show ?case using fr_best.IH same_tree [of t' t] by simp
next
  case (fr_root counted t r x t')
  then obtain n where n: "nodes t r = Some n" by (auto simp: contains_def)
  have ok: "tree_ok t" using fr_root.IH by simp
  have "set (iter (dom (nodes t))) = dom (nodes t)" "distinct (iter (dom (nodes t)))"
    using assms(2) tree_okD(1) [OF ok] by (auto simp: hash_iteration_def)
  from set_root_run [where iter = iter, OF tree_okD(2) [OF ok] n fr_root.hyps(3) this] fr_root.hyps(4)
  have "t' = t\<lparr>nodes := rooted (nodes t) {x. descends (nodes t) x r} r n, ft_root_slot := r,
      validator_to_voted_slot := still_voted r (validator_to_voted_slot t)\<rparr>"
    unfolding reaches_descends [OF ok n] by auto
  then show ?case using set_root_tree [OF ok n] set_root_weights [OF ok _ n] fr_root.IH by simp
next
  case (fr_same_root counted t r x t')
  then have "t' = t" by (auto simp: set_root_def split: if_splits)
  then show ?case using fr_same_root by simp
next
  case (fr_reconnect counted t t')
  then show ?case using reconnect_nothing [of t] by simp
qed

lemma heavy_path_leaf: "heavy_path ns s b \<Longrightarrow> (\<forall>n c. ns b = Some n \<longrightarrow> c \<in> set (children n) \<longrightarrow> ns c = None) \<and> reaches ns s b"
  by (induction rule: heavy_path.induct) (auto intro: reaches.intros)

text \<open>Nothing in the tree keeps a block from naming a later block as its parent. Two blocks that name each other are
  both accepted, and their ancestry then never ends.\<close>

lemma ancestry_no_cycle:
  assumes "ancestry_loop ns acc c = Some r"
  shows "c = a \<or> c = b \<Longrightarrow> a \<noteq> b \<Longrightarrow> ns a = Some n \<Longrightarrow> parent_slot n = Some b \<Longrightarrow> ns b = Some m \<Longrightarrow> parent_slot m = Some a \<Longrightarrow> False"
proof (induction rule: ancestry_loop.raw_induct [OF _ assms])
  case (1 loop ns chain current r)
  have "loop ns (chain @ [current]) a = Some r \<or> loop ns (chain @ [current]) b = Some r"
    using 1(2-) by (auto split: option.splits if_splits)
  then show ?case using 1(1,4-) by blast
qed

lemma ancestry_cycle:
  assumes "a \<noteq> b" "ns a = Some n" "parent_slot n = Some b" "ns b = Some m" "parent_slot m = Some a"
  shows "ancestry_loop ns acc a = None"
  using ancestry_no_cycle [of ns acc a _ a b n m] assms by (cases "ancestry_loop ns acc a") auto

lemma mutual_parents_diverge:
  "\<exists>t t'. add_slot 5 7 1 1 (fork_tree_new 0 1 1) = (Ok (), t) \<and> add_slot 7 5 1 1 t = (Ok (), t') \<and> get_ancestry t' 5 = None"
  by (auto simp: add_slot_def contains_def node_count_def fork_tree_new_def fork_node_new_def push_child_def run_simps
      MAX_FORK_TREE_NODES_def MAX_UNCONFIRMED_DEPTH_def get_ancestry_def intro!: ancestry_cycle [of 5 7])

section \<open>Properties\<close>

text \<open>C35: In every fork tree built with the parent of each block in place, the weight of a block is the total stake of the
  voters whose counted vote is for it or for one of its descendants, each voter being counted once (as long as the total
  fits 64 bits, and the largest number after that); the votes for the block itself are those recorded with it; child
  links, parent links and connection flags agree and there are at most 256 blocks.\<close>

theorem fork_weights_exact:
  assumes "hash_iteration iter" "fork_run iter counted t"
  shows "tree_ok t \<and> weighted counted t"
  using fork_runD assms by blast

text \<open>C36: Where every block is above its parent, present or not, no loop of the fork tree runs forever: votes, the choice
  of the heaviest fork, ancestries, moving the root and reconnecting orphans all return. Reconnecting leaves no block
  unconnected whose parent is connected.\<close>

theorem fork_ops_return:
  assumes "hash_iteration iter" "ordered_tree iter t"
  shows "(\<exists>b t'. add_vote s v k t = Some (b, t')) \<and> (\<exists>b. compute_best_fork t = Some (b, t\<lparr>ft_best_slot := b\<rparr>)) \<and>
    (\<exists>chain. get_ancestry t s = Some (s # chain) \<and> sorted_wrt (>) (s # chain)) \<and> (\<exists>x t'. set_root iter r t = Some (x, t')) \<and>
    (\<exists>t'. try_reconnect_orphans iter t = Some t' \<and>
      (\<forall>c p. parent_of (nodes t') c = Some p \<and> connected (nodes t') p \<longrightarrow> connected (nodes t') c))"
proof -
  have ord: "ordered (nodes t)" and fin: "finite (dom (nodes t))" using ordered_treeD [OF assms(2,1)] by blast+
  have iter: "set (iter (dom (nodes t))) = dom (nodes t)" "distinct (iter (dom (nodes t)))"
    using assms(1) fin by (auto simp: hash_iteration_def)
  have "\<exists>b t'. add_vote s v k t = Some (b, t')" by (simp add: add_vote_run [OF ord])
  moreover have "\<exists>b. compute_best_fork t = Some (b, t\<lparr>ft_best_slot := b\<rparr>)"
    using heaviest_run [OF ord, of "ft_root_slot t"] by (auto simp: compute_best_fork_def)
  moreover have "\<exists>chain. get_ancestry t s = Some (s # chain) \<and> sorted_wrt (>) (s # chain)"
    using ancestry_run [OF ord, of "[]" s] by (auto simp: get_ancestry_def)
  moreover have "\<exists>x t'. set_root iter r t = Some (x, t')"
  proof (cases "\<exists>n. nodes t r = Some n \<and> ft_root_slot t < r")
    case True
    then obtain n where "nodes t r = Some n" "ft_root_slot t < r" by blast
    from set_root_run [where iter = iter, OF ord this iter] show ?thesis by blast
  next
    case False
    then show ?thesis by (auto simp: set_root_def contains_def not_le)
  qed
  moreover have "\<exists>t'. try_reconnect_orphans iter t = Some t' \<and>
      (\<forall>c p. parent_of (nodes t') c = Some p \<and> connected (nodes t') p \<longrightarrow> connected (nodes t') c)"
    using try_reconnect_run [where iter = iter, OF ord iter(1)] by auto
  ultimately show ?thesis by blast
qed

text \<open>C37: The best fork of a well-formed tree ends in a leaf below the root, reached from the root by going at every
  fork to a child of greatest weight, ties broken by the greater block hash.\<close>

theorem best_fork_heaviest:
  assumes "tree_ok t"
  shows "\<exists>b n. compute_best_fork t = Some (b, t\<lparr>ft_best_slot := b\<rparr>) \<and> heavy_path (nodes t) (ft_root_slot t) b \<and>
    nodes t b = Some n \<and> children n = [] \<and> descends (nodes t) b (ft_root_slot t)"
proof -
  obtain b where b: "find_heaviest_from (nodes t) (ft_root_slot t) = Some b" "heavy_path (nodes t) (ft_root_slot t) b"
    using heaviest_run [OF tree_okD(2) [OF assms]] by blast
  obtain m where m: "nodes t (ft_root_slot t) = Some m" using tree_okD(3) [OF assms] by blast
  have d: "descends (nodes t) b (ft_root_slot t)" using heavy_path_leaf [OF b(2)] reaches_descends [OF assms m] by blast
  then obtain n where n: "nodes t b = Some n" using descends_in by blast
  have "children n = []"
  proof (rule ccontr)
    assume "children n \<noteq> []"
    then have "hd (children n) \<in> set (children n)" by simp
    then show False using heavy_path_leaf [OF b(2)] child_iff [OF assms n] n by (metis option.distinct(1))
  qed
  then show ?thesis using b d n by (auto simp: compute_best_fork_def)
qed

section \<open>Witnesses\<close>

text \<open>A root with two blocks above it, the second of which has a vote.\<close>

definition two_forks :: fork_tree where
  "two_forks = snd (add_slot 2 0 5 6 (snd (add_slot 1 0 3 4 (fork_tree_new 0 1 2))))"

definition voted_forks :: fork_tree where
  "voted_forks = snd (the (add_vote 1 9 10 two_forks))"

lemma two_forks_slots: "\<exists>t. add_slot 1 0 3 4 (fork_tree_new 0 1 2) = (Ok (), t) \<and> add_slot 2 0 5 6 t = (Ok (), two_forks) \<and> contains t 0"
  by (simp add: two_forks_def add_slot_def contains_def node_count_def fork_tree_new_def fork_node_new_def push_child_def run_simps
      MAX_FORK_TREE_NODES_def MAX_UNCONFIRMED_DEPTH_def)

lemma two_forks_run: "fork_run sorted_list_of_set Map.empty two_forks"
proof -
  obtain t where t: "add_slot 1 0 3 4 (fork_tree_new 0 1 2) = (Ok (), t)" "add_slot 2 0 5 6 t = (Ok (), two_forks)" "contains t 0"
    using two_forks_slots by blast
  have "fork_run sorted_list_of_set Map.empty t"
    by (rule fr_slot [OF fr_new _ _ t(1)]) (simp_all add: contains_def fork_tree_new_def)
  then show ?thesis by (rule fr_slot [OF _ t(3) _ t(2)]) simp
qed

lemma voted_forks_vote: "add_vote 1 9 10 two_forks = Some (True, voted_forks)"
proof -
  have ord: "ordered (nodes two_forks)"
    using fork_runD [OF two_forks_run sorted_iteration.hash_iteration_axioms] by (blast dest: tree_okD(2))
  have "first_vote two_forks 1 9"
    by (simp add: first_vote_def two_forks_def add_slot_def contains_def node_count_def fork_tree_new_def fork_node_new_def
        push_child_def run_simps MAX_FORK_TREE_NODES_def MAX_UNCONFIRMED_DEPTH_def)
  then show ?thesis by (simp add: voted_forks_def add_vote_run [OF ord])
qed

lemma voted_forks_run: "fork_run sorted_list_of_set [9 \<mapsto> (1, 10)] voted_forks"
  by (rule fr_vote [OF two_forks_run voted_forks_vote])

theorem fork_weights_exact_witness:
  "fork_run sorted_list_of_set [9 \<mapsto> (1, 10)] voted_forks \<and> tree_ok voted_forks \<and> weighted [9 \<mapsto> (1, 10)] voted_forks"
  using fork_weights_exact [OF sorted_iteration.hash_iteration_axioms voted_forks_run] voted_forks_run by simp

lemma two_forks_ordered: "ordered_tree sorted_list_of_set two_forks"
proof -
  obtain t where t: "add_slot 1 0 3 4 (fork_tree_new 0 1 2) = (Ok (), t)" "add_slot 2 0 5 6 t = (Ok (), two_forks)"
    using two_forks_slots by blast
  show ?thesis by (rule ot_slot [OF ot_slot [OF ot_new _ t(1)] _ t(2)]) simp_all
qed

theorem fork_ops_return_witness:
  "(\<exists>b t'. add_vote 2 9 10 two_forks = Some (b, t')) \<and> (\<exists>x t'. set_root sorted_list_of_set 1 two_forks = Some (x, t')) \<and>
   (\<exists>t'. try_reconnect_orphans sorted_list_of_set two_forks = Some t')"
  using fork_ops_return [OF sorted_iteration.hash_iteration_axioms two_forks_ordered, of 2 9 10 1] by blast

theorem best_fork_heaviest_witness:
  "\<exists>b n. compute_best_fork voted_forks = Some (b, voted_forks\<lparr>ft_best_slot := b\<rparr>) \<and>
     heavy_path (nodes voted_forks) (ft_root_slot voted_forks) b \<and> nodes voted_forks b = Some n \<and> children n = []"
proof -
  have "tree_ok voted_forks" using fork_runD [OF voted_forks_run sorted_iteration.hash_iteration_axioms] by simp
  from best_fork_heaviest [OF this] show ?thesis by blast
qed

end
