(* ===== verification/Spec2Isabelle.thy ===== *)
theory Spec2Isabelle
  imports Executor Slot Snapshot Mempool State_Tree Fork_Choice
begin

text \<open>
  Verification of the Nusantara chain, a proof-of-stake blockchain in Rust.

  \<^bold>\<open>The program.\<close> A client compiles instructions into a message and signs it (\<open>core\<close>, \<open>crypto\<close>). The
  runtime takes a signed transaction, checks it, loads the accounts it names, deducts the fee and runs
  its instructions one after the other in a transaction context. Each instruction goes to a native
  program (system, stake, vote, token, loader, compute budget) or to the WebAssembly engine. At the end
  the runtime checks its invariants and returns the accounts to be written. The theories follow this
  path, then the storage below it, the pool of waiting transactions before it and the consensus parts that
  decide between blocks. The paths below are relative to \<open>src/\<close>.

  \<^bold>\<open>How the code is modelled.\<close> Machine integers are words, so \<open>+\<close>, \<open>-\<close> and \<open>*\<close> wrap as in the
  release build; \<open>checked_\<close> and \<open>saturating_\<close> operations are functions of their own. A fallible call
  returns an \<open>outcome\<close>: a value, an error value, or a panic. Code that mutates a state through \<open>&mut\<close>
  and returns early with \<open>?\<close> is a function of type \<open>rm\<close> built from \<open>bind_r\<close>, \<open>require\<close>, \<open>ok_or\<close>,
  \<open>index\<close> and \<open>modify\<close>; an error keeps the mutations made before it, as in the code. Loops are
  recursion over lists and total; the loops of the fork tree, which follow links that may form a cycle, are partial
  functions into \<open>option\<close>, where \<open>None\<close> is a run that does not end. No fuel is used. The iteration order of a hash map
  is a parameter that enumerates its keys.

  \<^descr> \<open>Prelude\<close>: integers, outcomes, the combinators, and the locale \<open>run_relation\<close> for a relation that
    every run keeps.
  \<^descr> \<open>Chain_Types\<close>: the data types and constants of \<open>core\<close>, of the program crates and of the runtime errors.
  \<^descr> \<open>Borsh\<close>, \<open>Borsh_Formats\<close>: the serialisation crate \<open>borsh\<close> as the locale \<open>borsh_codec\<close>, and the
    documented format of each stored or received type as an interpretation of it.
  \<^descr> \<open>Env\<close>: what comes from outside the repository, as a record that is an argument of the definitions:
    SHA3-512, Dilithium3, base64, the codecs, and the WebAssembly engine with its host functions.
  \<^descr> \<open>Message\<close>: \<open>core/src/message.rs\<close>. Nothing is lost in the compilation to indices as long as they fit, and
    the two privilege tests read back the metas of the instructions.
  \<^descr> \<open>Transaction\<close>: \<open>core/src/transaction.rs\<close>. Verification succeeds exactly when every signer's key and
    signature fit, and signing makes it succeed. The cached hash is left out; a message is not changed after hashing.
  \<^descr> \<open>Chain_Params\<close>: \<open>core/src/fee.rs\<close>, \<open>core/src/epoch.rs\<close>, \<open>rent-program\<close>.
  \<^descr> \<open>Tx_Context\<close>: \<open>runtime/src/transaction_context.rs\<close>, \<open>compute_meter.rs\<close> and
    \<open>processors/helpers.rs\<close>, with the contracts \<open>framed_processor\<close> and \<open>conserving_processor\<close> of a
    native program.
  \<^descr> \<open>System\<close>, \<open>Stake\<close>, \<open>Vote\<close>, \<open>Token\<close>, \<open>Loader\<close>: \<open>runtime/src/processors/\<close>, one definition per
    handler, each an interpretation of a contract. The effect of the handlers is stated exactly; a stake
    account follows an abstract life cycle; the vote history has a closed form; a program whose authority is
    revoked never changes; a write to a buffer changes exactly its range.
  \<^descr> \<open>Compute_Budget\<close>: \<open>runtime/src/compute_budget_parser.rs\<close>, clamped to its maxima.
  \<^descr> \<open>Panic_Free\<close>: no native handler indexes or slices out of range, from any state.
  \<^descr> \<open>Executor\<close>: \<open>runtime/src/transaction_executor.rs\<close> with \<open>account_loader.rs\<close>, \<open>program_processor.rs\<close>,
    \<open>program_dispatch.rs\<close> and \<open>wasm_dispatch.rs\<close>. What a successful and a failed transaction commits, the
    compute bound, and freedom from panics.
  \<^descr> \<open>Database\<close>: \<open>storage/src/storage.rs\<close>, \<open>keys.rs\<close>, \<open>cf.rs\<close>, \<open>write_batch.rs\<close>. RocksDB is a record of
    operations with the locale \<open>kv_store\<close> as its documented laws, interpreted on finite maps.
  \<^descr> \<open>Accounts_Db\<close>: \<open>storage/src/account_index.rs\<close> and \<open>owner_index.rs\<close>. Versions of an account by slot, the
    pointer to the current one, rewinds and clean-ups, and the index of accounts by owner.
  \<^descr> \<open>Snapshot\<close>: \<open>storage/src/snapshot.rs\<close> and \<open>snapshot_archive.rs\<close> without the files. A snapshot restored elsewhere
    reads as the original.
  \<^descr> \<open>Slot\<close>: \<open>runtime/src/slot_commit.rs\<close>, \<open>batch_executor.rs\<close>, \<open>scheduler.rs\<close>, \<open>parallel_executor.rs\<close>. The parallel
    executor computes what the sequential one does, and the database then holds the result.
  \<^descr> \<open>Ordered_Map\<close>: \<open>BTreeMap\<close> as a sorted association list, and the locale \<open>hash_iteration\<close>.
  \<^descr> \<open>Mempool\<close>: \<open>mempool/src/pool.rs\<close>. The four structures of the pool agree after any interleaving of operations, and
    draining returns the best paying transactions.
  \<^descr> \<open>Merkle\<close>, \<open>State_Tree\<close>: \<open>crypto/src/merkle.rs\<close> and \<open>consensus/src/state_tree.rs\<close>. The array-based tree has the
    textbook root and proofs; the incremental tree over the accounts agrees with one built from scratch.
  \<^descr> \<open>Tower\<close>: \<open>consensus/src/tower.rs\<close>. Which votes the tower takes, which lockouts expire and which slots become roots.
  \<^descr> \<open>Fork_Choice\<close>: \<open>consensus/src/fork_choice.rs\<close>. Where every block comes after its parent all loops end; where the parent
    was present the weights are exact, and the best fork follows the greatest weight.

  \<^bold>\<open>Where the code departs from its intent.\<close> Theorems also show: a transaction without instructions never pays its
  fee in stored state; a failed transaction may write lamports its instructions credited to the payer; a
  transaction without account keys panics; token accounts and mints can be initialised over accounts that
  did not sign; a vote can be replayed for credits; changing the authority of a buffer discards its contents;
  a fee payer marked read-only is charged less by the parallel executor; a rewind leaves the owner index
  behind and does not advance older pointers; the reserve a withdrawal leaves is a sum that may wrap; two blocks that
  name each other as parents make the fork tree loop; the two warm-up formulas of the epoch schedule differ by an
  epoch.

  \<^bold>\<open>Not modelled.\<close> The engine's host functions (\<open>vm/\<close>), which run inside a third-party interpreter, and its cache
  of compiled modules; the ledger tables of \<open>storage/\<close> (blocks, shreds, slot metadata) and the tuning of the
  database; the network services (\<open>gossip/\<close>, \<open>turbine/\<close>, \<open>tpu-forward/\<close>, \<open>rpc/\<close>, \<open>validator/\<close>) and the clients
  (\<open>cli/\<close>, \<open>sdk/\<close>), which are asynchronous input and output; \<open>genesis/\<close>; of \<open>consensus/\<close> the leader schedule, proof
  of history, rewards, slashing and replay.
\<close>

end
